(* ===== verification/Prelude.thy ===== *)
theory Prelude
  imports Main "HOL-Library.Word" "HOL-Library.List_Lexorder" "HOL-Library.Code_Target_Nat"
begin

unbundle bit_operations_syntax

text \<open>
  Vocabulary shared by every component theory: the machine types of the Go code
  (bytes, fixed-width integers, the 64-bit \<open>int\<close>), big-endian integers as
  \<open>encoding/binary\<close> writes and reads them, sub-slices, and the generic facts on
  lists, association lists and fixed-width record codecs that the component proofs use.
\<close>

section \<open>Machine types\<close>

type_synonym byte = "8 word"
type_synonym bytes = "byte list"
type_synonym u16 = "16 word"
type_synonym u32 = "32 word"
type_synonym u64 = "64 word"

text \<open>Facts that evaluate the byte-level codecs, and facts on well-formedness.\<close>

named_theorems codec_simps \<open>equations of the byte-level encoders and decoders\<close>
named_theorems wf_intros \<open>preservation of the components' invariants\<close>

text \<open>
  Go's \<open>int\<close> has 64 bits on the platforms the program is built for. It is modelled by
  \<^typ>\<open>int\<close> together with the range it can hold; \<open>wrap64\<close> is what an arithmetic
  operation leaves of a mathematical result.
\<close>

definition int64_min :: int where "int64_min = - (2 ^ 63)"
definition int64_max :: int where "int64_max = 2 ^ 63 - 1"

definition in_int64 :: "int \<Rightarrow> bool" where
  "in_int64 n \<longleftrightarrow> int64_min \<le> n \<and> n \<le> int64_max"

definition wrap64 :: "int \<Rightarrow> int" where
  "wrap64 n = (n + 2 ^ 63) mod 2 ^ 64 - 2 ^ 63"

lemma wrap64_in_range: "in_int64 (wrap64 n)"
  unfolding in_int64_def wrap64_def int64_min_def int64_max_def
  using pos_mod_bound [of "2 ^ 64" "n + 2 ^ 63"] pos_mod_sign [of "2 ^ 64" "n + 2 ^ 63"] by auto

lemma wrap64_id: "in_int64 n \<Longrightarrow> wrap64 n = n"
  by (simp add: in_int64_def wrap64_def int64_min_def int64_max_def mod_pos_pos_trivial)

text \<open>Go's integer division and remainder truncate towards zero.\<close>

definition go_div :: "int \<Rightarrow> int \<Rightarrow> int" where
  "go_div a b = sgn a * sgn b * (\<bar>a\<bar> div \<bar>b\<bar>)"

definition go_mod :: "int \<Rightarrow> int \<Rightarrow> int" where
  "go_mod a b = a - b * go_div a b"

lemma go_div_nonneg [simp]: "0 \<le> a \<Longrightarrow> 0 < b \<Longrightarrow> go_div a b = a div b"
  by (cases "a = 0") (simp_all add: go_div_def)

lemma go_mod_nonneg [simp]: "0 \<le> a \<Longrightarrow> 0 < b \<Longrightarrow> go_mod a b = a mod b"
  by (simp add: go_mod_def minus_mult_div_eq_mod)

section \<open>Big-endian integers\<close>

text \<open>\<open>binary.BigEndian.PutUint16/32/64\<close> and \<open>binary.BigEndian.Uint16/32/64\<close>.\<close>

definition be16 :: "u16 \<Rightarrow> bytes" where
  "be16 v = [ucast (drop_bit 8 v), ucast v]"

definition be32 :: "u32 \<Rightarrow> bytes" where
  "be32 v = [ucast (drop_bit 24 v), ucast (drop_bit 16 v), ucast (drop_bit 8 v), ucast v]"

definition be64 :: "u64 \<Rightarrow> bytes" where
  "be64 v = [ucast (drop_bit 56 v), ucast (drop_bit 48 v), ucast (drop_bit 40 v),
    ucast (drop_bit 32 v), ucast (drop_bit 24 v), ucast (drop_bit 16 v),
    ucast (drop_bit 8 v), ucast v]"

text \<open>The readers panic on a slice that is too short, which is \<^const>\<open>None\<close> here.\<close>

fun get16 :: "bytes \<Rightarrow> u16 option" where
  "get16 (a # b # _) = Some (push_bit 8 (ucast a) OR ucast b)"
| "get16 _ = None"

fun get32 :: "bytes \<Rightarrow> u32 option" where
  "get32 (a # b # c # d # _) =
     Some (push_bit 24 (ucast a) OR push_bit 16 (ucast b) OR push_bit 8 (ucast c) OR ucast d)"
| "get32 _ = None"

fun get64 :: "bytes \<Rightarrow> u64 option" where
  "get64 (a # b # c # d # e # f # g # h # _) =
     Some (push_bit 56 (ucast a) OR push_bit 48 (ucast b) OR push_bit 40 (ucast c)
       OR push_bit 32 (ucast d) OR push_bit 24 (ucast e) OR push_bit 16 (ucast f)
       OR push_bit 8 (ucast g) OR ucast h)"
| "get64 _ = None"

lemma length_be [simp]: "length (be16 v) = 2" "length (be32 w) = 4" "length (be64 x) = 8"
  by (simp_all add: be16_def be32_def be64_def)

text \<open>The byte of \<open>v\<close> that starts at bit \<open>k\<close>, put back at its place.\<close>

lemma bit_byte_at:
  fixes v :: "'a::len word"
  shows "bit (push_bit k (ucast (ucast (drop_bit k v) :: byte)) :: 'a word) n
    \<longleftrightarrow> k \<le> n \<and> n < k + 8 \<and> n < LENGTH('a) \<and> bit v n"
  by (auto simp: bit_simps)

lemma bit_byte_low:
  fixes v :: "'a::len word"
  shows "bit (ucast (ucast v :: byte) :: 'a word) n \<longleftrightarrow> n < 8 \<and> n < LENGTH('a) \<and> bit v n"
  by (auto simp: bit_simps)

lemma get16_be16 [simp]: "get16 (be16 v @ r) = Some v"
proof -
  have "(push_bit 8 (ucast (ucast (drop_bit 8 v) :: byte)) OR ucast (ucast v :: byte)) = v"
    by (rule bit_word_eqI) (auto simp only: bit_or_iff bit_byte_at bit_byte_low len_of_numeral_defs; simp; linarith)
  then show ?thesis by (simp add: be16_def)
qed

lemma get32_be32 [simp]: "get32 (be32 v @ r) = Some v"
proof -
  let ?b = "\<lambda>k. push_bit k (ucast (ucast (drop_bit k v) :: byte)) :: u32"
  have "(?b 24 OR ?b 16 OR ?b 8 OR ucast (ucast v :: byte)) = v" (is "?l = v")
  proof (rule bit_word_eqI)
    fix n assume "n < LENGTH(32)"
    then show "bit ?l n \<longleftrightarrow> bit v n"
      by (cases "bit v n") (simp_all only: bit_or_iff bit_byte_at bit_byte_low, simp_all, linarith)
  qed
  then show ?thesis by (simp add: be32_def)
qed

lemma get64_be64 [simp]: "get64 (be64 v @ r) = Some v"
proof -
  let ?b = "\<lambda>k. push_bit k (ucast (ucast (drop_bit k v) :: byte)) :: u64"
  have "(?b 56 OR ?b 48 OR ?b 40 OR ?b 32 OR ?b 24 OR ?b 16 OR ?b 8
      OR ucast (ucast v :: byte)) = v" (is "?l = v")
  proof (rule bit_word_eqI)
    fix n assume "n < LENGTH(64)"
    then show "bit ?l n \<longleftrightarrow> bit v n"
      by (cases "bit v n") (simp_all only: bit_or_iff bit_byte_at bit_byte_low, simp_all, linarith)
  qed
  then show ?thesis by (simp add: be64_def)
qed

section \<open>Bytes of text\<close>

text \<open>A Go string literal is the sequence of its (ASCII) bytes.\<close>

definition ascii :: "string \<Rightarrow> bytes" where
  "ascii s = map of_char s"

lemma of_char_byte_inj [simp]: "(of_char c :: byte) = of_char d \<longleftrightarrow> c = d"
proof
  assume "(of_char c :: byte) = of_char d"
  then have "(of_nat (of_char c) :: byte) = of_nat (of_char d)" by (simp only: of_nat_of_char)
  then have "unat (of_nat (of_char c) :: byte) = unat (of_nat (of_char d) :: byte)" by (rule arg_cong)
  then have "(of_char c mod 256 :: nat) = of_char d mod 256"
    unfolding unat_of_nat by simp
  then show "c = d" by simp
qed simp

lemma ascii_inj [simp]: "ascii s = ascii t \<longleftrightarrow> s = t"
  by (simp add: ascii_def inj_map_eq_map inj_def)

lemma length_ascii [simp]: "length (ascii s) = length s"
  by (simp add: ascii_def)

lemma map_id_iff: "map f xs = xs \<longleftrightarrow> (\<forall>x \<in> set xs. f x = x)"
  by (induction xs) auto

section \<open>Go maps as sorted association lists\<close>

text \<open>
  A Go map has no order of its own. Where the code needs its length, iterates over it or
  compares it, it is modelled by the one association list of its entries that is sorted by
  key, so that equal maps are equal lists; \<^const>\<open>map_of\<close> looks a key up.
\<close>

type_synonym ('k, 'v) dict = "('k \<times> 'v) list"

definition sorted_dict :: "('k::linorder, 'v) dict \<Rightarrow> bool" where
  "sorted_dict d \<longleftrightarrow> sorted_wrt (<) (map fst d)"

fun dict_put :: "'k::linorder \<Rightarrow> 'v \<Rightarrow> ('k, 'v) dict \<Rightarrow> ('k, 'v) dict" where
  "dict_put k v [] = [(k, v)]"
| "dict_put k v ((k', v') # d) =
     (if k < k' then (k, v) # (k', v') # d
      else if k = k' then (k, v) # d
      else (k', v') # dict_put k v d)"

definition dict_del :: "'k \<Rightarrow> ('k, 'v) dict \<Rightarrow> ('k, 'v) dict" where
  "dict_del k d = filter (\<lambda>e. fst e \<noteq> k) d"

lemma sorted_dict_Nil [simp, intro]: "sorted_dict []"
  by (simp add: sorted_dict_def)

lemma sorted_dict_Cons:
  "sorted_dict ((k, v) # d) \<longleftrightarrow> (\<forall>k' \<in> fst ` set d. k < k') \<and> sorted_dict d"
  by (simp add: sorted_dict_def)

lemma map_of_dict_put [simp]: "map_of (dict_put k v d) = (map_of d)(k \<mapsto> v)"
  by (induction k v d rule: dict_put.induct) (auto simp: fun_eq_iff)

lemma list_all_dict_put: "P (k, v) \<Longrightarrow> list_all P d \<Longrightarrow> list_all P (dict_put k v d)"
  by (induction k v d rule: dict_put.induct) auto

lemma keys_dict_put: "fst ` set (dict_put k v d) = insert k (fst ` set d)"
  by (metis dom_fun_upd dom_map_of_conv_image_fst map_of_dict_put option.distinct(1))

lemma sorted_dict_put [intro]: "sorted_dict d \<Longrightarrow> sorted_dict (dict_put k v d)"
  by (induction k v d rule: dict_put.induct)
    (auto simp: sorted_dict_Cons keys_dict_put)

lemma sorted_dict_distinct: "sorted_dict d \<Longrightarrow> distinct (map fst d)"
  by (simp add: sorted_dict_def strict_sorted_iff)

lemma map_of_dict_del [simp]: "map_of (dict_del k d) = (map_of d)(k := None)"
  by (induction d) (auto simp: dict_del_def fun_eq_iff)

lemma sorted_dict_filter [intro]: "sorted_dict d \<Longrightarrow> sorted_dict (filter P d)"
  by (induction d) (auto simp: sorted_dict_Cons)

lemma sorted_dict_del [intro]: "sorted_dict d \<Longrightarrow> sorted_dict (dict_del k d)"
  by (auto simp: dict_del_def)

lemma map_of_dict_head:
  "sorted_dict ((k, v) # d) \<Longrightarrow> sorted_dict ((k', v') # e)
    \<Longrightarrow> map_of ((k, v) # d) = map_of ((k', v') # e) \<Longrightarrow> k \<le> k'"
proof -
  assume s: "sorted_dict ((k, v) # d)" and eq: "map_of ((k, v) # d) = map_of ((k', v') # e)"
  have "map_of ((k, v) # d) k' = Some v'" unfolding eq by simp
  then have "k' = k \<or> k' \<in> fst ` set d" by (force split: if_splits dest: map_of_SomeD)
  then show "k \<le> k'" using s by (auto simp: sorted_dict_Cons)
qed

lemma map_of_fresh: "sorted_dict ((k, v) # d) \<Longrightarrow> map_of d k = None"
  by (auto simp: sorted_dict_Cons map_of_eq_None_iff)

lemma dict_ext: "sorted_dict d \<Longrightarrow> sorted_dict e \<Longrightarrow> map_of d = map_of e \<Longrightarrow> d = e"
proof (induction d arbitrary: e)
  case Nil
  from Nil.prems(3) have "map_of e = Map.empty" by simp
  then show ?case by (simp add: map_of_eq_empty_iff)
next
  case (Cons x d)
  obtain k v where x: "x = (k, v)" by (cases x)
  have "map_of e k = Some v" unfolding Cons.prems(3) [symmetric] x by simp
  then obtain k' v' e' where e: "e = (k', v') # e'"
    by (cases e) auto
  have k: "k = k'"
    using map_of_dict_head [OF Cons.prems [unfolded x e]]
      map_of_dict_head [OF Cons.prems(2,1) [unfolded x e] Cons.prems(3) [unfolded x e, symmetric]]
    by simp
  have v: "v = v'"
    using fun_cong [OF Cons.prems(3), of k] by (simp add: x e k)
  have "map_of d = map_of e'"
  proof
    fix j
    show "map_of d j = map_of e' j"
    proof (cases "j = k")
      case True
      with Cons.prems k show ?thesis unfolding x e by (simp add: map_of_fresh)
    next
      case False
      with fun_cong [OF Cons.prems(3), of j] show ?thesis by (simp add: x e k)
    qed
  qed
  with Cons.IH [of e'] Cons.prems have "d = e'" by (simp add: x e sorted_dict_Cons)
  with x e k v show ?case by simp
qed

lemma sorted_dict_append_last:
  "sorted_dict (d @ [(k, v)]) \<Longrightarrow> dict_put k w d = d @ [(k, w)]"
proof (induction d)
  case Nil
  then show ?case by simp
next
  case (Cons e d)
  obtain k' v' where [simp]: "e = (k', v')" by (cases e)
  from Cons.prems have "k' < k" and "sorted_dict (d @ [(k, v)])"
    by (auto simp: sorted_dict_Cons)
  then show ?case using Cons.IH by auto
qed

section \<open>Fixed-width record codecs\<close>

text \<open>
  Several parts of the program write a list of records one after the other, each in
  \<open>w\<close> bytes, and read it back by slicing at \<open>i * w\<close>: compact peers (6 bytes),
  compact DHT nodes (26 bytes), piece hashes and info hashes (20 bytes). The contract of
  one record is this interface; what follows for lists of records is proved once here.
\<close>

locale fixed_codec =
  fixes enc :: "'a \<Rightarrow> bytes"
    and dec :: "bytes \<Rightarrow> 'b"
    and inj :: "'a \<Rightarrow> 'b"
    and valid :: "'a \<Rightarrow> bool"
    and w :: nat
  assumes w_pos: "0 < w"
    and length_enc: "valid x \<Longrightarrow> length (enc x) = w"
    and dec_enc: "valid x \<Longrightarrow> dec (enc x) = inj x"
begin

lemma length_encs:
  "list_all valid xs \<Longrightarrow> length (concat (map enc xs)) = length xs * w"
  by (induction xs) (auto simp: length_enc)

lemma chunk_encs:
  "list_all valid xs \<Longrightarrow> i < length xs
    \<Longrightarrow> take w (drop (i * w) (concat (map enc xs) @ r)) = enc (xs ! i)"
proof (induction xs arbitrary: i)
  case Nil
  then show ?case by simp
next
  case (Cons x xs)
  then show ?case
    by (cases i) (auto simp: length_enc)
qed

lemma count_encs: "list_all valid xs \<Longrightarrow> length (concat (map enc xs)) div w = length xs"
  using w_pos by (simp add: length_encs)

lemma dec_encs:
  "list_all valid xs \<Longrightarrow>
    map (\<lambda>i. dec (take w (drop (i * w) (concat (map enc xs) @ r)))) [0..<length xs]
      = map inj xs"
  by (rule nth_equalityI) (auto simp: chunk_encs dec_enc list_all_length simp del: take_append drop_append)

end

end
