(* ===== verification/GoLib.thy ===== *)
theory GoLib
  imports Prelude
begin

text \<open>
  The parts of the Go standard library whose results the program inspects:
  decimal conversion (\<open>strconv.Itoa\<close>, \<open>strconv.Atoi\<close>), \<open>unicode.IsDigit\<close> on one
  byte, \<open>utf8.Valid\<close> and \<open>encoding/hex\<close>. They are written out, not assumed.
\<close>

section \<open>Decimal conversion\<close>

definition is_digit :: "byte \<Rightarrow> bool" where
  "is_digit b \<longleftrightarrow> 0x30 \<le> b \<and> b \<le> 0x39"

definition digit_byte :: "nat \<Rightarrow> byte" where
  "digit_byte d = word_of_nat (48 + d)"

fun itoa_nat :: "nat \<Rightarrow> bytes" where
  "itoa_nat n = (if n < 10 then [digit_byte n] else itoa_nat (n div 10) @ [digit_byte (n mod 10)])"

declare itoa_nat.simps [simp del]

definition itoa :: "int \<Rightarrow> bytes" where
  "itoa n = (if n < 0 then 0x2D # itoa_nat (nat (- n)) else itoa_nat (nat n))"

datatype num_error = ErrSyntax | ErrRange

text \<open>
  \<open>strconv.ParseUint\<close> in base 10: a byte that is no digit is a syntax error, a prefix whose
  value no longer fits 64 bits is a range error at once.
\<close>

fun parse_uint :: "nat \<Rightarrow> bytes \<Rightarrow> num_error + nat" where
  "parse_uint n [] = Inr n"
| "parse_uint n (c # cs) =
     (if is_digit c then
        (let n1 = 10 * n + (unat c - 48)
         in if n1 \<ge> 2 ^ 64 then Inl ErrRange else parse_uint n1 cs)
      else Inl ErrSyntax)"

definition atoi :: "bytes \<Rightarrow> num_error + int" where
  "atoi s =
     (let neg = (s \<noteq> [] \<and> hd s = 0x2D);
          ds = (if s \<noteq> [] \<and> (hd s = 0x2D \<or> hd s = 0x2B) then tl s else s)
      in if ds = [] then Inl ErrSyntax
         else case parse_uint 0 ds of
           Inl e \<Rightarrow> Inl e
         | Inr n \<Rightarrow>
             if \<not> neg \<and> n \<ge> 2 ^ 63 then Inl ErrRange
             else if neg \<and> n > 2 ^ 63 then Inl ErrRange
             else Inr (if neg then - int n else int n))"

lemma unat_digit_byte: "d < 10 \<Longrightarrow> unat (digit_byte d) = 48 + d"
  unfolding digit_byte_def unat_of_nat by simp

lemma is_digit_iff: "is_digit b \<longleftrightarrow> 48 \<le> unat b \<and> unat b \<le> 57"
  by (simp add: is_digit_def word_le_nat_alt)

lemma is_digit_digit_byte: "d < 10 \<Longrightarrow> is_digit (digit_byte d)"
  by (simp add: is_digit_iff unat_digit_byte)

lemma itoa_nat_nonempty [simp]: "itoa_nat n \<noteq> []"
  by (subst itoa_nat.simps) simp

lemma itoa_nat_digits: "list_all is_digit (itoa_nat n)"
proof (induction n rule: itoa_nat.induct)
  case (1 n)
  then show ?case
    by (subst itoa_nat.simps) (auto simp: is_digit_digit_byte)
qed

lemma parse_uint_append:
  "parse_uint n xs = Inr m \<Longrightarrow> parse_uint n (xs @ ys) = parse_uint m ys"
  by (induction n xs rule: parse_uint.induct) (auto simp: Let_def split: if_splits)

lemma parse_uint_itoa_nat: "n < 2 ^ 64 \<Longrightarrow> parse_uint 0 (itoa_nat n) = Inr n"
proof (induction n rule: itoa_nat.induct)
  case (1 n)
  show ?case
  proof (cases "n < 10")
    case True
    then show ?thesis
      by (subst itoa_nat.simps) (simp add: is_digit_digit_byte unat_digit_byte)
  next
    case False
    with 1 have "parse_uint 0 (itoa_nat (n div 10)) = Inr (n div 10)" by simp
    moreover have "10 * (n div 10) + n mod 10 = n" by simp
    ultimately show ?thesis using False 1(2)
      by (subst itoa_nat.simps)
        (simp add: parse_uint_append is_digit_digit_byte unat_digit_byte)
  qed
qed

lemma hd_itoa_nat: "is_digit (hd (itoa_nat n))"
  using itoa_nat_digits [of n] by (cases "itoa_nat n") auto

lemma not_digit [simp]: "\<not> is_digit 0x2D" "\<not> is_digit 0x2B" "\<not> is_digit 0x3A" "\<not> is_digit 0x65"
    "\<not> is_digit 0x69" "\<not> is_digit 0x6C" "\<not> is_digit 0x64"
  by (simp_all add: is_digit_def)

lemma hd_itoa_nat_pos: "0 < n \<Longrightarrow> hd (itoa_nat n) \<noteq> 0x30"
proof (induction n rule: itoa_nat.induct)
  case (1 n)
  show ?case
  proof (cases "n < 10")
    case True
    then have "unat (digit_byte n) \<noteq> unat (0x30 :: byte)"
      using 1(2) by (simp add: unat_digit_byte)
    then have "digit_byte n \<noteq> 0x30" by auto
    with True show ?thesis by (subst itoa_nat.simps) simp
  next
    case False
    with 1 show ?thesis by (subst itoa_nat.simps) (simp add: hd_append)
  qed
qed

lemma itoa_shape:
  "itoa n \<noteq> []" "itoa n \<noteq> [0x2D, 0x30]" "Suc 0 < length (itoa n) \<Longrightarrow> itoa n ! 0 \<noteq> 0x30"
proof -
  show "itoa n \<noteq> []" by (simp add: itoa_def)
  show "itoa n \<noteq> [0x2D, 0x30]"
  proof (cases "n < 0")
    case True
    then have "hd (itoa_nat (nat (- n))) \<noteq> 0x30" by (intro hd_itoa_nat_pos) simp
    with True show ?thesis by (auto simp: itoa_def)
  next
    case False
    have "hd (itoa_nat (nat n)) \<noteq> 0x2D" using hd_itoa_nat [of "nat n"] by (auto simp: is_digit_def)
    with False show ?thesis by (auto simp: itoa_def)
  qed
  show "itoa n ! 0 \<noteq> 0x30" if "Suc 0 < length (itoa n)"
  proof (cases "n \<le> 0")
    case True
    with that show ?thesis by (cases "n = 0") (auto simp: itoa_def itoa_nat.simps [of 0])
  next
    case False
    then show ?thesis
      using hd_itoa_nat_pos [of "nat n"] by (simp add: itoa_def hd_conv_nth)
  qed
qed

theorem atoi_itoa: "in_int64 n \<Longrightarrow> atoi (itoa n) = Inr n"
proof -
  assume n: "in_int64 n"
  show ?thesis
  proof (cases "n < 0")
    case True
    with n have "nat (- n) < 2 ^ 64" and "nat (- n) \<le> 2 ^ 63"
      by (auto simp: in_int64_def int64_min_def)
    with True show ?thesis
      by (simp add: atoi_def itoa_def parse_uint_itoa_nat)
  next
    case False
    with n have *: "nat n < 2 ^ 64" "nat n < 2 ^ 63"
      by (auto simp: in_int64_def int64_max_def)
    from hd_itoa_nat [of "nat n"] have "hd (itoa_nat (nat n)) \<noteq> 0x2D" "hd (itoa_nat (nat n)) \<noteq> 0x2B"
      by auto
    with False * show ?thesis
      by (simp add: atoi_def itoa_def parse_uint_itoa_nat)
  qed
qed

lemma itoa_no_byte: "\<not> is_digit c \<Longrightarrow> c \<noteq> 0x2D \<Longrightarrow> c \<notin> set (itoa n)"
  using itoa_nat_digits [of "nat n"] itoa_nat_digits [of "nat (- n)"]
  by (auto simp: itoa_def list_all_iff)

lemma atoi_in_range: "atoi s = Inr n \<Longrightarrow> in_int64 n"
  by (auto simp: atoi_def Let_def in_int64_def int64_min_def int64_max_def
      split: sum.splits if_splits)

section \<open>UTF-8\<close>

text \<open>
  \<open>utf8.Valid\<close>: the length of the sequence a first byte starts and the range its second
  byte may take (no overlong forms, no surrogates, nothing above U+10FFFF); every further
  byte is a continuation byte.
\<close>

definition utf8_lead :: "byte \<Rightarrow> (nat \<times> byte \<times> byte) option" where
  "utf8_lead b =
     (if 0xC2 \<le> b \<and> b \<le> 0xDF then Some (1, 0x80, 0xBF)
      else if b = 0xE0 then Some (2, 0xA0, 0xBF)
      else if 0xE1 \<le> b \<and> b \<le> 0xEC then Some (2, 0x80, 0xBF)
      else if b = 0xED then Some (2, 0x80, 0x9F)
      else if 0xEE \<le> b \<and> b \<le> 0xEF then Some (2, 0x80, 0xBF)
      else if b = 0xF0 then Some (3, 0x90, 0xBF)
      else if 0xF1 \<le> b \<and> b \<le> 0xF3 then Some (3, 0x80, 0xBF)
      else if b = 0xF4 then Some (3, 0x80, 0x8F)
      else None)"

definition utf8_cont :: "byte \<Rightarrow> bool" where
  "utf8_cont b \<longleftrightarrow> 0x80 \<le> b \<and> b \<le> 0xBF"

function utf8_valid :: "bytes \<Rightarrow> bool" where
  "utf8_valid [] = True"
| "utf8_valid (b # bs) =
     (if b < 0x80 then utf8_valid bs
      else case utf8_lead b of
        None \<Rightarrow> False
      | Some (k, lo, hi) \<Rightarrow>
          k \<le> length bs \<and> lo \<le> bs ! 0 \<and> bs ! 0 \<le> hi
            \<and> list_all utf8_cont (drop 1 (take k bs)) \<and> utf8_valid (drop k bs))"
  by pat_completeness auto
termination
  by (relation "measure length") auto

lemma utf8_valid_ascii: "list_all (\<lambda>b. b < 0x80) s \<Longrightarrow> utf8_valid s"
  by (induction s) auto

end
