(* ===== verification/Bencode.thy ===== *)
theory Bencode
  imports GoLib
begin

text \<open>
  Package \<open>internal/bencode\<close>: the recursive decoder (\<open>decode.go\<close>) over an input slice
  and an index into it, and the encoder (\<open>encode.go\<close>). Every error branch of the decoder
  is a value that carries the position, the reason and the context the Go error carries.
\<close>

section \<open>Values and errors\<close>

text \<open>
  The dynamic types an \<open>interface{}\<close> holds here: \<open>string\<close>, \<open>[]byte\<close>, \<open>int\<close>,
  \<open>[]interface{}\<close>, \<open>map[string]interface{}\<close>, and any type the encoder does not
  support. A map is its key-sorted association list.
\<close>

datatype bval =
    BString bytes
  | BBytes bytes
  | BInt int
  | BList "bval list"
  | BDict "(bytes \<times> bval) list"
  | BOther

datatype dec_error = DecodeError (position: nat) (reason: dec_reason) (err_context: bytes)
and dec_reason =
    NestingExceeded
  | UnexpectedEnd
  | InvalidIdentifier byte
  | StringMissingColon
  | AtoiError num_error bytes
  | NegativeLength int
  | LengthExceedsData int
  | IntMissingTerminator
  | EmptyInteger
  | LeadingZero bytes
  | NegativeZero
  | ListMissingTerminator
  | DictMissingTerminator
  | Inner dec_error

datatype enc_error = EncodeError

text \<open>The bytes the format gives a meaning to.\<close>

abbreviation c_colon :: byte where "c_colon \<equiv> 0x3A"
abbreviation c_minus :: byte where "c_minus \<equiv> 0x2D"
abbreviation c_zero :: byte where "c_zero \<equiv> 0x30"
abbreviation c_i :: byte where "c_i \<equiv> 0x69"
abbreviation c_l :: byte where "c_l \<equiv> 0x6C"
abbreviation c_d :: byte where "c_d \<equiv> 0x64"
abbreviation c_e :: byte where "c_e \<equiv> 0x65"

section \<open>Decoder\<close>

definition maxDecodeDepth :: nat where "maxDecodeDepth = 512"

text \<open>The \<open>Context\<close> of an error: up to twenty bytes from the index on.\<close>

definition ctx :: "bytes \<Rightarrow> nat \<Rightarrow> bytes" where
  "ctx bs i = take (min (i + 20) (length bs) - i) (drop i bs)"

text \<open>The scan loops: the first index from \<open>i\<close> on that holds the byte \<open>c\<close>.\<close>

fun find_off :: "byte \<Rightarrow> bytes \<Rightarrow> nat option" where
  "find_off c [] = None"
| "find_off c (b # bs) = (if b = c then Some 0 else map_option Suc (find_off c bs))"

definition find_from :: "byte \<Rightarrow> bytes \<Rightarrow> nat \<Rightarrow> nat option" where
  "find_from c bs i = map_option ((+) i) (find_off c (drop i bs))"

definition decodeString :: "bytes \<Rightarrow> nat \<Rightarrow> (dec_error \<times> nat) + (bytes \<times> nat)" where
  "decodeString bs index =
     (case find_from c_colon bs index of
        None \<Rightarrow> Inl (DecodeError index StringMissingColon (ctx bs index), index)
      | Some firstColonIndex \<Rightarrow>
          (let lengthStr = take (firstColonIndex - index) (drop index bs)
           in case atoi lengthStr of
                Inl e \<Rightarrow> Inl (DecodeError index (AtoiError e lengthStr) (ctx bs index), index)
              | Inr len \<Rightarrow>
                  if len < 0 then
                    Inl (DecodeError index (NegativeLength len) (ctx bs index), index)
                  else if len > int (length bs) then
                    Inl (DecodeError index (LengthExceedsData len) (ctx bs index), index)
                  else
                    (let endIndex = firstColonIndex + 1 + nat len
                     in if endIndex > length bs then
                          Inl (DecodeError index (LengthExceedsData len) (ctx bs index), index)
                        else Inr (take (nat len) (drop (firstColonIndex + 1) bs), endIndex))))"

definition decodeInt :: "bytes \<Rightarrow> nat \<Rightarrow> (dec_error \<times> nat) + (int \<times> nat)" where
  "decodeInt bs index =
     (case find_from c_e bs index of
        None \<Rightarrow> Inl (DecodeError index IntMissingTerminator (ctx bs index), index)
      | Some i \<Rightarrow>
          (let numStr = take (i - (index + 1)) (drop (index + 1) bs)
           in if numStr = [] then
                Inl (DecodeError index EmptyInteger (ctx bs index), index)
              else if length numStr > 1 \<and> numStr ! 0 = c_zero then
                Inl (DecodeError index (LeadingZero numStr) (ctx bs index), index)
              else if numStr = [c_minus, c_zero] then
                Inl (DecodeError index NegativeZero (ctx bs index), index)
              else case atoi numStr of
                Inl e \<Rightarrow> Inl (DecodeError index (AtoiError e numStr) (ctx bs index), index)
              | Inr n \<Rightarrow> Inr (n, i + 1)))"

lemma find_off_less: "find_off c bs = Some j \<Longrightarrow> j < length bs \<and> bs ! j = c \<and> c \<notin> set (take j bs)"
  by (induction c bs arbitrary: j rule: find_off.induct) (auto split: if_splits)

lemma find_from_bounds: "find_from c bs i = Some j \<Longrightarrow> i \<le> j \<and> j < length bs \<and> bs ! j = c"
  by (auto simp: find_from_def dest!: find_off_less)

lemma decodeString_progress:
  "decodeString bs i = Inr (s, i') \<Longrightarrow> i < i' \<and> i' \<le> length bs"
  by (auto simp: decodeString_def Let_def split: option.splits sum.splits if_splits
      dest!: find_from_bounds)

lemma decodeInt_progress:
  "decodeInt bs i = Inr (n, i') \<Longrightarrow> i < i' \<and> i' \<le> length bs"
  by (auto simp: decodeInt_def Let_def split: option.splits sum.splits if_splits
      dest!: find_from_bounds)

text \<open>
  The recursion: \<open>decodeAtDepth\<close> dispatches on the identifier; the loops of
  \<open>decodeList\<close> and \<open>decodeDict\<close> carry the index of the container (\<open>index\<close>), the current
  index \<open>i\<close> and what they have decoded so far. The second component of an error is the index
  the Go function returns beside it.
\<close>

function decodeAtDepth :: "bytes \<Rightarrow> nat \<Rightarrow> nat \<Rightarrow> (dec_error \<times> nat) + (bval \<times> nat)"
and decodeList :: "bytes \<Rightarrow> nat \<Rightarrow> nat \<Rightarrow> nat \<Rightarrow> bval list \<Rightarrow> (dec_error \<times> nat) + (bval \<times> nat)"
and decodeDict :: "bytes \<Rightarrow> nat \<Rightarrow> nat \<Rightarrow> nat \<Rightarrow> (bytes \<times> bval) list
    \<Rightarrow> (dec_error \<times> nat) + (bval \<times> nat)"
where
  "decodeAtDepth bs index depth =
     (if depth > maxDecodeDepth then Inl (DecodeError index NestingExceeded [], index)
      else if index \<ge> length bs then Inl (DecodeError index UnexpectedEnd [], index)
      else if is_digit (bs ! index) then
        (case decodeString bs index of
           Inl e \<Rightarrow> Inl e
         | Inr (s, i) \<Rightarrow> Inr (if utf8_valid s then BString s else BBytes s, i))
      else if bs ! index = c_i then
        (case decodeInt bs index of
           Inl e \<Rightarrow> Inl e
         | Inr (n, i) \<Rightarrow> Inr (BInt n, i))
      else if bs ! index = c_l then decodeList bs index depth (index + 1) []
      else if bs ! index = c_d then decodeDict bs index depth (index + 1) []
      else Inl (DecodeError index (InvalidIdentifier (bs ! index)) (ctx bs index), index))"
| "decodeList bs index depth i decodedList =
     (if i \<ge> length bs then
        Inl (DecodeError index ListMissingTerminator (ctx bs index), index)
      else if bs ! i = c_e then Inr (BList decodedList, i + 1)
      else case decodeAtDepth bs i (depth + 1) of
             Inl (e, _) \<Rightarrow> Inl (DecodeError index (Inner e) (ctx bs index), index)
           | Inr (val, i') \<Rightarrow> decodeList bs index depth i' (decodedList @ [val]))"
| "decodeDict bs index depth i decodedDict =
     (if i \<ge> length bs then
        Inl (DecodeError index DictMissingTerminator (ctx bs index), index)
      else if bs ! i = c_e then Inr (BDict decodedDict, i + 1)
      else case decodeString bs i of
             Inl (e, i') \<Rightarrow> Inl (DecodeError i' (Inner e) (ctx bs i'), i')
           | Inr (key, i') \<Rightarrow>
               (case decodeAtDepth bs i' (depth + 1) of
                  Inl (e, i'') \<Rightarrow> Inl (DecodeError i'' (Inner e) (ctx bs i''), i'')
                | Inr (val, i'') \<Rightarrow>
                    decodeDict bs index depth i'' (dict_put key val decodedDict)))"
  by pat_completeness auto

text \<open>
  A successful call moves the index forward: proved on the domain of the recursion first,
  it is what makes both loops terminate.
\<close>

lemma decode_progress_dom:
  "decodeAtDepth_decodeList_decodeDict_dom (Inl (bs, i, d)) \<Longrightarrow>
     decodeAtDepth bs i d = Inr (v, j) \<Longrightarrow> i < j"
  "decodeAtDepth_decodeList_decodeDict_dom (Inr (Inl (bs, x, d, i, acc))) \<Longrightarrow>
     decodeList bs x d i acc = Inr (v, j) \<Longrightarrow> i < j"
  "decodeAtDepth_decodeList_decodeDict_dom (Inr (Inr (bs, x, d, i, m))) \<Longrightarrow>
     decodeDict bs x d i m = Inr (v, j) \<Longrightarrow> i < j"
proof (induction bs i d and bs x d i acc and bs x d i m arbitrary: v j and v j and v j
    rule: decodeAtDepth_decodeList_decodeDict.pinduct)
  case (1 bs index depth)
  from 1(1,4) 1(2,3) show ?case
    by (auto simp: decodeAtDepth.psimps split: if_splits sum.splits
        dest: decodeString_progress decodeInt_progress)
next
  case (2 bs index depth i acc)
  from 2(1,4) 2(2,3) show ?case
    by (auto simp: decodeList.psimps split: if_splits sum.splits) fastforce
next
  case (3 bs index depth i m)
  from 3(1,4) 3(2,3) show ?case
    by (auto simp: decodeDict.psimps split: if_splits sum.splits
        dest!: decodeString_progress) fastforce
qed

termination decodeAtDepth
proof (relation "measure (\<lambda>x. case x of
      Inl (bs, i, d) \<Rightarrow> 2 * (length bs - i)
    | Inr (Inl (bs, x, d, i, acc)) \<Rightarrow> 2 * (length bs - i) + 1
    | Inr (Inr (bs, x, d, i, m)) \<Rightarrow> 2 * (length bs - i) + 1)")
qed (auto dest!: decode_progress_dom(1) decodeString_progress)

declare decodeAtDepth.simps [simp del] decodeList.simps [simp del] decodeDict.simps [simp del]

definition Decode :: "bytes \<Rightarrow> dec_error + bval" where
  "Decode bencoded =
     (case decodeAtDepth bencoded 0 0 of Inl (e, _) \<Rightarrow> Inl e | Inr (result, _) \<Rightarrow> Inr result)"

definition DecodeAt :: "bytes \<Rightarrow> nat \<Rightarrow> (dec_error \<times> nat) + (bval \<times> nat)" where
  "DecodeAt bencoded index = decodeAtDepth bencoded index 0"

section \<open>Encoder\<close>

definition encodeString :: "bytes \<Rightarrow> bytes" where
  "encodeString data = itoa (int (length data)) @ [c_colon] @ data"

definition encodeInt :: "int \<Rightarrow> bytes" where
  "encodeInt n = [c_i] @ itoa n @ [c_e]"

text \<open>Appending the encoded items, stopping at the first error.\<close>

fun join_results :: "(enc_error + bytes) list \<Rightarrow> enc_error + bytes" where
  "join_results [] = Inr []"
| "join_results (Inl e # rs) = Inl e"
| "join_results (Inr b # rs) =
     (case join_results rs of Inl e \<Rightarrow> Inl e | Inr bs \<Rightarrow> Inr (b @ bs))"

definition encode_entry :: "bytes \<times> (enc_error + bytes) \<Rightarrow> enc_error + bytes" where
  "encode_entry e =
     (case snd e of Inl err \<Rightarrow> Inl err | Inr encoded \<Rightarrow> Inr (encodeString (fst e) @ encoded))"

definition encodeList :: "(enc_error + bytes) list \<Rightarrow> enc_error + bytes" where
  "encodeList items =
     (case join_results items of Inl e \<Rightarrow> Inl e | Inr result \<Rightarrow> Inr ([c_l] @ result @ [c_e]))"

definition encodeDict :: "(bytes \<times> (enc_error + bytes)) list \<Rightarrow> enc_error + bytes" where
  "encodeDict dict =
     (case join_results (map encode_entry (sort_key fst dict)) of
        Inl e \<Rightarrow> Inl e
      | Inr result \<Rightarrow> Inr ([c_d] @ result @ [c_e]))"

text \<open>
  \<open>Encode\<close> dispatches on the dynamic type. The items of a container are encoded by the
  recursive call; \<^const>\<open>encodeList\<close> and \<^const>\<open>encodeDict\<close> assemble them, the
  latter in the order of the sorted keys.
\<close>

fun Encode :: "bval \<Rightarrow> enc_error + bytes" where
  "Encode (BString v) = Inr (encodeString v)"
| "Encode (BBytes v) = Inr (encodeString v)"
| "Encode (BInt v) = Inr (encodeInt v)"
| "Encode (BList v) = encodeList (map Encode v)"
| "Encode (BDict v) = encodeDict (map (\<lambda>e. (fst e, Encode (snd e))) v)"
| "Encode BOther = Inl EncodeError"

section \<open>Well-formed values\<close>

text \<open>
  What a Go value of these types always satisfies (lengths and integers fit 64 bits, a map
  has one entry per key), its nesting height, and the form in which the decoder returns it:
  a byte string comes back as a \<open>string\<close> exactly when it is valid UTF-8.
\<close>

fun wf_bval :: "bval \<Rightarrow> bool" where
  "wf_bval (BString s) = in_int64 (int (length s))"
| "wf_bval (BBytes s) = in_int64 (int (length s))"
| "wf_bval (BInt n) = in_int64 n"
| "wf_bval (BList vs) = list_all wf_bval vs"
| "wf_bval (BDict d) =
     (sorted_dict d \<and> list_all (\<lambda>e. in_int64 (int (length (fst e))) \<and> wf_bval (snd e)) d)"
| "wf_bval BOther = False"

fun height :: "bval \<Rightarrow> nat" where
  "height (BList vs) = fold max (map (\<lambda>v. Suc (height v)) vs) 0"
| "height (BDict d) = fold max (map (\<lambda>e. Suc (height (snd e))) d) 0"
| "height _ = 0"

fun norm :: "bval \<Rightarrow> bval" where
  "norm (BString s) = (if utf8_valid s then BString s else BBytes s)"
| "norm (BBytes s) = (if utf8_valid s then BString s else BBytes s)"
| "norm (BList vs) = BList (map norm vs)"
| "norm (BDict d) = BDict (map (\<lambda>e. (fst e, norm (snd e))) d)"
| "norm v = v"

lemma fold_max_le:
  "d + fold max xs a \<le> (n::nat) \<longleftrightarrow> d + a \<le> n \<and> (\<forall>x \<in> set xs. d + x \<le> n)"
  by (induction xs arbitrary: a) auto

lemma height_BList_le:
  "d + height (BList vs) \<le> n \<longleftrightarrow> d \<le> n \<and> (\<forall>v \<in> set vs. Suc d + height v \<le> n)"
  by (simp add: fold_max_le)

lemma height_BDict_le:
  "d + height (BDict m) \<le> n \<longleftrightarrow> d \<le> n \<and> (\<forall>e \<in> set m. Suc d + height (snd e) \<le> n)"
  by (simp add: fold_max_le)

lemma sort_key_sorted_dict: "sorted_dict d \<Longrightarrow> sort_key fst d = d"
  by (simp add: sorted_dict_def strict_sorted_imp_sorted sort_key_id_if_sorted)

lemma Encode_total: "wf_bval v \<Longrightarrow> \<exists>b. Encode v = Inr b"
proof (induction v)
  case (BList vs)
  then have "\<exists>b. join_results (map Encode vs) = Inr b"
    by (induction vs) (fastforce split: sum.splits)+
  then show ?case by (auto simp: encodeList_def)
next
  case (BDict d)
  then have "list_all (\<lambda>e. \<exists>b. Encode (snd e) = Inr b) d"
    by (fastforce simp: list_all_iff)
  then have "\<exists>b. join_results (map (\<lambda>e. encode_entry (fst e, Encode (snd e))) d) = Inr b"
    by (induction d) (auto simp: encode_entry_def split: sum.splits)
  moreover have "sorted_dict (map (\<lambda>e. (fst e, Encode (snd e))) d)"
    using BDict.prems by (simp add: sorted_dict_def comp_def)
  ultimately show ?case
    by (auto simp: encodeDict_def sort_key_sorted_dict comp_def)
qed auto

section \<open>Reading back what was written\<close>

lemma find_off_append: "c \<notin> set xs \<Longrightarrow> find_off c (xs @ c # ys) = Some (length xs)"
  by (induction xs) auto

lemma find_from_append:
  "c \<notin> set xs \<Longrightarrow> find_from c (pre @ xs @ c # ys) (length pre) = Some (length pre + length xs)"
  by (simp add: find_from_def find_off_append)

lemma decodeString_encodeString:
  assumes "in_int64 (int (length s))"
  shows "decodeString (pre @ encodeString s @ suf) (length pre)
    = Inr (s, length pre + length (encodeString s))"
proof -
  let ?n = "itoa (int (length s))"
  have "find_from c_colon (pre @ ?n @ c_colon # s @ suf) (length pre)
      = Some (length pre + length ?n)"
    by (rule find_from_append) (simp add: itoa_no_byte)
  with assms show ?thesis
    by (simp add: decodeString_def encodeString_def atoi_itoa)
qed

lemma decodeInt_encodeInt:
  assumes "in_int64 n"
  shows "decodeInt (pre @ encodeInt n @ suf) (length pre)
    = Inr (n, length pre + length (encodeInt n))"
proof -
  have "find_from c_e (pre @ (c_i # itoa n) @ c_e # suf) (length pre)
      = Some (length pre + length (c_i # itoa n))"
    by (rule find_from_append) (simp add: itoa_no_byte)
  with assms itoa_shape [of n] show ?thesis
    by (simp add: decodeInt_def encodeInt_def atoi_itoa Let_def)
qed

text \<open>No encoding starts with the terminator \<open>e\<close>, and it starts with the right identifier.\<close>

lemma encodeString_head: "encodeString s \<noteq> []" "is_digit (hd (encodeString s))"
  by (simp_all add: encodeString_def itoa_def hd_append hd_itoa_nat)

lemma encodeString_not_e: "hd (encodeString s) \<noteq> c_e"
  using encodeString_head [of s] not_digit(4) by metis

lemma Encode_head: "Encode v = Inr b \<Longrightarrow> b \<noteq> [] \<and> hd b \<noteq> c_e"
  by (cases v) (auto simp: encodeInt_def encodeList_def encodeDict_def encodeString_head
      encodeString_not_e split: sum.splits)

text \<open>The two loops, given that each item reads back.\<close>

abbreviation reads_back :: "nat \<Rightarrow> bval \<Rightarrow> bool" where
  "reads_back d v \<equiv> \<forall>b pre suf. Encode v = Inr b \<longrightarrow>
     decodeAtDepth (pre @ b @ suf) (length pre) d = Inr (norm v, length pre + length b)"

lemma decodeList_encoded:
  assumes "\<forall>v \<in> set vs. reads_back (Suc d) v" "join_results (map Encode vs) = Inr b"
  shows "decodeList (pre @ b @ c_e # suf) x d (length pre) acc
    = Inr (BList (acc @ map norm vs), length pre + length b + 1)"
  using assms
proof (induction vs arbitrary: b pre acc)
  case Nil
  then show ?case by (simp add: decodeList.simps nth_append)
next
  case (Cons v vs)
  from Cons.prems obtain bv bs where b: "b = bv @ bs" "Encode v = Inr bv"
      "join_results (map Encode vs) = Inr bs"
    by (auto split: sum.splits) (cases "Encode v"; auto split: sum.splits)
  from Encode_head [OF b(2)] obtain c r where bv: "bv = c # r" "c \<noteq> c_e" by (cases bv) auto
  have "decodeAtDepth (pre @ bv @ (bs @ c_e # suf)) (length pre) (Suc d)
      = Inr (norm v, length pre + length bv)"
    using Cons.prems(1) b(2) by (simp del: append_assoc)
  moreover have "decodeList ((pre @ bv) @ bs @ c_e # suf) x d (length (pre @ bv)) (acc @ [norm v])
      = Inr (BList ((acc @ [norm v]) @ map norm vs), length (pre @ bv) + length bs + 1)"
    by (rule Cons.IH) (use Cons.prems(1) b(3) in auto)
  ultimately show ?case
    by (subst decodeList.simps) (simp add: b(1) bv nth_append)
qed

lemma decodeDict_encoded:
  assumes "\<forall>e \<in> set es. reads_back (Suc d) (snd e)"
    and "list_all (\<lambda>e. in_int64 (int (length (fst e)))) es"
    and "sorted_dict (m @ es)"
    and "join_results (map (\<lambda>e. encode_entry (fst e, Encode (snd e))) es) = Inr b"
  shows "decodeDict (pre @ b @ c_e # suf) x d (length pre) (map (\<lambda>e. (fst e, norm (snd e))) m)
    = Inr (BDict (map (\<lambda>e. (fst e, norm (snd e))) (m @ es)), length pre + length b + 1)"
  using assms
proof (induction es arbitrary: b pre m)
  case Nil
  then show ?case by (simp add: decodeDict.simps nth_append)
next
  case (Cons e es)
  obtain k v where e: "e = (k, v)" by (cases e)
  let ?n = "map (\<lambda>e. (fst e, norm (snd e)))"
  from Cons.prems(4) obtain bv bs where b: "b = encodeString k @ bv @ bs" "Encode v = Inr bv"
      "join_results (map (\<lambda>e. encode_entry (fst e, Encode (snd e))) es) = Inr bs"
    by (cases "Encode v") (auto simp: e encode_entry_def split: sum.splits)
  have k: "in_int64 (int (length k))" using Cons.prems(2) by (simp add: e)
  obtain c r where ks: "encodeString k = c # r" and "c \<noteq> c_e"
    using encodeString_head [of k] encodeString_not_e [of k] by (cases "encodeString k") auto
  have str: "decodeString (pre @ encodeString k @ (bv @ bs @ c_e # suf)) (length pre)
      = Inr (k, length pre + length (encodeString k))"
    by (rule decodeString_encodeString [OF k])
  have rb: "reads_back (Suc d) v" using Cons.prems(1) by (simp add: e)
  note rb [rule_format, OF b(2), of "pre @ encodeString k" "bs @ c_e # suf"]
  moreover have "decodeDict ((pre @ encodeString k @ bv) @ bs @ c_e # suf) x d
        (length (pre @ encodeString k @ bv)) (?n (m @ [(k, v)]))
      = Inr (BDict (?n ((m @ [(k, v)]) @ es)), length (pre @ encodeString k @ bv) + length bs + 1)"
    by (rule Cons.IH) (use Cons.prems b(3) in \<open>auto simp: e\<close>)
  moreover have "sorted_dict (?n m @ [(k, norm v)])"
    using Cons.prems(3) by (simp add: e sorted_dict_def comp_def sorted_wrt_append)
  then have "dict_put k (norm v) (?n m) = ?n (m @ [(k, v)])"
    by (simp add: sorted_dict_append_last)
  ultimately show ?case using str
    by (subst decodeDict.simps) (simp add: b(1) ks \<open>c \<noteq> c_e\<close> nth_append e add.assoc)
qed

lemma decodeAtDepth_string:
  assumes "in_int64 (int (length s))" "d \<le> maxDecodeDepth"
  shows "decodeAtDepth (pre @ encodeString s @ suf) (length pre) d
    = Inr (norm (BString s), length pre + length (encodeString s))"
proof -
  obtain c r where s: "encodeString s = c # r" "is_digit c"
    using encodeString_head [of s] by (cases "encodeString s") auto
  show ?thesis
    using decodeString_encodeString [OF assms(1), of pre suf] assms(2) s
    by (subst decodeAtDepth.simps) (simp add: nth_append)
qed

lemma decodeAtDepth_int:
  assumes "in_int64 n" "d \<le> maxDecodeDepth"
  shows "decodeAtDepth (pre @ encodeInt n @ suf) (length pre) d
    = Inr (BInt n, length pre + length (encodeInt n))"
proof -
  obtain r where n: "encodeInt n = c_i # r" by (simp add: encodeInt_def)
  show ?thesis
    using decodeInt_encodeInt [OF assms(1), of pre suf] assms(2)
    by (subst decodeAtDepth.simps) (simp add: n nth_append)
qed

theorem Encode_reads_back:
  "wf_bval v \<Longrightarrow> d + height v \<le> maxDecodeDepth \<Longrightarrow> reads_back d v"
proof (induction v arbitrary: d)
  case (BString s)
  then show ?case by (simp add: decodeAtDepth_string del: norm.simps)
next
  case (BBytes s)
  then show ?case by (simp add: decodeAtDepth_string)
next
  case (BInt n)
  then show ?case by (simp add: decodeAtDepth_int)
next
  case (BList vs)
  have d: "d \<le> maxDecodeDepth"
    using BList.prems unfolding height_BList_le by blast
  have vs: "\<forall>v \<in> set vs. reads_back (Suc d) v"
  proof
    fix v assume v: "v \<in> set vs"
    show "reads_back (Suc d) v"
    proof (rule BList.IH [OF v])
      show "wf_bval v" using BList.prems(1) v by (simp add: list_all_iff)
      show "Suc d + height v \<le> maxDecodeDepth"
        using BList.prems(2) v unfolding height_BList_le by blast
    qed
  qed
  show ?case
  proof (intro allI impI)
    fix b pre suf
    assume "Encode (BList vs) = Inr b"
    then obtain c where b: "b = c_l # c @ [c_e]" "join_results (map Encode vs) = Inr c"
      by (auto simp: encodeList_def split: sum.splits)
    from decodeList_encoded [OF vs b(2), of "pre @ [c_l]" suf "length pre" "[]"]
    show "decodeAtDepth (pre @ b @ suf) (length pre) d
        = Inr (norm (BList vs), length pre + length b)"
      using d by (subst decodeAtDepth.simps) (simp add: b(1) nth_append)
  qed
next
  case (BDict es)
  have d: "d \<le> maxDecodeDepth"
    using BDict.prems unfolding height_BDict_le by blast
  have es: "\<forall>e \<in> set es. reads_back (Suc d) (snd e)"
  proof
    fix e assume e: "e \<in> set es"
    show "reads_back (Suc d) (snd e)"
    proof (rule BDict.IH [OF e])
      show "snd e \<in> Basic_BNFs.snds e" by (cases e) simp
      show "wf_bval (snd e)" using BDict.prems(1) e by (simp add: list_all_iff)
      show "Suc d + height (snd e) \<le> maxDecodeDepth"
        using BDict.prems(2) e unfolding height_BDict_le by blast
    qed
  qed
  show ?case
  proof (intro allI impI)
    fix b pre suf
    assume enc: "Encode (BDict es) = Inr b"
    have "sorted_dict (map (\<lambda>e. (fst e, Encode (snd e))) es)"
      using BDict.prems(1) by (simp add: sorted_dict_def comp_def)
    with enc obtain c where b: "b = c_d # c @ [c_e]"
        "join_results (map (\<lambda>e. encode_entry (fst e, Encode (snd e))) es) = Inr c"
      by (auto simp: encodeDict_def sort_key_sorted_dict comp_def split: sum.splits)
    have "decodeDict ((pre @ [c_d]) @ c @ c_e # suf) (length pre) d (length (pre @ [c_d]))
          (map (\<lambda>e. (fst e, norm (snd e))) [])
        = Inr (BDict (map (\<lambda>e. (fst e, norm (snd e))) ([] @ es)),
            length (pre @ [c_d]) + length c + 1)"
      using es b(2) BDict.prems(1) by (intro decodeDict_encoded) (auto simp: list_all_iff)
    then show "decodeAtDepth (pre @ b @ suf) (length pre) d
        = Inr (norm (BDict es), length pre + length b)"
      using d by (subst decodeAtDepth.simps) (simp add: b(1) nth_append)
  qed
qed auto

section \<open>What the decoder returns\<close>

text \<open>
  A decoded value is well-formed, in the decoder's normal form, and fits under the nesting
  limit at the depth it was found.
\<close>

definition ok_val :: "nat \<Rightarrow> bval \<Rightarrow> bool" where
  "ok_val d v \<longleftrightarrow> wf_bval v \<and> norm v = v \<and> d + height v \<le> maxDecodeDepth"

lemma ok_val_BList: "ok_val d (BList vs) \<longleftrightarrow> d \<le> maxDecodeDepth \<and> list_all (ok_val (Suc d)) vs"
  unfolding ok_val_def height_BList_le by (auto simp: list_all_iff map_id_iff)

lemma ok_val_BDict:
  "ok_val d (BDict m) \<longleftrightarrow> d \<le> maxDecodeDepth \<and> sorted_dict m
     \<and> list_all (\<lambda>e. in_int64 (int (length (fst e))) \<and> ok_val (Suc d) (snd e)) m"
  unfolding ok_val_def height_BDict_le
  by (simp add: list_all_iff map_id_iff prod_eq_iff) blast

lemma ok_val_scalar:
  "ok_val d (norm (BString s)) \<longleftrightarrow> d \<le> maxDecodeDepth \<and> in_int64 (int (length s))"
  "ok_val d (BInt n) \<longleftrightarrow> d \<le> maxDecodeDepth \<and> in_int64 n"
  by (auto simp: ok_val_def)

lemma decodeString_length:
  "decodeString bs i = Inr (s, i') \<Longrightarrow> length s \<le> length bs"
  by (auto simp: decodeString_def Let_def split: option.splits sum.splits if_splits)

lemma decodeInt_in_range: "decodeInt bs i = Inr (n, i') \<Longrightarrow> in_int64 n"
  by (auto simp: decodeInt_def Let_def atoi_in_range split: option.splits sum.splits if_splits)

lemma in_int64_le: "in_int64 (int n) \<Longrightarrow> m \<le> n \<Longrightarrow> in_int64 (int m)"
  by (simp add: in_int64_def int64_min_def)

text \<open>Inversion of one successful call: which branch returned, and from which sub-call.\<close>

lemma decodeAtDepth_Inr_cases:
  assumes "decodeAtDepth bs i d = Inr (v, j)"
  obtains (str) s where "d \<le> maxDecodeDepth" "i < length bs" "is_digit (bs ! i)"
        "decodeString bs i = Inr (s, j)" "v = norm (BString s)"
    | (int) n where "d \<le> maxDecodeDepth" "i < length bs" "\<not> is_digit (bs ! i)" "bs ! i = c_i"
        "decodeInt bs i = Inr (n, j)" "v = BInt n"
    | (list) "d \<le> maxDecodeDepth" "i < length bs" "\<not> is_digit (bs ! i)" "bs ! i = c_l"
        "decodeList bs i d (i + 1) [] = Inr (v, j)"
    | (dict) "d \<le> maxDecodeDepth" "i < length bs" "\<not> is_digit (bs ! i)" "bs ! i = c_d"
        "decodeDict bs i d (i + 1) [] = Inr (v, j)"
  using assms by (subst (asm) decodeAtDepth.simps) (auto split: if_splits sum.splits)

lemma decodeList_Inr_cases:
  assumes "decodeList bs x d i acc = Inr (v, j)"
  obtains (stop) "i < length bs" "bs ! i = c_e" "v = BList acc" "j = i + 1"
    | (item) w i' where "i < length bs" "bs ! i \<noteq> c_e"
        "decodeAtDepth bs i (d + 1) = Inr (w, i')" "decodeList bs x d i' (acc @ [w]) = Inr (v, j)"
  using assms by (subst (asm) decodeList.simps) (auto split: if_splits sum.splits)

lemma decodeDict_Inr_cases:
  assumes "decodeDict bs x d i m = Inr (v, j)"
  obtains (stop) "i < length bs" "bs ! i = c_e" "v = BDict m" "j = i + 1"
    | (entry) k i' w i'' where "i < length bs" "bs ! i \<noteq> c_e" "decodeString bs i = Inr (k, i')"
        "decodeAtDepth bs i' (d + 1) = Inr (w, i'')"
        "decodeDict bs x d i'' (dict_put k w m) = Inr (v, j)"
  using assms by (subst (asm) decodeDict.simps) (auto split: if_splits sum.splits)

lemma decode_ok:
  assumes len: "in_int64 (int (length bs))"
  shows "decodeAtDepth bs i d = Inr (v, j) \<Longrightarrow> ok_val d v \<and> i < j \<and> j \<le> length bs"
    and "decodeList bs x d i acc = Inr (v, j) \<Longrightarrow> ok_val d (BList acc)
      \<Longrightarrow> ok_val d v \<and> i < j \<and> j \<le> length bs"
    and "decodeDict bs x d i m = Inr (v, j) \<Longrightarrow> ok_val d (BDict m)
      \<Longrightarrow> ok_val d v \<and> i < j \<and> j \<le> length bs"
  using len
proof (induction bs i d and bs x d i acc and bs x d i m arbitrary: v j and v j and v j
    rule: decodeAtDepth_decodeList_decodeDict.induct)
  case (1 bs i d)
  from 1(3) show ?case
  proof (cases rule: decodeAtDepth_Inr_cases)
    case (str s)
    then show ?thesis
      using 1(4) decodeString_length [OF str(4)] decodeString_progress [OF str(4)]
      by (auto simp: ok_val_scalar in_int64_le simp del: norm.simps)
  next
    case (int n)
    then show ?thesis
      using decodeInt_in_range [OF int(5)] decodeInt_progress [OF int(5)]
      by (auto simp: ok_val_scalar)
  next
    case list
    then show ?thesis using 1(1) 1(4) by (force simp: ok_val_BList)
  next
    case dict
    then show ?thesis using 1(2) 1(4) by (force simp: ok_val_BDict)
  qed
next
  case (2 bs x d i acc)
  from 2(3) show ?case
  proof (cases rule: decodeList_Inr_cases)
    case stop
    then show ?thesis using 2(4) by simp
  next
    case (item w i')
    with 2(1) [of w i'] 2(5) have w: "ok_val (d + 1) w \<and> i < i'" by simp
    then have "ok_val d (BList (acc @ [w]))" using 2(4) by (simp add: ok_val_BList)
    with 2(2) item w 2(5) show ?thesis by force
  qed
next
  case (3 bs x d i m)
  from 3(3) show ?case
  proof (cases rule: decodeDict_Inr_cases)
    case stop
    then show ?thesis using 3(4) by simp
  next
    case (entry k i' w i'')
    note k = decodeString_length [OF entry(3)] decodeString_progress [OF entry(3)]
    from entry 3(1) 3(5) have w: "ok_val (d + 1) w \<and> i' < i''" by force
    have "ok_val d (BDict (dict_put k w m))"
      using 3(4,5) w k(1) by (auto simp: ok_val_BDict in_int64_le intro!: list_all_dict_put)
    with 3(2) entry w k(2) 3(5) show ?thesis by force
  qed
qed

section \<open>Bytes after the value are not looked at\<close>

lemma find_off_more: "find_off c xs = Some k \<Longrightarrow> find_off c (xs @ ys) = Some k"
  by (induction c xs arbitrary: k rule: find_off.induct) (auto split: if_splits)

lemma find_from_more: "find_from c bs i = Some k \<Longrightarrow> find_from c (bs @ ys) i = Some k"
  by (auto simp: find_from_def intro: find_off_more)

lemma take_drop_more: "j + i \<le> length bs \<Longrightarrow> take j (drop i (bs @ ys)) = take j (drop i bs)"
  by (cases "i \<le> length bs") auto

lemma decodeString_more:
  assumes "decodeString bs i = Inr (s, j)"
  shows "decodeString (bs @ ys) i = Inr (s, j)"
proof -
  from assms obtain c where c: "find_from c_colon bs i = Some c"
    by (auto simp: decodeString_def split: option.splits)
  have "take (c - i) (drop i (bs @ ys)) = take (c - i) (drop i bs)"
    using find_from_bounds [OF c] by (intro take_drop_more) simp
  then show ?thesis
    using assms find_from_bounds [OF c]
    by (auto simp: decodeString_def c find_from_more [OF c] Let_def
        split: sum.splits if_splits simp del: take_append drop_append)
      (auto simp: le_diff_conv2 nat_le_iff)
qed

lemma decodeInt_more:
  assumes "decodeInt bs i = Inr (n, j)"
  shows "decodeInt (bs @ ys) i = Inr (n, j)"
proof -
  from assms obtain c where c: "find_from c_e bs i = Some c"
    by (auto simp: decodeInt_def split: option.splits)
  have "take (c - (i + 1)) (drop (i + 1) (bs @ ys)) = take (c - (i + 1)) (drop (i + 1) bs)"
    using find_from_bounds [OF c] by (cases "i < c") (simp_all add: take_drop_more)
  then show ?thesis
    using assms
    by (auto simp: decodeInt_def c find_from_more [OF c] Let_def
        split: sum.splits if_splits simp del: take_append drop_append)
qed

lemma decode_more:
  "decodeAtDepth bs i d = Inr (v, j) \<Longrightarrow> decodeAtDepth (bs @ ys) i d = Inr (v, j)"
  "decodeList bs x d i acc = Inr (v, j) \<Longrightarrow> decodeList (bs @ ys) x d i acc = Inr (v, j)"
  "decodeDict bs x d i m = Inr (v, j) \<Longrightarrow> decodeDict (bs @ ys) x d i m = Inr (v, j)"
proof (induction bs i d and bs x d i acc and bs x d i m arbitrary: v j and v j and v j
    rule: decodeAtDepth_decodeList_decodeDict.induct)
  case (1 bs i d)
  from 1(3) show ?case
  proof (cases rule: decodeAtDepth_Inr_cases)
    case (str s)
    then show ?thesis using decodeString_more [OF str(4)]
      by (subst decodeAtDepth.simps) (simp add: nth_append)
  next
    case (int n)
    then show ?thesis using decodeInt_more [OF int(5)]
      by (subst decodeAtDepth.simps) (simp add: nth_append)
  next
    case list
    then show ?thesis using 1(1) by (subst decodeAtDepth.simps) (simp add: nth_append)
  next
    case dict
    then show ?thesis using 1(2) by (subst decodeAtDepth.simps) (simp add: nth_append)
  qed
next
  case (2 bs x d i acc)
  from 2(3) show ?case
  proof (cases rule: decodeList_Inr_cases)
    case stop
    then show ?thesis by (subst decodeList.simps) (simp add: nth_append)
  next
    case (item w i')
    then show ?thesis using 2(1) 2(2) by (subst decodeList.simps) (simp add: nth_append)
  qed
next
  case (3 bs x d i m)
  from 3(3) show ?case
  proof (cases rule: decodeDict_Inr_cases)
    case stop
    then show ?thesis by (subst decodeDict.simps) (simp add: nth_append)
  next
    case (entry k i' w i'')
    then show ?thesis
      using 3(1) 3(2) decodeString_more [OF entry(3)]
      by (subst decodeDict.simps) (simp add: nth_append)
  qed
qed

text \<open>Two well-formed values in normal form with the same encoding are equal: the encoder
  does not lose information, in particular the order in which a map was filled does not show.\<close>

lemma Encode_injective:
  assumes "wf_bval v" "height v \<le> maxDecodeDepth" "norm v = v"
    and "wf_bval w" "height w \<le> maxDecodeDepth" "norm w = w"
    and "Encode v = Encode w"
  shows "v = w"
proof -
  have "reads_back 0 v" "reads_back 0 w"
    using assms(1,2,4,5) Encode_reads_back [of _ 0] by simp_all
  moreover obtain b where b: "Encode v = Inr b" using Encode_total [OF assms(1)] by blast
  moreover have "Encode w = Inr b" using assms(7) b by simp
  ultimately have "decodeAtDepth ([] @ b @ []) (length ([] :: bytes)) 0 = Inr (norm v, length ([] :: bytes) + length b)"
    "decodeAtDepth ([] @ b @ []) (length ([] :: bytes)) 0 = Inr (norm w, length ([] :: bytes) + length b)"
    by blast+
  with assms show ?thesis by simp
qed

text \<open>The same for the exported functions.\<close>

lemma Encode_then_Decode:
  assumes "wf_bval v" and "height v \<le> maxDecodeDepth"
  obtains b where "Encode v = Inr b" "Decode b = Inr (norm v)"
    "\<And>rest. DecodeAt (b @ rest) 0 = Inr (norm v, length b)"
proof -
  obtain b where b: "Encode v = Inr b" using Encode_total [OF assms(1)] by blast
  have "reads_back 0 v" using assms by (simp add: Encode_reads_back)
  from this [rule_format, OF b, of "[]"]
  have *: "decodeAtDepth (b @ rest) 0 0 = Inr (norm v, length b)" for rest by simp
  from * [of "[]"] have "Decode b = Inr (norm v)" by (simp add: Decode_def)
  with b * show thesis by (intro that) (auto simp: DecodeAt_def)
qed

lemma Decode_ok_val: "in_int64 (int (length bs)) \<Longrightarrow> Decode bs = Inr v \<Longrightarrow> ok_val 0 v"
  using decode_ok(1) [of bs 0 0] by (auto simp: Decode_def split: sum.splits)

section \<open>Properties\<close>

text \<open>C8: Encoding then decoding. Every well-formed value within the nesting limit is encoded
  without an error, and the decoder, called at the start of those bytes whatever follows them,
  returns the value in normal form (a byte string as a \<open>string\<close> exactly when it is valid
  UTF-8) together with the index just past the encoding.\<close>

theorem Decode_Encode:
  assumes "wf_bval v" and "height v \<le> maxDecodeDepth"
  shows "\<exists>b. Encode v = Inr b \<and> Decode b = Inr (norm v)
    \<and> (\<forall>rest. DecodeAt (b @ rest) 0 = Inr (norm v, length b))"
  using Encode_then_Decode [OF assms] by metis

theorem Decode_Encode_witness:
  "\<exists>b. Encode (BDict [(ascii ''a'', BList [BInt (- 5), BBytes [0xFF]])]) = Inr b
    \<and> Decode b = Inr (BDict [(ascii ''a'', BList [BInt (- 5), BBytes [0xFF]])])"
proof -
  let ?v = "BDict [(ascii ''a'', BList [BInt (- 5), BBytes [0xFF]])]"
  have "wf_bval ?v" by (simp add: sorted_dict_def in_int64_def int64_min_def int64_max_def)
  moreover have "height ?v \<le> maxDecodeDepth" by (simp add: maxDecodeDepth_def)
  moreover have "norm ?v = ?v" by (simp add: utf8_lead_def)
  ultimately show ?thesis using Decode_Encode [of ?v] by auto
qed

text \<open>C30: What a successful decoding returns. The value has integers and lengths that fit 64
  bits, maps with one entry per key, is in normal form, and is nested at most
  \<^const>\<open>maxDecodeDepth\<close> deep from the depth of the call on; the returned index lies
  after the start and within the input.\<close>

theorem decodeAtDepth_ok:
  assumes "in_int64 (int (length bs))" and "decodeAtDepth bs i d = Inr (v, j)"
  shows "wf_bval v \<and> norm v = v \<and> d + height v \<le> maxDecodeDepth \<and> i < j \<and> j \<le> length bs"
  using decode_ok(1) [OF assms] by (simp add: ok_val_def)

theorem decodeAtDepth_ok_witness:
  "decodeAtDepth (ascii ''xli7ee'') 1 511 = Inr (BList [BInt 7], 6)
    \<and> 511 + height (BList [BInt 7]) \<le> maxDecodeDepth"
proof -
  have *: "decodeAtDepth (ascii ''xli7ee'') 1 511 = Inr (BList [BInt 7], 6)" by code_simp
  have "in_int64 (int (length (ascii ''xli7ee'')))"
    by (simp add: in_int64_def int64_min_def int64_max_def)
  from decodeAtDepth_ok [OF this *] * show ?thesis by simp
qed

text \<open>The bytes behind a value do not matter: a decoding that succeeds gives the same value
  and the same end index when anything is appended to the input, which is what the metadata
  exchange relies on when it takes the bytes after the dictionary as the piece's data.\<close>

theorem DecodeAt_append:
  assumes "DecodeAt bs i = Inr (v, j)"
  shows "DecodeAt (bs @ rest) i = Inr (v, j)"
  using assms decode_more(1) by (simp add: DecodeAt_def)

theorem DecodeAt_append_witness:
  "DecodeAt (ascii ''d1:ai1eeXYZ'') 0 = Inr (BDict [(ascii ''a'', BInt 1)], 8)"
proof -
  have "DecodeAt (ascii ''d1:ai1ee'') 0 = Inr (BDict [(ascii ''a'', BInt 1)], 8)" by code_simp
  from DecodeAt_append [OF this, of "ascii ''XYZ''"] show ?thesis by (simp add: ascii_def)
qed

text \<open>The decoder is more lenient than the format its comments describe: it accepts a plus
  sign, a leading zero after a minus sign, leading zeros in a string length, and dictionaries
  whose keys are out of order or repeated (the last entry of a key wins); it does reject a
  leading zero, a negative zero and an empty integer.\<close>

theorem decoder_leniency:
  "Decode (ascii ''i+5e'') = Inr (BInt 5)
    \<and> Decode (ascii ''i-05e'') = Inr (BInt (- 5))
    \<and> Decode (ascii ''03:abc'') = Inr (BString (ascii ''abc''))
    \<and> Decode (ascii ''d1:bi1e1:ai2ee'') = Inr (BDict [(ascii ''a'', BInt 2), (ascii ''b'', BInt 1)])
    \<and> Decode (ascii ''d1:ai1e1:ai2ee'') = Inr (BDict [(ascii ''a'', BInt 2)])
    \<and> Decode (ascii ''i05e'') = Inl (DecodeError 0 (LeadingZero (ascii ''05'')) (ascii ''i05e''))
    \<and> Decode (ascii ''i-0e'') = Inl (DecodeError 0 NegativeZero (ascii ''i-0e''))
    \<and> Decode (ascii ''ie'') = Inl (DecodeError 0 EmptyInteger (ascii ''ie''))"
  by (intro conjI) code_simp+

end
