(* ===== verification/NodeID.thy ===== *)
theory NodeID
  imports Prelude
begin

text \<open>
  Package \<open>internal/dht/nodeid\<close>: 160-bit Kademlia identifiers as 20 bytes, their XOR distance,
  the length of their common prefix and the order of distances.
\<close>

section \<open>Identifiers\<close>

text \<open>\<open>type NodeID [20]byte\<close>. The Go type fixes the length, here \<open>valid_id\<close> states it.\<close>

datatype nodeid = NodeID (id_bytes: bytes)

definition valid_id :: "nodeid \<Rightarrow> bool" where
  "valid_id n \<longleftrightarrow> length (id_bytes n) = 20"

definition FromBytes :: "bytes \<Rightarrow> nodeid option" where
  "FromBytes data = (if length data \<noteq> 20 then None else Some (NodeID data))"

definition Distance :: "nodeid \<Rightarrow> nodeid \<Rightarrow> nodeid" where
  "Distance n other = NodeID (map2 (XOR) (id_bytes n) (id_bytes other))"

text \<open>\<open>bits.LeadingZeros8\<close>, and the loop of \<open>PrefixLen\<close> over the bytes of the distance.\<close>

definition leadingZeros8 :: "byte \<Rightarrow> nat" where
  "leadingZeros8 b =
     (if 0x80 \<le> b then 0 else if 0x40 \<le> b then 1 else if 0x20 \<le> b then 2
      else if 0x10 \<le> b then 3 else if 0x08 \<le> b then 4 else if 0x04 \<le> b then 5
      else if 0x02 \<le> b then 6 else if 0x01 \<le> b then 7 else 8)"

fun prefix_count :: "bytes \<Rightarrow> nat" where
  "prefix_count [] = 0"
| "prefix_count (b # bs) = (if b = 0 then 8 + prefix_count bs else leadingZeros8 b)"

definition PrefixLen :: "nodeid \<Rightarrow> nodeid \<Rightarrow> nat" where
  "PrefixLen n other = prefix_count (id_bytes (Distance n other))"

text \<open>The loop of \<open>Less\<close>: the first byte that differs decides.\<close>

fun less_bytes :: "bytes \<Rightarrow> bytes \<Rightarrow> bool" where
  "less_bytes (b # bs) (c # cs) = (if b \<noteq> c then b < c else less_bytes bs cs)"
| "less_bytes _ _ = False"

definition Less :: "nodeid \<Rightarrow> nodeid \<Rightarrow> bool" where
  "Less n other = less_bytes (id_bytes n) (id_bytes other)"

text \<open>Identifiers are ordered by their bytes, which is the order \<open>Less\<close> decides.\<close>

instantiation nodeid :: linorder
begin

definition less_eq_nodeid :: "nodeid \<Rightarrow> nodeid \<Rightarrow> bool" where
  "less_eq_nodeid a b \<longleftrightarrow> id_bytes a \<le> id_bytes b"

definition less_nodeid :: "nodeid \<Rightarrow> nodeid \<Rightarrow> bool" where
  "less_nodeid a b \<longleftrightarrow> id_bytes a < id_bytes b"

instance
  by standard (auto simp: less_eq_nodeid_def less_nodeid_def nodeid.expand)

end

section \<open>The numbers behind the bytes\<close>

lemma map2_xor_commute: "map2 (XOR) a b = map2 (XOR) b (a :: bytes)"
  by (induction a b rule: list_induct2') (auto simp: xor.commute)


fun val :: "bytes \<Rightarrow> nat" where
  "val [] = 0"
| "val (b # bs) = unat b * 2 ^ (8 * length bs) + val bs"

definition id_val :: "nodeid \<Rightarrow> nat" where
  "id_val n = val (id_bytes n)"

lemma unat_byte_bound: "unat (b :: byte) < 256"
  using unsigned_less [of b] by simp

lemma val_bound: "val bs < 2 ^ (8 * length bs)"
proof (induction bs)
  case (Cons b bs)
  have "unat b * 2 ^ (8 * length bs) + val bs < (unat b + 1) * 2 ^ (8 * length bs)"
    using Cons by simp
  also have "\<dots> \<le> 256 * 2 ^ (8 * length bs)"
    using unat_byte_bound [of b] by (intro mult_right_mono) auto
  finally show ?case by (simp add: power_add)
qed simp

lemma bit_shift_add:
  assumes "u < 2 ^ n"
  shows "bit (x * 2 ^ n + u) j \<longleftrightarrow> (if j < n then bit u j else bit (x :: nat) (j - n))"
proof -
  have "x * 2 ^ n + u = push_bit n x OR u"
  proof -
    have "push_bit n x AND u = 0"
      using assms by (auto simp: bit_eq_iff bit_simps)
        (metis bit_take_bit_iff not_less take_bit_nat_eq_self_iff)
    then show ?thesis by (simp add: disjunctive_add_eq_or push_bit_eq_mult)
  qed
  moreover have "bit u j \<Longrightarrow> j < n" for j
    using assms by (metis bit_take_bit_iff take_bit_nat_eq_self_iff)
  ultimately show ?thesis by (auto simp: bit_simps)
qed

lemma bit_unat_byte: "bit (unat (b :: byte)) j \<longleftrightarrow> bit b j"
  by (auto simp: bit_unsigned_iff dest: bit_imp_le_length)

lemma val_xor: "length a = length b \<Longrightarrow> val (map2 (XOR) a b) = val a XOR val b"
proof (induction a b rule: list_induct2)
  case (Cons x xs y ys)
  have "bit (val (map2 (XOR) (x # xs) (y # ys))) j \<longleftrightarrow> bit (val (x # xs) XOR val (y # ys)) j" for j
    using val_bound [of "map2 (XOR) xs ys"] val_bound [of xs] val_bound [of ys] Cons
    by (simp add: bit_shift_add bit_xor_iff bit_unat_byte)
  then show ?case by (simp add: bit_eq_iff)
qed simp

lemma val_inj: "length a = length b \<Longrightarrow> val a = val b \<Longrightarrow> a = b"
proof (induction a b rule: list_induct2)
  case (Cons x xs y ys)
  have "unat x = (unat x * 2 ^ (8 * length xs) + val xs) div 2 ^ (8 * length xs)"
    using val_bound [of xs] by simp
  also have "\<dots> = unat y"
    using val_bound [of ys] Cons by simp
  finally have "x = y" by (rule unsigned_word_eqI)
  with Cons show ?case by simp
qed simp

lemma val_less:
  "length a = length b \<Longrightarrow> less_bytes a b \<longleftrightarrow> val a < val b"
proof (induction a b rule: list_induct2)
  case (Cons x xs y ys)
  have mono: "unat u < unat v \<Longrightarrow> unat u * 2 ^ (8 * length xs) + val us < unat v * 2 ^ (8 * length xs) + val vs"
    if "length us = length xs" for u v :: byte and us vs
  proof -
    assume "unat u < unat v"
    have "unat u * 2 ^ (8 * length xs) + val us < (unat u + 1) * 2 ^ (8 * length xs)"
      using val_bound [of us] that by simp
    also have "\<dots> \<le> unat v * 2 ^ (8 * length xs)"
      using \<open>unat u < unat v\<close> by (intro mult_right_mono) auto
    finally show ?thesis by simp
  qed
  show ?case
    using Cons mono [of xs x y ys] mono [of ys y x xs]
    by (cases "unat x" "unat y" rule: linorder_cases) (auto simp: word_less_nat_alt unsigned_word_eqI)
qed simp

lemma less_bytes_list: "length a = length b \<Longrightarrow> less_bytes a b \<longleftrightarrow> a < b"
  by (induction a b rule: list_induct2) auto

lemma leadingZeros8_bounds:
  assumes "b \<noteq> 0"
  shows "leadingZeros8 b \<le> 7 \<and> 2 ^ (7 - leadingZeros8 b) \<le> unat b \<and> unat b < 2 ^ (8 - leadingZeros8 b)"
proof -
  have "unat b \<noteq> 0" using assms by (simp add: unat_eq_0)
  then show ?thesis
    using unat_byte_bound [of b] by (simp add: leadingZeros8_def word_le_nat_alt)
qed

lemma prefix_count_zero: "prefix_count bs = 8 * length bs \<longleftrightarrow> val bs = 0"
  and prefix_count_le: "prefix_count bs \<le> 8 * length bs"
proof (induction bs)
  case (Cons b bs)
  {
    case 1
    show ?case using Cons leadingZeros8_bounds [of b] by (auto simp: unat_eq_0)
  next
    case 2
    show ?case using Cons leadingZeros8_bounds [of b] by auto
  }
qed simp_all

lemma prefix_count_bounds:
  "prefix_count bs < 8 * length bs \<Longrightarrow>
    2 ^ (8 * length bs - 1 - prefix_count bs) \<le> val bs \<and> val bs < 2 ^ (8 * length bs - prefix_count bs)"
proof (induction bs)
  case (Cons b bs)
  let ?n = "8 * length bs"
  show ?case
  proof (cases "b = 0")
    case True
    with Cons show ?thesis by simp
  next
    case False
    let ?z = "leadingZeros8 b"
    note b = leadingZeros8_bounds [OF False]
    have "(2::nat) ^ (7 - ?z + ?n) \<le> unat b * 2 ^ ?n"
      unfolding power_add using b by (intro mult_right_mono) auto
    moreover have "unat b * 2 ^ ?n + val bs < (unat b + 1) * 2 ^ ?n"
      using val_bound [of bs] by simp
    moreover have "(unat b + 1) * 2 ^ ?n \<le> 2 ^ (8 - ?z) * 2 ^ ?n"
      using b by (intro mult_right_mono) auto
    ultimately have "2 ^ (7 - ?z + ?n) \<le> val (b # bs)" "val (b # bs) < 2 ^ (8 - ?z + ?n)"
      unfolding val.simps power_add by linarith+
    moreover have "8 * length (b # bs) - 1 - ?z = 7 - ?z + ?n" "8 * length (b # bs) - ?z = 8 - ?z + ?n"
      using b by simp_all
    moreover have "prefix_count (b # bs) = ?z" using False by simp
    ultimately show ?thesis by metis
  qed
qed simp

section \<open>The contract of an identifier space\<close>

text \<open>
  What the routing table relies on: distances are the XOR of two numbers, zero only between
  equal identifiers, and the common prefix of two identifiers says in which power of two
  their distance lies. Everything about buckets follows from these laws.
\<close>

lemma xor_nat_less: "a < 2 ^ k \<Longrightarrow> b < 2 ^ k \<Longrightarrow> (a XOR b :: nat) < 2 ^ k"
  by (metis take_bit_nat_eq_self_iff take_bit_xor)

lemma bit_top: "2 ^ m \<le> (a :: nat) \<Longrightarrow> a < 2 ^ Suc m \<Longrightarrow> bit a m"
proof -
  assume "2 ^ m \<le> a" "a < 2 ^ Suc m"
  then have "a div 2 ^ m = 1" by (intro div_nat_eqI) auto
  then show ?thesis by (simp add: bit_iff_odd)
qed

lemma bit_above: "(a :: nat) < 2 ^ m \<Longrightarrow> m \<le> j \<Longrightarrow> \<not> bit a j"
  by (metis bit_take_bit_iff not_le take_bit_nat_eq_self_iff)

lemma less_two_powI: "(\<And>j. m \<le> j \<Longrightarrow> \<not> bit a j) \<Longrightarrow> (a :: nat) < 2 ^ m"
  by (metis bit_eq_iff bit_take_bit_iff not_less take_bit_nat_eq_self_iff)

lemma xor_same_top:
  assumes "2 ^ m \<le> (a :: nat)" "a < 2 ^ Suc m" "2 ^ m \<le> b" "b < 2 ^ Suc m"
  shows "a XOR b < 2 ^ m"
proof (rule less_two_powI)
  fix j assume "m \<le> j"
  show "\<not> bit (a XOR b) j"
    using assms bit_top [of m a] bit_top [of m b] bit_above [of a "Suc m" j] bit_above [of b "Suc m" j] \<open>m \<le> j\<close>
    by (cases "j = m") (auto simp: bit_xor_iff)
qed

lemma xor_top:
  assumes "2 ^ m \<le> (a :: nat)" "a < 2 ^ Suc m" "b < 2 ^ m"
  shows "2 ^ m \<le> a XOR b \<and> a XOR b < 2 ^ Suc m"
proof
  have "bit (a XOR b) m"
    using bit_top [OF assms(1,2)] bit_above [OF assms(3), of m] by (simp add: bit_xor_iff)
  then show "2 ^ m \<le> a XOR b" using bit_above [of "a XOR b" m m] by (meson not_less order_refl)
  show "a XOR b < 2 ^ Suc m"
    using assms by (intro xor_nat_less) auto
qed

lemma xor_nat_zero: "(a XOR b :: nat) = 0 \<longleftrightarrow> a = b"
  by (auto simp: bit_eq_iff bit_xor_iff)

lemma xor_nat_le_add: "(a XOR b :: nat) \<le> a + b"
proof (induction a arbitrary: b rule: less_induct)
  case (less a)
  show ?case
  proof (cases "a = 0")
    case False
    have "a XOR b = of_bool (odd a \<noteq> odd b) + 2 * ((a div 2) XOR (b div 2))"
      by (rule xor_rec)
    also have "\<dots> \<le> of_bool (odd a \<noteq> odd b) + 2 * (a div 2 + b div 2)"
      using less [of "a div 2" "b div 2"] False by simp
    also have "\<dots> \<le> a + b"
      by (cases "odd a"; cases "odd b") (auto elim!: oddE evenE)
    finally show ?thesis .
  qed simp
qed

locale id_space =
  fixes ok :: "'i \<Rightarrow> bool"
    and dist :: "'i \<Rightarrow> 'i \<Rightarrow> nat"
    and pre :: "'i \<Rightarrow> 'i \<Rightarrow> nat"
    and n :: nat
  assumes dist_xor: "ok a \<Longrightarrow> ok b \<Longrightarrow> ok c \<Longrightarrow> dist a c = dist a b XOR dist b c"
    and dist_zero: "ok a \<Longrightarrow> ok b \<Longrightarrow> dist a b = 0 \<longleftrightarrow> a = b"
    and pre_self: "ok a \<Longrightarrow> pre a a = n"
    and pre_dist: "ok a \<Longrightarrow> ok b \<Longrightarrow> a \<noteq> b \<Longrightarrow>
      pre a b < n \<and> 2 ^ (n - 1 - pre a b) \<le> dist a b \<and> dist a b < 2 ^ (n - pre a b)"
begin

lemma dist_sym: "ok a \<Longrightarrow> ok b \<Longrightarrow> dist a b = dist b a"
  using dist_xor [of a b a] dist_zero [of a a] by (simp add: xor_nat_zero)

lemma triangle: "ok a \<Longrightarrow> ok b \<Longrightarrow> ok c \<Longrightarrow> dist a c \<le> dist a b + dist b c"
  by (simp add: dist_xor [of a b c] xor_nat_le_add)

lemma unidirectional: "ok a \<Longrightarrow> ok b \<Longrightarrow> ok c \<Longrightarrow> dist a b = dist a c \<Longrightarrow> b = c"
  using dist_xor [of b a c] dist_sym [of a b] dist_zero [of b c] by simp

text \<open>
  Three identifiers and their prefixes: two that leave \<open>s\<close> at the same bit agree beyond it,
  and where they leave it at different bits, the shorter prefix is the one they share.
\<close>

lemma dist_lt: "ok a \<Longrightarrow> ok b \<Longrightarrow> k \<le> pre a b \<Longrightarrow> dist a b < 2 ^ (n - k)"
proof (cases "a = b")
  case False
  assume "ok a" "ok b" "k \<le> pre a b"
  with False pre_dist [of a b] have "dist a b < 2 ^ (n - pre a b)" by blast
  also have "(2 :: nat) ^ (n - pre a b) \<le> 2 ^ (n - k)" using \<open>k \<le> pre a b\<close> by (intro power_increasing) auto
  finally show ?thesis .
qed (simp add: dist_zero [THEN iffD2])

lemma dist_ge: "ok a \<Longrightarrow> ok b \<Longrightarrow> pre a b \<le> k \<Longrightarrow> pre a b < n \<Longrightarrow> k < n \<Longrightarrow> 2 ^ (n - 1 - k) \<le> dist a b"
proof -
  assume a: "ok a" "ok b" "pre a b \<le> k" "pre a b < n" "k < n"
  then have "a \<noteq> b" using pre_self by force
  with a pre_dist [of a b] have "2 ^ (n - 1 - pre a b) \<le> dist a b" by blast
  moreover have "(2 :: nat) ^ (n - 1 - k) \<le> 2 ^ (n - 1 - pre a b)"
    using a by (intro power_increasing) auto
  ultimately show ?thesis by linarith
qed

lemma same_prefix_closer:
  assumes "ok s" "ok a" "ok b" "pre s a = k" "pre s b = k" "k < n"
  shows "dist a b < 2 ^ (n - 1 - k)"
proof -
  have "a \<noteq> s" "b \<noteq> s" using assms pre_self by force+
  have m: "n - k = Suc (n - 1 - k)" using assms(6) by simp
  have "dist s a XOR dist s b < 2 ^ (n - 1 - k)"
    using pre_dist [of s a] pre_dist [of s b] assms \<open>a \<noteq> s\<close> \<open>b \<noteq> s\<close>
    by (intro xor_same_top) (auto simp: m)
  then show ?thesis using dist_xor [of a s b] dist_sym [of a s] assms by simp
qed

lemma diff_prefix_dist:
  assumes "ok s" "ok a" "ok b" "pre s a = k" "k < pre s b" "k < n"
  shows "2 ^ (n - 1 - k) \<le> dist a b \<and> dist a b < 2 ^ (n - k)"
proof -
  have "a \<noteq> s" using assms pre_self by force
  have m: "n - k = Suc (n - 1 - k)" using assms(6) by simp
  have "dist s b < 2 ^ (n - 1 - k)"
    using dist_lt [of s b "Suc k"] assms by simp
  then have "2 ^ (n - 1 - k) \<le> dist s a XOR dist s b \<and> dist s a XOR dist s b < 2 ^ Suc (n - 1 - k)"
    using pre_dist [of s a] assms \<open>a \<noteq> s\<close> by (intro xor_top) (auto simp: m)
  then show ?thesis using dist_xor [of a s b] dist_sym [of a s] assms by (simp add: m)
qed

end

lemma id_val_Distance:
  "valid_id a \<Longrightarrow> valid_id b \<Longrightarrow> id_val (Distance a b) = id_val a XOR id_val b"
  by (simp add: id_val_def Distance_def valid_id_def val_xor)

lemma id_val_inj: "valid_id a \<Longrightarrow> valid_id b \<Longrightarrow> id_val a = id_val b \<Longrightarrow> a = b"
  by (metis id_val_def nodeid.expand val_inj valid_id_def)

lemma valid_Distance [simp]: "valid_id a \<Longrightarrow> valid_id b \<Longrightarrow> valid_id (Distance a b)"
  by (simp add: Distance_def valid_id_def)

interpretation ids: id_space valid_id "\<lambda>a b. id_val (Distance a b)" PrefixLen 160
proof unfold_locales
  fix a b c :: nodeid
  assume v: "valid_id a" "valid_id b"
  show "id_val (Distance a b) = 0 \<longleftrightarrow> a = b"
    using v id_val_inj [of a b] by (auto simp: id_val_Distance xor_nat_zero)
  show "id_val (Distance a c) = id_val (Distance a b) XOR id_val (Distance b c)" if "valid_id c"
    using v that by (simp add: id_val_Distance bit_eq_iff bit_xor_iff) blast
  show "PrefixLen a b < 160 \<and> 2 ^ (160 - 1 - PrefixLen a b) \<le> id_val (Distance a b)
      \<and> id_val (Distance a b) < 2 ^ (160 - PrefixLen a b)" if "a \<noteq> b"
  proof -
    let ?d = "id_bytes (Distance a b)"
    have l: "length ?d = 20" using v by (simp add: Distance_def valid_id_def)
    have "val ?d \<noteq> 0" using v that id_val_inj [of a b] id_val_Distance [of a b]
      by (auto simp: id_val_def xor_nat_zero)
    then have "prefix_count ?d < 160"
      using prefix_count_zero [of ?d] prefix_count_le [of ?d] l by simp
    then show ?thesis using prefix_count_bounds [of ?d] l by (simp add: PrefixLen_def id_val_def)
  qed
next
  fix a assume v: "valid_id a"
  then have "val (id_bytes (Distance a a)) = 0"
    using id_val_Distance [of a a] by (simp add: id_val_def)
  then show "PrefixLen a a = 160"
    using prefix_count_zero [of "id_bytes (Distance a a)"] v
    by (simp add: PrefixLen_def Distance_def valid_id_def)
qed

lemma Less_iff: "valid_id a \<Longrightarrow> valid_id b \<Longrightarrow> Less a b \<longleftrightarrow> id_val a < id_val b"
  by (simp add: Less_def id_val_def valid_id_def val_less)

lemma Less_less: "valid_id a \<Longrightarrow> valid_id b \<Longrightarrow> Less a b \<longleftrightarrow> a < b"
  by (simp add: Less_def less_nodeid_def valid_id_def less_bytes_list)

lemma less_iff_id_val: "valid_id a \<Longrightarrow> valid_id b \<Longrightarrow> a < b \<longleftrightarrow> id_val a < id_val b"
  using Less_iff Less_less by blast

lemma le_iff_id_val: "valid_id a \<Longrightarrow> valid_id b \<Longrightarrow> a \<le> b \<longleftrightarrow> id_val a \<le> id_val b"
  by (metis less_iff_id_val not_less)

lemma PrefixLen_le: "valid_id a \<Longrightarrow> valid_id b \<Longrightarrow> PrefixLen a b \<le> 160"
  using ids.pre_dist [of a b] ids.pre_self [of a] by (cases "a = b") auto

lemma PrefixLen_160: "valid_id a \<Longrightarrow> valid_id b \<Longrightarrow> 160 \<le> PrefixLen a b \<longleftrightarrow> a = b"
  using ids.pre_dist [of a b] ids.pre_self [of a] by (cases "a = b") auto

lemma PrefixLen_sym: "valid_id a \<Longrightarrow> valid_id b \<Longrightarrow> PrefixLen a b = PrefixLen b a"
  by (simp add: PrefixLen_def Distance_def valid_id_def map2_xor_commute)

lemma Distance_inj:
  "valid_id t \<Longrightarrow> valid_id a \<Longrightarrow> valid_id b \<Longrightarrow> Distance t a = Distance t b \<longleftrightarrow> a = b"
  using ids.unidirectional [of t a b] by auto

section \<open>Properties\<close>

text \<open>The XOR distance is a metric in which every point has at most one point at a given
  distance: it is zero exactly between equal identifiers, symmetric, satisfies the triangle
  inequality, and two identifiers at the same distance from a third are equal. \<open>Less\<close> on
  distances decides the order of the 160-bit numbers they are.\<close>

theorem Distance_metric:
  assumes "valid_id a" "valid_id b" "valid_id c"
  shows "(id_val (Distance a b) = 0 \<longleftrightarrow> a = b)
    \<and> Distance a b = Distance b a
    \<and> id_val (Distance a c) \<le> id_val (Distance a b) + id_val (Distance b c)
    \<and> (Distance a b = Distance a c \<longrightarrow> b = c)
    \<and> (Less (Distance a b) (Distance a c) \<longleftrightarrow> id_val (Distance a b) < id_val (Distance a c))"
  using assms ids.dist_zero [of a b] ids.triangle [of a b c]
  by (simp add: Distance_inj Less_iff) (simp add: Distance_def valid_id_def map2_xor_commute)

theorem Distance_metric_witness:
  "Less (Distance (NodeID (replicate 20 0)) (NodeID (replicate 20 1)))
     (Distance (NodeID (replicate 20 0)) (NodeID (replicate 20 2)))"
proof -
  have v: "valid_id (NodeID (replicate 20 0))" "valid_id (NodeID (replicate 20 1))"
    "valid_id (NodeID (replicate 20 2))"
    by (simp_all add: valid_id_def)
  have "id_val (Distance (NodeID (replicate 20 0)) (NodeID (replicate 20 1)))
      < id_val (Distance (NodeID (replicate 20 0)) (NodeID (replicate 20 2)))"
    by code_simp
  with Distance_metric [OF v] show ?thesis by blast
qed

text \<open>\<open>PrefixLen\<close> is the number of leading bits two identifiers share: 160 exactly for equal
  ones, and otherwise \<open>p < 160\<close> exactly when their distance lies between \<open>2 ^ (159 - p)\<close>
  and \<open>2 ^ (160 - p)\<close>, which is what makes it a bucket index.\<close>

theorem PrefixLen_bucket:
  assumes "valid_id a" "valid_id b"
  shows "(PrefixLen a b = 160 \<longleftrightarrow> a = b)
    \<and> (p < 160 \<longrightarrow> (PrefixLen a b = p \<longleftrightarrow>
        2 ^ (159 - p) \<le> id_val (Distance a b) \<and> id_val (Distance a b) < 2 ^ (160 - p)))"
proof (cases "a = b")
  case True
  with assms ids.pre_self [of a] ids.dist_zero [of a a] show ?thesis by auto
next
  case False
  let ?d = "id_val (Distance a b)" and ?q = "PrefixLen a b"
  from ids.pre_dist [OF assms False]
  have q: "?q < 160" "2 ^ (159 - ?q) \<le> ?d" "?d < 2 ^ (160 - ?q)" by simp_all
  have "?q = p" if p: "p < 160" "2 ^ (159 - p) \<le> ?d" "?d < 2 ^ (160 - p)"
  proof (rule ccontr)
    assume "?q \<noteq> p"
    then consider "?q < p" | "p < ?q" by linarith
    then show False
    proof cases
      case 1
      then have "(2 :: nat) ^ (160 - p) \<le> 2 ^ (159 - ?q)" using p by (intro power_increasing) auto
      with q p show False by linarith
    next
      case 2
      then have "(2 :: nat) ^ (160 - ?q) \<le> 2 ^ (159 - p)" using q by (intro power_increasing) auto
      with q p show False by linarith
    qed
  qed
  with q False show ?thesis by auto
qed

theorem PrefixLen_bucket_witness:
  "PrefixLen (NodeID (replicate 20 0)) (NodeID (replicate 20 1)) = 7
    \<and> 2 ^ 152 \<le> id_val (Distance (NodeID (replicate 20 0)) (NodeID (replicate 20 1)))"
proof -
  let ?a = "NodeID (replicate 20 0)" and ?b = "NodeID (replicate 20 1)"
  have v: "valid_id ?a" "valid_id ?b" by (simp_all add: valid_id_def)
  have "PrefixLen ?a ?b = 7" by code_simp
  with PrefixLen_bucket [OF v, of 7] show ?thesis by simp
qed

end
