(* ===== verification/Netip.thy ===== *)
theory Netip
  imports Prelude
begin

text \<open>
  The values of \<open>net/netip\<close> the program passes around: addresses of either family, the zero
  (invalid) address, and address-port pairs; with the operations the code applies to them.
  \<open>As4\<close> panics on an address that has no four-byte form, which is \<^const>\<open>None\<close>.
\<close>

section \<open>Addresses\<close>

datatype addr = NoAddr | IPv4 (v4_bytes: bytes) | IPv6 bytes (zone: bytes)

fun valid_addr :: "addr \<Rightarrow> bool" where
  "valid_addr NoAddr = True"
| "valid_addr (IPv4 b) = (length b = 4)"
| "valid_addr (IPv6 b z) = (length b = 16)"

definition mapped4 :: "bytes \<Rightarrow> bool" where
  "mapped4 b \<longleftrightarrow> take 12 b = replicate 10 0 @ [0xFF, 0xFF]"

fun Is4 :: "addr \<Rightarrow> bool" where
  "Is4 (IPv4 b) = True"
| "Is4 _ = False"

fun Unmap :: "addr \<Rightarrow> addr" where
  "Unmap (IPv6 b z) = (if mapped4 b then IPv4 (drop 12 b) else IPv6 b z)"
| "Unmap a = a"

fun As4 :: "addr \<Rightarrow> bytes option" where
  "As4 NoAddr = None"
| "As4 (IPv4 b) = Some b"
| "As4 (IPv6 b z) = (if mapped4 b then Some (drop 12 b) else None)"

definition IsValid :: "addr \<Rightarrow> bool" where
  "IsValid a \<longleftrightarrow> a \<noteq> NoAddr"

datatype addrport = AddrPort (ap_addr: addr) (ap_port: u16)

text \<open>Addresses are keys of Go maps; an order on them makes the maps canonical lists.\<close>

fun addr_key :: "addr \<Rightarrow> bytes list" where
  "addr_key NoAddr = []"
| "addr_key (IPv4 b) = [b]"
| "addr_key (IPv6 b z) = [b, z]"

lemma addr_key_inj: "addr_key a = addr_key b \<Longrightarrow> a = b"
  by (cases a; cases b) auto

instantiation addr :: linorder
begin

definition less_eq_addr :: "addr \<Rightarrow> addr \<Rightarrow> bool" where
  "less_eq_addr a b \<longleftrightarrow> addr_key a \<le> addr_key b"

definition less_addr :: "addr \<Rightarrow> addr \<Rightarrow> bool" where
  "less_addr a b \<longleftrightarrow> addr_key a < addr_key b"

instance
  by standard (auto simp: less_eq_addr_def less_addr_def intro: addr_key_inj)

end

instantiation addrport :: linorder
begin

definition less_eq_addrport :: "addrport \<Rightarrow> addrport \<Rightarrow> bool" where
  "less_eq_addrport a b \<longleftrightarrow>
     ap_addr a < ap_addr b \<or> (ap_addr a = ap_addr b \<and> ap_port a \<le> ap_port b)"

definition less_addrport :: "addrport \<Rightarrow> addrport \<Rightarrow> bool" where
  "less_addrport a b \<longleftrightarrow>
     ap_addr a < ap_addr b \<or> (ap_addr a = ap_addr b \<and> ap_port a < ap_port b)"

instance
  by standard (auto simp: less_eq_addrport_def less_addrport_def intro: addrport.expand)

end

section \<open>The six-byte form of an endpoint\<close>

text \<open>
  Four address bytes and a big-endian port: the record that compact peer lists, the \<open>ip\<close>
  field of BEP 42 and the tracker protocols share. Writing it panics where \<open>As4\<close> does.
\<close>

definition endpoint6 :: "addrport \<Rightarrow> bytes option" where
  "endpoint6 a = map_option (\<lambda>ip. ip @ be16 (ap_port a)) (As4 (ap_addr a))"

definition of_endpoint6 :: "bytes \<Rightarrow> addrport option" where
  "of_endpoint6 b = map_option (AddrPort (IPv4 (take 4 b))) (get16 (drop 4 b))"

definition v4_endpoint :: "addrport \<Rightarrow> bool" where
  "v4_endpoint a \<longleftrightarrow> (\<exists>b. ap_addr a = IPv4 b \<and> length b = 4)"

lemma v4_endpointE:
  assumes "v4_endpoint a"
  obtains b p where "a = AddrPort (IPv4 b) p" "length b = 4"
  using assms by (cases a) (auto simp: v4_endpoint_def)

interpretation endpoint: fixed_codec "\<lambda>a. the (endpoint6 a)" of_endpoint6 Some v4_endpoint 6
proof unfold_locales
  fix a assume "v4_endpoint a"
  then obtain b p where a: "a = AddrPort (IPv4 b) p" "length b = 4" by (rule v4_endpointE)
  then show "length (the (endpoint6 a)) = 6" by (simp add: endpoint6_def)
  from a get16_be16 [of p "[]"] show "of_endpoint6 (the (endpoint6 a)) = Some a"
    by (simp add: endpoint6_def of_endpoint6_def)
qed simp

lemma get16_exact: "length b = 2 \<Longrightarrow> \<exists>p. get16 b = Some p \<and> be16 p = b"
proof -
  assume "length b = 2"
  then obtain x y where b: "b = [x, y]" by (auto simp: length_Suc_conv numeral_2_eq_2)
  have "be16 (push_bit 8 (ucast x) OR ucast y) = [x, y]"
    unfolding be16_def by (auto simp: bit_eq_iff bit_simps dest: bit_imp_le_length)
  then show ?thesis by (simp add: b)
qed

lemma of_endpoint6_exact:
  assumes "length b = 6"
  shows "\<exists>a. of_endpoint6 b = Some a \<and> v4_endpoint a \<and> endpoint6 a = Some b"
proof -
  from get16_exact [of "drop 4 b"] assms obtain p where "get16 (drop 4 b) = Some p" "be16 p = drop 4 b"
    by auto
  with assms show ?thesis
    by (auto simp: of_endpoint6_def endpoint6_def v4_endpoint_def append_take_drop_id)
qed

end
