(* ===== verification/Routing.thy ===== *)
theory Routing
  imports NodeID Netip
begin

text \<open>
  Package \<open>internal/dht/routing\<close>: nodes (\<open>node.go\<close>), k-buckets (\<open>bucket.go\<close>) and the routing
  table of 160 of them (\<open>table.go\<close>). Every operation takes the table and returns the new one;
  the lock makes each of them atomic. The clock and the random source are arguments. A node is
  a Go pointer, but the table holds at most one node per identifier and the operations that
  write through the pointer reach it by its identifier, so a node is a value here.
\<close>

section \<open>Nodes and buckets\<close>

record node =
  ID :: nodeid
  Addr :: addrport
  LastSeen :: int
  Compliant :: bool
  FailCount :: nat

definition MaxFailures :: nat where "MaxFailures = 5"

definition K :: nat where "K = 8"

type_synonym bucket = "node list"

definition NewBucket :: bucket where "NewBucket = []"

text \<open>The search loops return at the first hit; \<open>append(s[:i], s[i+1:]...)\<close> drops index \<open>i\<close>.\<close>

fun find_index :: "('a \<Rightarrow> bool) \<Rightarrow> 'a list \<Rightarrow> nat option" where
  "find_index P [] = None"
| "find_index P (x # xs) = (if P x then Some 0 else map_option Suc (find_index P xs))"

definition remove_at :: "nat \<Rightarrow> 'a list \<Rightarrow> 'a list" where
  "remove_at i xs = take i xs @ drop (i + 1) xs"

text \<open>\<open>Bucket.Insert\<close>: the new bucket, and the two results of the Go method.\<close>

definition Bucket_Insert :: "bucket \<Rightarrow> node \<Rightarrow> bucket \<times> node option \<times> bool" where
  "Bucket_Insert b node =
     (if length b = K then
        (case find_index (\<lambda>n. ID n = ID node) b of
           Some i \<Rightarrow> (remove_at i b @ [node], None, True)
         | None \<Rightarrow>
             (case (if Compliant node then find_index (\<lambda>n. \<not> Compliant n) b else None) of
                Some i \<Rightarrow> (remove_at i b @ [node], None, True)
              | None \<Rightarrow> (b, Some (b ! 0), False)))
      else
        (case find_index (\<lambda>n. ID n = ID node) b of
           Some i \<Rightarrow> (remove_at i b @ [node], None, True)
         | None \<Rightarrow> (b @ [node], None, True)))"

definition Bucket_Remove :: "bucket \<Rightarrow> nodeid \<Rightarrow> bucket \<times> bool" where
  "Bucket_Remove b i =
     (case find_index (\<lambda>n. ID n = i) b of
        Some j \<Rightarrow> (remove_at j b, True)
      | None \<Rightarrow> (b, False))"

definition Bucket_Oldest :: "bucket \<Rightarrow> node option" where
  "Bucket_Oldest b = (if b = [] then None else Some (b ! 0))"

section \<open>The routing table\<close>

record rtable =
  rt_self :: nodeid
  rt_buckets :: "bucket list"

definition NewRoutingTable :: "nodeid \<Rightarrow> rtable" where
  "NewRoutingTable self = \<lparr>rt_self = self, rt_buckets = replicate 160 NewBucket\<rparr>"

definition Table_Insert :: "rtable \<Rightarrow> node \<Rightarrow> rtable \<times> node option \<times> bool" where
  "Table_Insert rt node =
     (let i = PrefixLen (rt_self rt) (ID node)
      in if i \<ge> 160 then (rt, None, False)
         else case Bucket_Insert (rt_buckets rt ! i) node of
           (b, result, success) \<Rightarrow>
             (rt\<lparr>rt_buckets := (rt_buckets rt)[i := b]\<rparr>, result, success))"

definition Table_Remove :: "rtable \<Rightarrow> nodeid \<Rightarrow> rtable \<times> bool" where
  "Table_Remove rt node_id =
     (let i = PrefixLen (rt_self rt) node_id
      in if i \<ge> 160 then (rt, False)
         else case Bucket_Remove (rt_buckets rt ! i) node_id of
           (b, ok) \<Rightarrow> (rt\<lparr>rt_buckets := (rt_buckets rt)[i := b]\<rparr>, ok))"

text \<open>
  \<open>FindClosest\<close>: candidates from the target's bucket, then one bucket to the left and one to
  the right per round until there are enough, sorted by distance and cut to \<open>count\<close>.
  (\<open>sort.Slice\<close> is not stable; candidates of a table have different identifiers, hence
  different distances, so the order of equal elements does not arise.)
\<close>

function gather :: "bucket list \<Rightarrow> nat \<Rightarrow> int \<Rightarrow> nat \<Rightarrow> node list \<Rightarrow> node list" where
  "gather buckets count l r candidates =
     (if length candidates < count \<and> (l \<ge> 0 \<or> r < 160) then
        (let candidates1 = (if l \<ge> 0 then candidates @ buckets ! nat l else candidates);
             l1 = (if l \<ge> 0 then l - 1 else l);
             candidates2 = (if r < 160 then candidates1 @ buckets ! r else candidates1);
             r1 = (if r < 160 then r + 1 else r)
         in gather buckets count l1 r1 candidates2)
      else candidates)"
  by pat_completeness auto
termination
  by (relation "measure (\<lambda>(bs, c, l, r, cs). nat (l + 1) + (160 - r))") auto

declare gather.simps [simp del]

definition sort_by_distance :: "nodeid \<Rightarrow> node list \<Rightarrow> node list" where
  "sort_by_distance target ns = sort_key (\<lambda>n. Distance target (ID n)) ns"

definition candidates_for :: "rtable \<Rightarrow> nodeid \<Rightarrow> nat \<Rightarrow> node list" where
  "candidates_for rt target count =
     (let i = PrefixLen (rt_self rt) target;
          i = (if i \<ge> 160 then 159 else i)
      in gather (rt_buckets rt) count (int i - 1) (i + 1) (rt_buckets rt ! i))"

definition FindClosest :: "rtable \<Rightarrow> nodeid \<Rightarrow> nat \<Rightarrow> node list" where
  "FindClosest rt target count =
     (let candidates = sort_by_distance target (candidates_for rt target count)
      in if length candidates > count then take count candidates else candidates)"

definition Snapshot :: "rtable \<Rightarrow> node list" where
  "Snapshot rt = concat (rt_buckets rt)"

definition NumNodes :: "rtable \<Rightarrow> nat" where
  "NumNodes rt = sum_list (map length (rt_buckets rt))"

text \<open>
  The loop of \<open>RecordFailure\<close> and \<open>RecordSuccess\<close> stops at the first node with the identifier.
\<close>

definition RecordFailure :: "rtable \<Rightarrow> nodeid \<Rightarrow> rtable \<times> bool" where
  "RecordFailure rt nid =
     (let i = PrefixLen (rt_self rt) nid
      in if i \<ge> 160 then (rt, False)
         else (let b = rt_buckets rt ! i in
           case find_index (\<lambda>n. ID n = nid) b of
             None \<Rightarrow> (rt, False)
           | Some j \<Rightarrow>
               (let n = (b ! j)\<lparr>FailCount := FailCount (b ! j) + 1\<rparr>;
                    b1 = b[j := n]
                in if FailCount n \<ge> MaxFailures then
                     (rt\<lparr>rt_buckets := (rt_buckets rt)[i := fst (Bucket_Remove b1 nid)]\<rparr>, True)
                   else (rt\<lparr>rt_buckets := (rt_buckets rt)[i := b1]\<rparr>, False))))"

definition RecordSuccess :: "int \<Rightarrow> rtable \<Rightarrow> nodeid \<Rightarrow> rtable" where
  "RecordSuccess now rt nid =
     (let i = PrefixLen (rt_self rt) nid
      in if i \<ge> 160 then rt
         else (let b = rt_buckets rt ! i in
           case find_index (\<lambda>n. ID n = nid) b of
             None \<Rightarrow> rt
           | Some j \<Rightarrow>
               rt\<lparr>rt_buckets := (rt_buckets rt)[i := b[j := (b ! j)\<lparr>FailCount := 0, LastSeen := now\<rparr>]]\<rparr>))"

definition Stale :: "int \<Rightarrow> rtable \<Rightarrow> int \<Rightarrow> node list" where
  "Stale now rt threshold =
     concat (map (filter (\<lambda>n. LastSeen n < now - threshold)) (rt_buckets rt))"

definition StaleBuckets :: "int \<Rightarrow> rtable \<Rightarrow> int \<Rightarrow> nat list" where
  "StaleBuckets now rt threshold =
     filter (\<lambda>i. rt_buckets rt ! i \<noteq> []
         \<and> list_all (\<lambda>n. \<not> LastSeen n > now - threshold) (rt_buckets rt ! i))
       [0..<length (rt_buckets rt)]"

text \<open>
  \<open>TargetForBucket\<close>: the own identifier with the bucket's bit flipped and the bytes after that
  byte XORed with random bytes. An index beyond the array would panic.
\<close>

definition TargetForBucket :: "rtable \<Rightarrow> nat \<Rightarrow> bytes \<Rightarrow> nodeid option" where
  "TargetForBucket rt bucket rnd =
     (let self = id_bytes (rt_self rt);
          byteIdx = bucket div 8;
          bitIdx = 7 - bucket mod 8
      in if byteIdx \<ge> 20 then None
         else Some (NodeID (take byteIdx self @ [(self ! byteIdx) XOR push_bit bitIdx 1]
                @ map2 (XOR) (drop (byteIdx + 1) self) (drop (byteIdx + 1) rnd))))"

section \<open>The invariant\<close>

definition bucket_ok :: "nodeid \<Rightarrow> nat \<Rightarrow> bucket \<Rightarrow> bool" where
  "bucket_ok self i b \<longleftrightarrow>
     length b \<le> K \<and> distinct (map ID b)
     \<and> (\<forall>n \<in> set b. valid_id (ID n) \<and> PrefixLen self (ID n) = i \<and> FailCount n < MaxFailures)"

definition table_ok :: "rtable \<Rightarrow> bool" where
  "table_ok rt \<longleftrightarrow>
     valid_id (rt_self rt) \<and> length (rt_buckets rt) = 160
     \<and> (\<forall>i < 160. bucket_ok (rt_self rt) i (rt_buckets rt ! i))"

definition node_ok :: "node \<Rightarrow> bool" where
  "node_ok n \<longleftrightarrow> valid_id (ID n) \<and> FailCount n < MaxFailures"

definition has_node :: "rtable \<Rightarrow> node \<Rightarrow> bool" where
  "has_node rt n \<longleftrightarrow> n \<in> set (Snapshot rt)"

lemma find_index_Some:
  "find_index P xs = Some i \<Longrightarrow> i < length xs \<and> P (xs ! i) \<and> (\<forall>j < i. \<not> P (xs ! j))"
  by (induction P xs arbitrary: i rule: find_index.induct)
    (auto split: if_splits simp: less_Suc_eq_0_disj)

lemma find_index_None: "find_index P xs = None \<longleftrightarrow> (\<forall>x \<in> set xs. \<not> P x)"
  by (induction P xs rule: find_index.induct) auto

lemma length_remove_at [simp]: "i < length xs \<Longrightarrow> length (remove_at i xs) = length xs - 1"
  by (simp add: remove_at_def)

lemma set_remove_at_subset: "set (remove_at i xs) \<subseteq> set xs"
  by (auto simp: remove_at_def dest: in_set_takeD in_set_dropD)

lemma mset_remove_at: "i < length xs \<Longrightarrow> set xs = insert (xs ! i) (set (remove_at i xs))"
  by (metis id_take_nth_drop list.simps(15) remove_at_def set_append Suc_eq_plus1 Un_insert_right)

lemma map_remove_at: "map f (remove_at i xs) = remove_at i (map f xs)"
  by (simp add: remove_at_def take_map drop_map)

lemma remove_at_distinct:
  assumes "distinct xs" "i < length xs"
  shows "distinct (remove_at i xs) \<and> xs ! i \<notin> set (remove_at i xs)"
proof -
  have "distinct (take i xs @ xs ! i # drop (i + 1) xs)"
    using assms by (simp add: id_take_nth_drop [symmetric])
  then show ?thesis by (auto simp: remove_at_def)
qed

lemma bucket_ok_remove_at: "bucket_ok s i b \<Longrightarrow> j < length b \<Longrightarrow> bucket_ok s i (remove_at j b)"
  using remove_at_distinct [of "map ID b" j] set_remove_at_subset [of j b]
  by (auto simp: bucket_ok_def map_remove_at)

lemma bucket_ok_snoc:
  "bucket_ok s i b \<Longrightarrow> length b < K \<Longrightarrow> node_ok n \<Longrightarrow> PrefixLen s (ID n) = i
    \<Longrightarrow> ID n \<notin> ID ` set b \<Longrightarrow> bucket_ok s i (b @ [n])"
  by (auto simp: bucket_ok_def node_ok_def)

lemma bucket_ok_upd:
  assumes "bucket_ok s i b" "j < length b" "ID n = ID (b ! j)" "FailCount n < MaxFailures"
  shows "bucket_ok s i (b[j := n])"
proof -
  have "map ID (b[j := n]) = map ID b"
    using assms by (metis list_update_id map_update)
  moreover have "valid_id (ID n) \<and> PrefixLen s (ID n) = i"
    using assms nth_mem by (auto simp: bucket_ok_def)
  ultimately show ?thesis
    using assms by (auto simp: bucket_ok_def dest!: set_update_subset_insert [THEN subsetD])
qed

section \<open>Every operation keeps the invariant\<close>

text \<open>
  What an insertion does to a bucket, case by case: the only ways it can end.
\<close>

lemma Bucket_Insert_cases:
  assumes "Bucket_Insert b n = (b', r, ok)"
  obtains (refreshed) j where "j < length b" "ID (b ! j) = ID n" "b' = remove_at j b @ [n]"
      "r = None" "ok"
    | (appended) "ID n \<notin> ID ` set b" "length b \<noteq> K" "b' = b @ [n]" "r = None" "ok"
    | (evicted) j where "ID n \<notin> ID ` set b" "length b = K" "Compliant n" "j < length b"
        "\<not> Compliant (b ! j)" "\<forall>k < j. Compliant (b ! k)" "b' = remove_at j b @ [n]" "r = None" "ok"
    | (rejected) "ID n \<notin> ID ` set b" "length b = K" "Compliant n \<longrightarrow> list_all Compliant b"
        "b' = b" "r = Some (b ! 0)" "\<not> ok"
proof (cases "find_index (\<lambda>m. ID m = ID n) b")
  case (Some j)
  from find_index_Some [OF this] have "j < length b" "ID (b ! j) = ID n" by auto
  with assms Some show ?thesis by (intro refreshed) (auto simp: Bucket_Insert_def split: if_splits)
next
  case None
  then have fresh: "ID n \<notin> ID ` set b" unfolding find_index_None by force
  show ?thesis
  proof (cases "length b = K")
    case False
    with assms None fresh show ?thesis by (intro appended) (auto simp: Bucket_Insert_def)
  next
    case full: True
    show ?thesis
    proof (cases "if Compliant n then find_index (\<lambda>m. \<not> Compliant m) b else None")
      case (Some j)
      then have "Compliant n" and j: "find_index (\<lambda>m. \<not> Compliant m) b = Some j"
        by (auto split: if_splits)
      with find_index_Some [OF j] assms None fresh full show ?thesis
        by (intro evicted [of j]) (auto simp: Bucket_Insert_def)
    next
      case none: None
      then have "Compliant n \<longrightarrow> list_all Compliant b"
        by (auto simp: find_index_None list_all_iff)
      with none assms None fresh full show ?thesis
        by (intro rejected) (auto simp: Bucket_Insert_def split: if_splits)
    qed
  qed
qed

lemma K_pos: "0 < K"
  by (simp add: K_def)

lemma bucket_ok_replace:
  assumes "bucket_ok s i b" "j < length b" "node_ok n" "PrefixLen s (ID n) = i"
    and "ID n \<notin> ID ` set (remove_at j b)"
  shows "bucket_ok s i (remove_at j b @ [n])"
proof (rule bucket_ok_snoc [OF bucket_ok_remove_at [OF assms(1,2)] _ assms(3,4,5)])
  show "length (remove_at j b) < K" using assms(1,2) by (auto simp: bucket_ok_def)
qed

lemma Bucket_Insert_ok [wf_intros]:
  assumes "bucket_ok s i b" "node_ok n" "PrefixLen s (ID n) = i" "Bucket_Insert b n = (b', r, ok)"
  shows "bucket_ok s i b'"
  using assms(4)
proof (cases rule: Bucket_Insert_cases)
  case (refreshed j)
  have "ID n \<notin> ID ` set (remove_at j b)"
    using remove_at_distinct [of "map ID b" j] refreshed assms(1)
    by (auto simp: bucket_ok_def simp flip: map_remove_at)
  with assms refreshed show ?thesis by (simp add: bucket_ok_replace)
next
  case appended
  with assms(1) have "length b < K" by (simp add: bucket_ok_def)
  with assms appended show ?thesis by (simp add: bucket_ok_snoc)
next
  case (evicted j)
  then have "ID n \<notin> ID ` set (remove_at j b)" using set_remove_at_subset [of j b] by auto
  with assms evicted show ?thesis by (simp add: bucket_ok_replace)
next
  case rejected
  with assms show ?thesis by simp
qed

lemma Bucket_Remove_ok [wf_intros]: "bucket_ok s i b \<Longrightarrow> bucket_ok s i (fst (Bucket_Remove b x))"
  by (auto simp: Bucket_Remove_def bucket_ok_remove_at dest: find_index_Some split: option.splits)

lemma table_ok_update:
  "table_ok rt \<Longrightarrow> i < 160 \<Longrightarrow> bucket_ok (rt_self rt) i b
    \<Longrightarrow> table_ok (rt\<lparr>rt_buckets := (rt_buckets rt)[i := b]\<rparr>)"
  by (auto simp: table_ok_def nth_list_update)

lemma table_ok_bucket: "table_ok rt \<Longrightarrow> i < 160 \<Longrightarrow> bucket_ok (rt_self rt) i (rt_buckets rt ! i)"
  by (simp add: table_ok_def)

text \<open>The operations that only touch the bucket of an identifier share this shape.\<close>

definition on_bucket :: "rtable \<Rightarrow> nodeid \<Rightarrow> (bucket \<Rightarrow> bucket) \<Rightarrow> rtable" where
  "on_bucket rt x f =
     (let i = PrefixLen (rt_self rt) x
      in if i \<ge> 160 then rt
         else rt\<lparr>rt_buckets := (rt_buckets rt)[i := f (rt_buckets rt ! i)]\<rparr>)"

lemma on_bucket_ok:
  assumes "table_ok rt"
    and "\<And>b. PrefixLen (rt_self rt) x < 160 \<Longrightarrow> bucket_ok (rt_self rt) (PrefixLen (rt_self rt) x) b
      \<Longrightarrow> bucket_ok (rt_self rt) (PrefixLen (rt_self rt) x) (f b)"
  shows "table_ok (on_bucket rt x f)"
  using assms by (auto simp: on_bucket_def Let_def not_le intro!: table_ok_update table_ok_bucket)

lemma Table_Insert_on_bucket:
  "fst (Table_Insert rt n) = on_bucket rt (ID n) (\<lambda>b. fst (Bucket_Insert b n))"
  by (simp add: Table_Insert_def on_bucket_def Let_def split: prod.split)

lemma Table_Remove_on_bucket:
  "fst (Table_Remove rt x) = on_bucket rt x (\<lambda>b. fst (Bucket_Remove b x))"
  by (simp add: Table_Remove_def on_bucket_def Let_def split: prod.split)

definition fail_bucket :: "nodeid \<Rightarrow> bucket \<Rightarrow> bucket" where
  "fail_bucket x b =
     (case find_index (\<lambda>n. ID n = x) b of
        None \<Rightarrow> b
      | Some j \<Rightarrow>
          (let n = (b ! j)\<lparr>FailCount := FailCount (b ! j) + 1\<rparr>
           in if FailCount n \<ge> MaxFailures then fst (Bucket_Remove (b[j := n]) x) else b[j := n]))"

definition success_bucket :: "int \<Rightarrow> nodeid \<Rightarrow> bucket \<Rightarrow> bucket" where
  "success_bucket now x b =
     (case find_index (\<lambda>n. ID n = x) b of
        None \<Rightarrow> b
      | Some j \<Rightarrow> b[j := (b ! j)\<lparr>FailCount := 0, LastSeen := now\<rparr>])"

lemma RecordFailure_on_bucket: "fst (RecordFailure rt x) = on_bucket rt x (fail_bucket x)"
  by (simp add: RecordFailure_def on_bucket_def fail_bucket_def Let_def split: option.split)

lemma RecordSuccess_on_bucket: "RecordSuccess now rt x = on_bucket rt x (success_bucket now x)"
  by (simp add: RecordSuccess_def on_bucket_def success_bucket_def Let_def split: option.split)

lemma find_index_upd:
  "find_index P b = Some j \<Longrightarrow> P y \<Longrightarrow> find_index P (b[j := y]) = Some j"
  by (induction P b arbitrary: j rule: find_index.induct) (auto split: if_splits)

lemma remove_at_upd [simp]: "remove_at j (b[j := y]) = remove_at j b"
  by (simp add: remove_at_def)

text \<open>A failure removes the node when its count reaches the limit and counts it otherwise.\<close>

lemma fail_bucket_eq:
  "fail_bucket x b =
     (case find_index (\<lambda>n. ID n = x) b of
        None \<Rightarrow> b
      | Some j \<Rightarrow> if FailCount (b ! j) + 1 \<ge> MaxFailures then remove_at j b
                  else b[j := (b ! j)\<lparr>FailCount := FailCount (b ! j) + 1\<rparr>])"
  by (auto simp: fail_bucket_def Bucket_Remove_def Let_def split: option.splits
      dest: find_index_Some) (metis (mono_tags, lifting) find_index_Some find_index_upd node.select_convs(1)
      node.surjective node.update_convs(5) option.distinct(1) option.inject remove_at_upd)+

lemma fail_bucket_ok: "bucket_ok s i b \<Longrightarrow> bucket_ok s i (fail_bucket x b)"
  by (auto simp: fail_bucket_eq split: option.splits
      intro!: bucket_ok_remove_at bucket_ok_upd dest!: find_index_Some)

lemma success_bucket_ok: "bucket_ok s i b \<Longrightarrow> bucket_ok s i (success_bucket now x b)"
  by (auto simp: success_bucket_def MaxFailures_def split: option.splits
      intro!: bucket_ok_upd dest!: find_index_Some)

lemma NewRoutingTable_ok [wf_intros]: "valid_id s \<Longrightarrow> table_ok (NewRoutingTable s)"
  by (simp add: table_ok_def NewRoutingTable_def NewBucket_def bucket_ok_def)

lemma Table_Insert_ok [wf_intros]:
  assumes "table_ok rt" "node_ok n"
  shows "table_ok (fst (Table_Insert rt n))"
  unfolding Table_Insert_on_bucket using assms
  by (auto intro!: on_bucket_ok intro: Bucket_Insert_ok [OF _ _ refl] simp: prod_eq_iff)

lemma Table_Remove_ok [wf_intros]: "table_ok rt \<Longrightarrow> table_ok (fst (Table_Remove rt x))"
  unfolding Table_Remove_on_bucket by (simp add: on_bucket_ok Bucket_Remove_ok)

lemma RecordFailure_ok [wf_intros]: "table_ok rt \<Longrightarrow> table_ok (fst (RecordFailure rt x))"
  unfolding RecordFailure_on_bucket by (simp add: on_bucket_ok fail_bucket_ok)

lemma RecordSuccess_ok [wf_intros]: "table_ok rt \<Longrightarrow> table_ok (RecordSuccess now rt x)"
  unfolding RecordSuccess_on_bucket by (simp add: on_bucket_ok success_bucket_ok)

section \<open>The nodes of a table\<close>

definition own_bucket :: "rtable \<Rightarrow> nodeid \<Rightarrow> bucket" where
  "own_bucket rt x = rt_buckets rt ! PrefixLen (rt_self rt) x"

lemma in_Snapshot:
  "table_ok rt \<Longrightarrow> n \<in> set (Snapshot rt) \<longleftrightarrow> (\<exists>i < 160. n \<in> set (rt_buckets rt ! i))"
  by (auto simp: Snapshot_def table_ok_def in_set_conv_nth) (metis in_set_conv_nth nth_mem)+

lemma in_bucket:
  "table_ok rt \<Longrightarrow> i < 160 \<Longrightarrow> n \<in> set (rt_buckets rt ! i)
    \<Longrightarrow> valid_id (ID n) \<and> PrefixLen (rt_self rt) (ID n) = i \<and> FailCount n < MaxFailures"
  by (auto dest!: table_ok_bucket simp: bucket_ok_def)

lemma has_node_own:
  "table_ok rt \<Longrightarrow> has_node rt n \<longleftrightarrow> PrefixLen (rt_self rt) (ID n) < 160 \<and> n \<in> set (own_bucket rt (ID n))"
  unfolding has_node_def own_bucket_def by (auto simp: in_Snapshot dest: in_bucket)

lemma has_node_ok: "table_ok rt \<Longrightarrow> has_node rt n \<Longrightarrow> node_ok n"
  by (auto simp: has_node_own own_bucket_def node_ok_def dest: in_bucket)

lemma own_bucket_ok:
  "table_ok rt \<Longrightarrow> PrefixLen (rt_self rt) x < 160
    \<Longrightarrow> bucket_ok (rt_self rt) (PrefixLen (rt_self rt) x) (own_bucket rt x)"
  by (simp add: own_bucket_def table_ok_bucket)

lemma rt_self_on_bucket [simp]: "rt_self (on_bucket rt x f) = rt_self rt"
  by (simp add: on_bucket_def Let_def)

lemma own_bucket_on_bucket:
  "table_ok rt \<Longrightarrow> PrefixLen (rt_self rt) x < 160 \<Longrightarrow> PrefixLen (rt_self rt) y < 160 \<Longrightarrow>
    own_bucket (on_bucket rt x f) y =
      (if PrefixLen (rt_self rt) y = PrefixLen (rt_self rt) x then f (own_bucket rt x) else own_bucket rt y)"
  by (simp add: own_bucket_def on_bucket_def Let_def table_ok_def nth_list_update)

lemma has_node_on_bucket:
  assumes "table_ok rt" "table_ok (on_bucket rt x f)" "PrefixLen (rt_self rt) x < 160"
    and "set (f (own_bucket rt x)) = (set (own_bucket rt x) - gone) \<union> new"
    and "gone \<subseteq> set (own_bucket rt x)" "\<And>n. n \<in> new \<Longrightarrow> PrefixLen (rt_self rt) (ID n) = PrefixLen (rt_self rt) x"
  shows "has_node (on_bucket rt x f) n \<longleftrightarrow> (has_node rt n \<and> n \<notin> gone) \<or> n \<in> new"
proof -
  have gone: "PrefixLen (rt_self rt) (ID m) = PrefixLen (rt_self rt) x" if "m \<in> gone" for m
    using assms(1,3,5) that in_bucket by (auto simp: own_bucket_def)
  show ?thesis
  proof (cases "PrefixLen (rt_self rt) (ID n) = PrefixLen (rt_self rt) x")
    case True
    with assms(3,4) show ?thesis
      by (auto simp: has_node_own [OF assms(1)] has_node_own [OF assms(2)] own_bucket_on_bucket [OF assms(1)])
        (auto simp: own_bucket_def)
  next
    case False
    with gone assms(6) [of n] have "n \<notin> gone" "n \<notin> new" by blast+
    with False assms(3) show ?thesis
      by (auto simp: has_node_own [OF assms(1)] has_node_own [OF assms(2)] own_bucket_on_bucket [OF assms(1)])
  qed
qed

lemma bucket_ok_distinct: "bucket_ok s i b \<Longrightarrow> distinct (map ID b)"
  by (simp add: bucket_ok_def)

lemma distinct_ids_same:
  "distinct (map ID b) \<Longrightarrow> m \<in> set b \<Longrightarrow> n \<in> set b \<Longrightarrow> ID m = ID n \<Longrightarrow> m = n"
  by (simp add: distinct_map inj_on_def)

lemma has_node_unique: "table_ok rt \<Longrightarrow> has_node rt m \<Longrightarrow> has_node rt n \<Longrightarrow> ID m = ID n \<Longrightarrow> m = n"
proof -
  assume t: "table_ok rt" "has_node rt m" "has_node rt n" "ID m = ID n"
  then have "distinct (map ID (own_bucket rt (ID n)))"
    using own_bucket_ok [of rt "ID n"] by (auto simp: has_node_own dest: bucket_ok_distinct)
  then show "m = n"
    using t has_node_own [of rt m] has_node_own [of rt n] by (auto intro: distinct_ids_same)
qed

section \<open>Reachable tables\<close>

text \<open>One table operation, whichever of them, with its arguments.\<close>

inductive table_step :: "rtable \<Rightarrow> rtable \<Rightarrow> bool" where
  insert: "node_ok n \<Longrightarrow> table_step rt (fst (Table_Insert rt n))"
| remove: "table_step rt (fst (Table_Remove rt x))"
| failure: "table_step rt (fst (RecordFailure rt x))"
| success: "table_step rt (RecordSuccess now rt x)"

inductive table_reachable :: "nodeid \<Rightarrow> rtable \<Rightarrow> bool" for self where
  new: "valid_id self \<Longrightarrow> table_reachable self (NewRoutingTable self)"
| step: "table_reachable self rt \<Longrightarrow> table_step rt rt' \<Longrightarrow> table_reachable self rt'"

inductive_cases table_stepE: "table_step rt rt'"

lemma rt_self_ops [simp]:
  "rt_self (fst (Table_Insert rt n)) = rt_self rt" "rt_self (fst (Table_Remove rt x)) = rt_self rt"
  "rt_self (fst (RecordFailure rt x)) = rt_self rt" "rt_self (RecordSuccess now rt x) = rt_self rt"
  by (simp_all add: Table_Insert_on_bucket Table_Remove_on_bucket RecordFailure_on_bucket
      RecordSuccess_on_bucket)

lemma table_step_ok: "table_step rt rt' \<Longrightarrow> table_ok rt \<Longrightarrow> table_ok rt' \<and> rt_self rt' = rt_self rt"
  by (induction rule: table_step.induct) (simp_all add: wf_intros)

lemma table_reachable_ok: "table_reachable self rt \<Longrightarrow> table_ok rt \<and> rt_self rt = self"
proof (induction rule: table_reachable.induct)
  case new
  then show ?case by (auto intro: wf_intros) (simp add: NewRoutingTable_def)
next
  case (step rt rt')
  then show ?case using table_step_ok by auto
qed

lemma NumNodes_Snapshot: "NumNodes rt = length (Snapshot rt)"
  by (simp add: NumNodes_def Snapshot_def length_concat)

lemma NumNodes_bound: "table_ok rt \<Longrightarrow> NumNodes rt \<le> 160 * K"
proof -
  assume t: "table_ok rt"
  then have "\<forall>b \<in> set (rt_buckets rt). length b \<le> K"
    by (auto simp: table_ok_def bucket_ok_def in_set_conv_nth)
  then have "sum_list (map length bs) \<le> length bs * K" if "set bs \<subseteq> set (rt_buckets rt)" for bs
    using that by (induction bs) fastforce+
  from this [OF order_refl] t show ?thesis by (simp add: NumNodes_def table_ok_def)
qed

lemma distinct_concat_ids:
  assumes "\<And>i. i < length bs \<Longrightarrow> distinct (map ID (bs ! i))"
    and "\<And>i n. i < length bs \<Longrightarrow> n \<in> set (bs ! i) \<Longrightarrow> f (ID n) = i"
    and "distinct is" "set is \<subseteq> {..<length bs}"
  shows "distinct (map ID (concat (map ((!) bs) is)))"
  using assms(3,4)
proof (induction "is")
  case (Cons i js)
  have "ID m \<noteq> ID n" if "m \<in> set (bs ! i)" "j \<in> set js" "n \<in> set (bs ! j)" for m n j
    using assms(2) [of i m] assms(2) [of j n] that Cons.prems by auto
  with Cons assms(1) [of i] show ?case by (fastforce simp: comp_def)
qed simp

lemma Snapshot_distinct: "table_ok rt \<Longrightarrow> distinct (map ID (Snapshot rt))"
proof -
  assume t: "table_ok rt"
  have "distinct (map ID (concat (map ((!) (rt_buckets rt)) [0..<length (rt_buckets rt)])))"
    using t by (intro distinct_concat_ids [where f = "PrefixLen (rt_self rt)"])
      (auto simp: table_ok_def bucket_ok_def)
  then show ?thesis by (simp add: Snapshot_def map_nth)
qed

section \<open>The candidates of a lookup\<close>

text \<open>
  The loop appends whole buckets, each at most once and none twice, and stops only with
  enough candidates or with all buckets visited.
\<close>

lemma gather_visits:
  assumes "l < 160" "l < int r" "length bs = 160"
  shows "\<exists>js. gather bs count l r cand = cand @ concat (map ((!) bs) js) \<and> distinct js
    \<and> set js \<subseteq> {..<nat (l + 1)} \<union> {r..<160}
    \<and> (count \<le> length (gather bs count l r cand) \<or> set js = {..<nat (l + 1)} \<union> {r..<160})"
  using assms
proof (induction bs count l r cand rule: gather.induct)
  case (1 bs count l r cand)
  show ?case
  proof (cases "length cand < count \<and> (l \<ge> 0 \<or> r < 160)")
    case False
    then have *: "gather bs count l r cand = cand" by (subst gather.simps) auto
    show ?thesis
    proof (intro exI [of _ "[]"])
      show "gather bs count l r cand = cand @ concat (map ((!) bs) []) \<and> distinct []
        \<and> set [] \<subseteq> {..<nat (l + 1)} \<union> {r..<160}
        \<and> (count \<le> length (gather bs count l r cand) \<or> set [] = {..<nat (l + 1)} \<union> {r..<160})"
        using False by (auto simp: *)
    qed
  next
    case True
    define hs where "hs = (if l \<ge> 0 then [nat l] else []) @ (if r < 160 then [r] else [])"
    define l1 where "l1 = (if l \<ge> 0 then l - 1 else l)"
    define r1 where "r1 = (if r < 160 then r + 1 else r)"
    define c1 where "c1 = cand @ concat (map ((!) bs) hs)"
    have step: "gather bs count l r cand = gather bs count l1 r1 c1"
      using True by (subst gather.simps) (auto simp: l1_def r1_def c1_def hs_def Let_def)
    have "\<exists>js. gather bs count l1 r1 c1 = c1 @ concat (map ((!) bs) js) \<and> distinct js
        \<and> set js \<subseteq> {..<nat (l1 + 1)} \<union> {r1..<160}
        \<and> (count \<le> length (gather bs count l1 r1 c1) \<or> set js = {..<nat (l1 + 1)} \<union> {r1..<160})"
      using "1.IH" [OF True refl refl refl refl] "1.prems"
      by (auto simp: l1_def r1_def c1_def hs_def)
    then obtain js where js: "gather bs count l1 r1 c1 = c1 @ concat (map ((!) bs) js)" "distinct js"
        "set js \<subseteq> {..<nat (l1 + 1)} \<union> {r1..<160}"
        "count \<le> length (gather bs count l1 r1 c1) \<or> set js = {..<nat (l1 + 1)} \<union> {r1..<160}"
      by blast
    have split: "{..<nat (l + 1)} \<union> {r..<160} = set hs \<union> ({..<nat (l1 + 1)} \<union> {r1..<160})"
      using "1.prems" by (auto simp: hs_def l1_def r1_def)
    have disj: "set hs \<inter> ({..<nat (l1 + 1)} \<union> {r1..<160}) = {}" "distinct hs"
      using "1.prems" by (auto simp: hs_def l1_def r1_def)
    show ?thesis
    proof (intro exI [of _ "hs @ js"] conjI)
      show "gather bs count l r cand = cand @ concat (map ((!) bs) (hs @ js))"
        unfolding step js(1) by (simp add: c1_def)
      show "distinct (hs @ js)" using disj js(2,3) by auto
      show "set (hs @ js) \<subseteq> {..<nat (l + 1)} \<union> {r..<160}" unfolding split using js(3) by auto
      show "count \<le> length (gather bs count l r cand) \<or> set (hs @ js) = {..<nat (l + 1)} \<union> {r..<160}"
        unfolding split step using js(4) by auto
    qed
  qed
qed

definition start_index :: "rtable \<Rightarrow> nodeid \<Rightarrow> nat" where
  "start_index rt target =
     (if PrefixLen (rt_self rt) target \<ge> 160 then 159 else PrefixLen (rt_self rt) target)"

lemma candidates_visit:
  assumes "table_ok rt"
  shows "\<exists>js. candidates_for rt target count = concat (map ((!) (rt_buckets rt)) (start_index rt target # js))
    \<and> distinct (start_index rt target # js) \<and> set js \<subseteq> {..<160}
    \<and> (count \<le> length (candidates_for rt target count) \<or> set (start_index rt target # js) = {..<160})"
proof -
  let ?i = "start_index rt target"
  have i: "?i < 160" by (simp add: start_index_def)
  have c: "candidates_for rt target count
      = gather (rt_buckets rt) count (int ?i - 1) (?i + 1) (rt_buckets rt ! ?i)"
    by (simp add: candidates_for_def start_index_def Let_def)
  have "int ?i - 1 < 160" "int ?i - 1 < int (?i + 1)" "length (rt_buckets rt) = 160"
    using i assms by (auto simp: table_ok_def)
  from gather_visits [OF this, of count "rt_buckets rt ! ?i"] obtain js where
    js: "candidates_for rt target count = rt_buckets rt ! ?i @ concat (map ((!) (rt_buckets rt)) js)"
      "distinct js" "set js \<subseteq> {..<?i} \<union> {?i + 1..<160}"
      "count \<le> length (candidates_for rt target count) \<or> set js = {..<?i} \<union> {?i + 1..<160}"
    unfolding c by auto
  have "insert ?i ({..<?i} \<union> {?i + 1..<160}) = {..<160}" using i by auto
  with js i show ?thesis by (intro exI [of _ js]) auto
qed

lemma candidates_distinct:
  assumes t: "table_ok rt"
  shows "distinct (map ID (candidates_for rt target count))"
proof -
  from candidates_visit [OF t] obtain js where
    js: "candidates_for rt target count = concat (map ((!) (rt_buckets rt)) (start_index rt target # js))"
      "distinct (start_index rt target # js)" "set js \<subseteq> {..<160}" by blast
  show ?thesis unfolding js(1) using t js(2,3)
    by (intro distinct_concat_ids [where f = "PrefixLen (rt_self rt)"])
      (auto simp: table_ok_def bucket_ok_def start_index_def)
qed

lemma candidates_subset:
  assumes t: "table_ok rt"
  shows "set (candidates_for rt target count) \<subseteq> set (Snapshot rt)"
proof -
  from candidates_visit [OF t, of target count] obtain js where
    js: "candidates_for rt target count = concat (map ((!) (rt_buckets rt)) (start_index rt target # js))"
      "set js \<subseteq> {..<160}" by blast
  have "start_index rt target < 160" by (simp add: start_index_def)
  with js(2) have "set (start_index rt target # js) \<subseteq> {..<160}" by auto
  then have "\<exists>i < 160. n \<in> set (rt_buckets rt ! i)" if "n \<in> set (candidates_for rt target count)" for n
    using that unfolding js(1) set_concat set_map by blast
  then show ?thesis using in_Snapshot [OF t] by blast
qed

lemma candidates_enough:
  assumes t: "table_ok rt"
  shows "min count (length (candidates_for rt target count)) = min count (NumNodes rt)"
proof -
  let ?c = "candidates_for rt target count"
  have d: "distinct ?c" "distinct (Snapshot rt)"
    using candidates_distinct [OF t] Snapshot_distinct [OF t] by (auto simp: distinct_map)
  have le: "length ?c \<le> NumNodes rt"
    using d candidates_subset [OF t] unfolding NumNodes_Snapshot
    by (metis List.finite_set card_mono distinct_card)
  from candidates_visit [OF t, of target count] obtain js where
    js: "?c = concat (map ((!) (rt_buckets rt)) (start_index rt target # js))"
      "count \<le> length ?c \<or> set (start_index rt target # js) = {..<160}" by blast
  from js(2) show ?thesis
  proof
    assume "count \<le> length ?c"
    with le show ?thesis by simp
  next
    assume all: "set (start_index rt target # js) = {..<160}"
    have "set ?c = (\<Union>i \<in> set (start_index rt target # js). set (rt_buckets rt ! i))"
      unfolding js(1) set_concat set_map by blast
    also have "\<dots> = set (Snapshot rt)"
      unfolding all using in_Snapshot [OF t] by blast
    finally have "set ?c = set (Snapshot rt)" .
    with d have "length ?c = NumNodes rt" unfolding NumNodes_Snapshot by (metis distinct_card)
    then show ?thesis by simp
  qed
qed

section \<open>The effect of the operations on the set of nodes\<close>

lemma own_bucket_full: "table_ok rt \<Longrightarrow> PrefixLen (rt_self rt) x < 160 \<Longrightarrow> length (own_bucket rt x) \<le> K"
  using own_bucket_ok [of rt x] by (simp add: bucket_ok_def)

lemma in_own_bucket:
  "table_ok rt \<Longrightarrow> PrefixLen (rt_self rt) x < 160 \<Longrightarrow> n \<in> set (own_bucket rt x)
    \<Longrightarrow> PrefixLen (rt_self rt) (ID n) = PrefixLen (rt_self rt) x \<and> has_node rt n"
  by (metis has_node_own in_bucket own_bucket_def)

lemma set_Snapshot: "set (Snapshot rt) = {n. has_node rt n}"
  by (auto simp: has_node_def)

lemma has_node_id_own:
  assumes "table_ok rt" "PrefixLen (rt_self rt) x < 160"
  shows "x \<in> ID ` set (own_bucket rt x) \<longleftrightarrow> (\<exists>m. has_node rt m \<and> ID m = x)"
  using assms has_node_own [OF assms(1)] by auto

lemma not_self: "table_ok rt \<Longrightarrow> valid_id x \<Longrightarrow> PrefixLen (rt_self rt) x < 160 \<longleftrightarrow> x \<noteq> rt_self rt"
  using PrefixLen_160 [of "rt_self rt" x] by (auto simp: table_ok_def not_le [symmetric])

lemma Table_Insert_bucket:
  assumes "PrefixLen (rt_self rt) (ID n) < 160" "Bucket_Insert (own_bucket rt (ID n)) n = (b', r, ok)"
  shows "snd (Table_Insert rt n) = (r, ok)"
  using assms by (simp add: Table_Insert_def own_bucket_def)

text \<open>Replacing \<open>old\<close> by \<open>n\<close> in the bucket of \<open>n\<close> does just that to the nodes of the table.\<close>

lemma Table_Insert_nodes:
  assumes t: "table_ok rt" "node_ok n" "PrefixLen (rt_self rt) (ID n) < 160"
    and b: "set (fst (Bucket_Insert (own_bucket rt (ID n)) n)) = insert n (set (own_bucket rt (ID n)) - gone)"
    and g: "gone \<subseteq> set (own_bucket rt (ID n))"
  shows "set (Snapshot (fst (Table_Insert rt n))) = insert n (set (Snapshot rt) - gone)"
proof -
  have ok: "table_ok (on_bucket rt (ID n) (\<lambda>b. fst (Bucket_Insert b n)))"
    using Table_Insert_ok [OF t(1,2)] by (simp add: Table_Insert_on_bucket)
  show ?thesis
    unfolding set_Snapshot Table_Insert_on_bucket
    using has_node_on_bucket [OF t(1) ok t(3), of gone "{n}"] b g by auto
qed

lemma set_remove_at:
  assumes "distinct xs" "j < length xs"
  shows "set (remove_at j xs) = set xs - {xs ! j}"
  using remove_at_distinct [OF assms] mset_remove_at [OF assms(2)] by auto

lemma set_replaced:
  "bucket_ok s i b \<Longrightarrow> j < length b \<Longrightarrow> set (remove_at j b @ [n]) = insert n (set b - {b ! j})"
  using set_remove_at [of b j] bucket_ok_distinct [of s i b] by (auto simp: distinct_map)

lemma Table_Insert_refresh:
  assumes t: "table_ok rt" "node_ok n" "has_node rt old" "ID old = ID n"
  shows "snd (Table_Insert rt n) = (None, True)
    \<and> set (Snapshot (fst (Table_Insert rt n))) = insert n (set (Snapshot rt) - {old})"
proof -
  have p: "PrefixLen (rt_self rt) (ID n) < 160" and old: "old \<in> set (own_bucket rt (ID n))"
    using t has_node_own [of rt old] by auto
  then have mem: "ID n \<in> ID ` set (own_bucket rt (ID n))" by (metis image_eqI t(4))
  note ok = own_bucket_ok [OF t(1) p]
  obtain b' r k where ins: "Bucket_Insert (own_bucket rt (ID n)) n = (b', r, k)" by (metis prod_cases3)
  from ins show ?thesis
  proof (cases rule: Bucket_Insert_cases)
    case (refreshed j)
    then have "own_bucket rt (ID n) ! j = old"
      using distinct_ids_same [OF bucket_ok_distinct [OF ok]] old t(4) nth_mem by fastforce
    with refreshed show ?thesis
      using Table_Insert_bucket [OF p ins] Table_Insert_nodes [OF t(1,2) p, of "{old}"]
        set_replaced [OF ok refreshed(1), of n] ins old by (simp add: prod_eq_iff)
  qed (use mem in auto)
qed

lemma Table_Insert_append:
  assumes t: "table_ok rt" "node_ok n" "ID n \<noteq> rt_self rt" "\<not> (\<exists>m. has_node rt m \<and> ID m = ID n)"
    and space: "length (own_bucket rt (ID n)) < K"
  shows "snd (Table_Insert rt n) = (None, True)
    \<and> set (Snapshot (fst (Table_Insert rt n))) = insert n (set (Snapshot rt))"
proof -
  have p: "PrefixLen (rt_self rt) (ID n) < 160" using t not_self [of rt "ID n"] by (simp add: node_ok_def)
  have fresh: "ID n \<notin> ID ` set (own_bucket rt (ID n))" using has_node_id_own [OF t(1) p] t(4) by blast
  obtain b' r k where ins: "Bucket_Insert (own_bucket rt (ID n)) n = (b', r, k)" by (metis prod_cases3)
  from ins show ?thesis
  proof (cases rule: Bucket_Insert_cases)
    case (refreshed j)
    with fresh show ?thesis by (metis image_eqI nth_mem)
  next
    case appended
    then show ?thesis
      using Table_Insert_bucket [OF p ins] Table_Insert_nodes [OF t(1,2) p, of "{}"] ins
      by (simp add: prod_eq_iff)
  qed (use space in auto)
qed

lemma Table_Insert_evict:
  assumes t: "table_ok rt" "node_ok n" "ID n \<noteq> rt_self rt" "\<not> (\<exists>m. has_node rt m \<and> ID m = ID n)"
    and full: "length (own_bucket rt (ID n)) = K" and c: "Compliant n"
    and j: "j < K" "\<not> Compliant (own_bucket rt (ID n) ! j)" "\<forall>k < j. Compliant (own_bucket rt (ID n) ! k)"
  shows "snd (Table_Insert rt n) = (None, True)
    \<and> set (Snapshot (fst (Table_Insert rt n))) = insert n (set (Snapshot rt) - {own_bucket rt (ID n) ! j})"
proof -
  have p: "PrefixLen (rt_self rt) (ID n) < 160" using t not_self [of rt "ID n"] by (simp add: node_ok_def)
  have fresh: "ID n \<notin> ID ` set (own_bucket rt (ID n))" using has_node_id_own [OF t(1) p] t(4) by blast
  note ok = own_bucket_ok [OF t(1) p]
  obtain b' r k where ins: "Bucket_Insert (own_bucket rt (ID n)) n = (b', r, k)" by (metis prod_cases3)
  from ins show ?thesis
  proof (cases rule: Bucket_Insert_cases)
    case (refreshed i)
    with fresh show ?thesis by (metis image_eqI nth_mem)
  next
    case (evicted i)
    then have "i = j" using j by (metis nat_neq_iff)
    with evicted show ?thesis
      using Table_Insert_bucket [OF p ins] Table_Insert_nodes [OF t(1,2) p, of "{own_bucket rt (ID n) ! j}"]
        set_replaced [OF ok evicted(4), of n] ins by (simp add: prod_eq_iff)
  qed (use full c j in \<open>auto simp: list_all_length\<close>)
qed

lemma Table_Insert_reject:
  assumes t: "table_ok rt" "node_ok n" "ID n \<noteq> rt_self rt" "\<not> (\<exists>m. has_node rt m \<and> ID m = ID n)"
    and full: "length (own_bucket rt (ID n)) = K" and c: "Compliant n \<longrightarrow> list_all Compliant (own_bucket rt (ID n))"
  shows "Table_Insert rt n = (rt, Some (own_bucket rt (ID n) ! 0), False)"
proof -
  have p: "PrefixLen (rt_self rt) (ID n) < 160" using t not_self [of rt "ID n"] by (simp add: node_ok_def)
  have fresh: "ID n \<notin> ID ` set (own_bucket rt (ID n))" using has_node_id_own [OF t(1) p] t(4) by blast
  obtain b' r k where ins: "Bucket_Insert (own_bucket rt (ID n)) n = (b', r, k)" by (metis prod_cases3)
  from ins show ?thesis
  proof (cases rule: Bucket_Insert_cases)
    case (refreshed i)
    with fresh show ?thesis by (metis image_eqI nth_mem)
  next
    case rejected
    then show ?thesis using ins p by (simp add: Table_Insert_def own_bucket_def)
  qed (use full c in \<open>auto simp: list_all_length\<close>)
qed

section \<open>Failures and successes\<close>

lemma find_own:
  assumes "table_ok rt" "has_node rt n"
  obtains j where "find_index (\<lambda>m. ID m = ID n) (own_bucket rt (ID n)) = Some j"
    "j < length (own_bucket rt (ID n))" "own_bucket rt (ID n) ! j = n"
proof -
  have n: "PrefixLen (rt_self rt) (ID n) < 160" "n \<in> set (own_bucket rt (ID n))"
    using assms has_node_own by auto
  then obtain j where j: "find_index (\<lambda>m. ID m = ID n) (own_bucket rt (ID n)) = Some j"
    using find_index_None [of "\<lambda>m. ID m = ID n"] by blast
  moreover have "own_bucket rt (ID n) ! j = n"
    using find_index_Some [OF j] distinct_ids_same [OF bucket_ok_distinct [OF own_bucket_ok [OF assms(1) n(1)]]] n(2)
    by auto
  ultimately show ?thesis using that find_index_Some [OF j] by blast
qed

lemma set_upd: "distinct xs \<Longrightarrow> j < length xs \<Longrightarrow> set (xs[j := y]) = insert y (set xs - {xs ! j})"
  by (simp add: set_update_distinct)

lemma has_node_upd:
  assumes t: "table_ok rt" "has_node rt n" "table_ok (on_bucket rt (ID n) f)"
    and f: "set (f (own_bucket rt (ID n))) = (set (own_bucket rt (ID n)) - {n}) \<union> new"
    and new: "\<And>m. m \<in> new \<Longrightarrow> ID m = ID n"
  shows "set (Snapshot (on_bucket rt (ID n) f)) = (set (Snapshot rt) - {n}) \<union> new"
proof -
  have n: "PrefixLen (rt_self rt) (ID n) < 160" "n \<in> set (own_bucket rt (ID n))"
    using assms has_node_own by auto
  then show ?thesis unfolding set_Snapshot
    using has_node_on_bucket [OF t(1,3) n(1) f] new by auto
qed

lemma own_distinct: "table_ok rt \<Longrightarrow> has_node rt n \<Longrightarrow> distinct (own_bucket rt (ID n))"
  by (metis bucket_ok_distinct distinct_map has_node_own own_bucket_ok)

lemma fail_nodes:
  assumes t: "table_ok rt" "has_node rt n"
  shows "RecordFailure rt (ID n) =
      (on_bucket rt (ID n) (fail_bucket (ID n)), FailCount n + 1 \<ge> MaxFailures)
    \<and> set (Snapshot (fst (RecordFailure rt (ID n)))) =
      (set (Snapshot rt) - {n}) \<union> (if FailCount n + 1 \<ge> MaxFailures then {} else {n\<lparr>FailCount := FailCount n + 1\<rparr>})"
proof -
  from find_own [OF t] obtain j where j: "find_index (\<lambda>m. ID m = ID n) (own_bucket rt (ID n)) = Some j"
    "j < length (own_bucket rt (ID n))" "own_bucket rt (ID n) ! j = n" .
  have p: "PrefixLen (rt_self rt) (ID n) < 160" using t has_node_own by blast
  have r: "RecordFailure rt (ID n) =
      (on_bucket rt (ID n) (fail_bucket (ID n)), FailCount n + 1 \<ge> MaxFailures)"
    using j p RecordFailure_on_bucket [of rt "ID n"]
    by (auto simp: prod_eq_iff RecordFailure_def own_bucket_def Let_def)
  have "set (fail_bucket (ID n) (own_bucket rt (ID n))) = (set (own_bucket rt (ID n)) - {n})
      \<union> (if FailCount n + 1 \<ge> MaxFailures then {} else {n\<lparr>FailCount := FailCount n + 1\<rparr>})"
    using j set_remove_at [OF own_distinct [OF t] j(2)] set_upd [OF own_distinct [OF t] j(2)]
    by (simp add: fail_bucket_eq)
  note upd = has_node_upd [OF t, of "fail_bucket (ID n)", OF _ this]
  have "table_ok (on_bucket rt (ID n) (fail_bucket (ID n)))"
    using RecordFailure_ok [OF t(1), of "ID n"] r by simp
  then have "set (Snapshot (on_bucket rt (ID n) (fail_bucket (ID n)))) =
      (set (Snapshot rt) - {n}) \<union> (if FailCount n + 1 \<ge> MaxFailures then {} else {n\<lparr>FailCount := FailCount n + 1\<rparr>})"
  proof (rule upd)
    fix m assume "m \<in> (if FailCount n + 1 \<ge> MaxFailures then {} else {n\<lparr>FailCount := FailCount n + 1\<rparr>})"
    then have "m = n\<lparr>FailCount := FailCount n + 1\<rparr>" by (simp split: if_splits)
    then show "ID m = ID n" by simp
  qed
  with r show ?thesis by (simp only: fst_conv)
qed

lemma success_nodes:
  assumes t: "table_ok rt" "has_node rt n"
  shows "set (Snapshot (RecordSuccess now rt (ID n))) =
      insert (n\<lparr>FailCount := 0, LastSeen := now\<rparr>) (set (Snapshot rt) - {n})"
proof -
  from find_own [OF t] obtain j where j: "find_index (\<lambda>m. ID m = ID n) (own_bucket rt (ID n)) = Some j"
    "j < length (own_bucket rt (ID n))" "own_bucket rt (ID n) ! j = n" .
  have "set (success_bucket now (ID n) (own_bucket rt (ID n))) = (set (own_bucket rt (ID n)) - {n})
      \<union> {n\<lparr>FailCount := 0, LastSeen := now\<rparr>}"
    using j set_upd [OF own_distinct [OF t] j(2)] by (simp add: success_bucket_def)
  note upd = has_node_upd [OF t, of "success_bucket now (ID n)", OF _ this]
  have "table_ok (on_bucket rt (ID n) (success_bucket now (ID n)))"
    using RecordSuccess_ok [OF t(1), of now "ID n"] by (simp add: RecordSuccess_on_bucket)
  from upd [OF this] have "set (Snapshot (on_bucket rt (ID n) (success_bucket now (ID n)))) =
      (set (Snapshot rt) - {n}) \<union> {n\<lparr>FailCount := 0, LastSeen := now\<rparr>}" by simp
  then show ?thesis unfolding RecordSuccess_on_bucket by simp
qed

text \<open>Consecutive failures of one node.\<close>

definition failures :: "nat \<Rightarrow> rtable \<Rightarrow> nodeid \<Rightarrow> rtable" where
  "failures k rt x = ((\<lambda>t. fst (RecordFailure t x)) ^^ k) rt"

lemma failures_ok: "table_ok rt \<Longrightarrow> table_ok (failures k rt x)"
  by (induction k) (simp_all add: failures_def RecordFailure_ok)

lemma failures_Suc: "failures (Suc k) rt x = fst (RecordFailure (failures k rt x) x)"
  by (simp add: failures_def)

lemma failures_counted:
  assumes t: "table_ok rt" "has_node rt n"
  shows "FailCount n + k < MaxFailures
    \<Longrightarrow> set (Snapshot (failures k rt (ID n))) = insert (n\<lparr>FailCount := FailCount n + k\<rparr>) (set (Snapshot rt) - {n})"
proof (induction k)
  case 0
  with t show ?case by (auto simp: failures_def has_node_def)
next
  case (Suc k)
  let ?m = "n\<lparr>FailCount := FailCount n + k\<rparr>"
  have s: "set (Snapshot (failures k rt (ID n))) = insert ?m (set (Snapshot rt) - {n})"
    using Suc by simp
  then have h: "has_node (failures k rt (ID n)) ?m" by (simp add: has_node_def)
  have u: "m = n" if "has_node rt m" "ID m = ID n" for m using has_node_unique [OF t(1) that(1) t(2) that(2)] .
  have "?m \<notin> set (Snapshot rt) - {n}" using u [of ?m] by (auto simp: has_node_def)
  then show ?case
    using fail_nodes [OF failures_ok [OF t(1)] h] s Suc.prems by (auto simp: failures_Suc)
qed

section \<open>Lookups\<close>

lemma sort_by_distance_simps [simp]:
  "set (sort_by_distance t ns) = set ns" "length (sort_by_distance t ns) = length ns"
  by (simp_all add: sort_by_distance_def)

lemma sorted_sort_by_distance: "sorted (map (\<lambda>n. Distance t (ID n)) (sort_by_distance t ns))"
  by (simp add: sort_by_distance_def)

lemma FindClosest_take: "FindClosest rt t k = take k (sort_by_distance t (candidates_for rt t k))"
  by (simp add: FindClosest_def Let_def)

text \<open>The sorted candidates split into the result and nodes that are further away.\<close>

lemma take_sorted_less:
  assumes "sorted (map f xs)" "distinct (map f xs)" "x \<in> set (take k xs)" "y \<in> set xs" "y \<notin> set (take k xs)"
  shows "(f x :: 'a :: linorder) < f y"
proof -
  have xs: "xs = take k xs @ drop k xs" by simp
  then have y: "y \<in> set (drop k xs)" using assms(4,5) by (metis UnE set_append)
  have "sorted (map f (take k xs) @ map f (drop k xs))" "distinct (map f (take k xs) @ map f (drop k xs))"
    using assms(1,2) by (metis map_append xs)+
  then have "f x \<le> f y" "f x \<noteq> f y" using y assms(3) by (auto simp: sorted_append)
  then show ?thesis by simp
qed

lemma Distance_distinct:
  assumes "valid_id t" "distinct (map ID ns)" "\<And>n. n \<in> set ns \<Longrightarrow> valid_id (ID n)"
  shows "distinct (map (\<lambda>n. Distance t (ID n)) ns)"
  using assms by (auto simp: distinct_map inj_on_def Distance_inj)

lemma sort_by_distance_distinct:
  "distinct (map (\<lambda>n. Distance t (ID n)) ns) \<Longrightarrow> distinct (map (\<lambda>n. Distance t (ID n)) (sort_by_distance t ns))"
  by (metis distinct_map distinct_sort set_sort sort_by_distance_def)

lemma gather_enough: "count \<le> length cand \<Longrightarrow> gather bs count l r cand = cand"
  by (subst gather.simps) simp

lemma candidates_own:
  assumes "PrefixLen (rt_self rt) t < 160" "count \<le> length (own_bucket rt t)"
  shows "candidates_for rt t count = own_bucket rt t"
  using assms by (simp add: candidates_for_def own_bucket_def Let_def gather_enough)

text \<open>Nodes of the target's own bucket are closer to it than those of any other bucket.\<close>

lemma own_closer:
  assumes t: "table_ok rt" "valid_id x" "PrefixLen (rt_self rt) x < 160"
    and m: "m \<in> set (own_bucket rt x)" and n: "has_node rt n" "n \<notin> set (own_bucket rt x)"
  shows "Distance x (ID m) < Distance x (ID n)"
proof -
  let ?s = "rt_self rt" and ?k = "PrefixLen (rt_self rt) x"
  have s: "valid_id ?s" using t by (simp add: table_ok_def)
  have m1: "PrefixLen ?s (ID m) = ?k" "has_node rt m" using in_own_bucket [OF t(1,3) m] by auto
  have v: "valid_id (ID m)" "valid_id (ID n)"
    using has_node_ok [OF t(1) m1(2)] has_node_ok [OF t(1) n(1)] by (simp_all add: node_ok_def)
  have n1: "PrefixLen ?s (ID n) \<noteq> ?k" "PrefixLen ?s (ID n) < 160"
    using n has_node_own [OF t(1)] by (auto simp: own_bucket_def)
  have near: "id_val (Distance x (ID m)) < 2 ^ (160 - 1 - ?k)"
    using ids.same_prefix_closer [OF s t(2) v(1) refl m1(1) t(3)] .
  have far: "2 ^ (160 - 1 - ?k) \<le> id_val (Distance x (ID n))"
  proof (cases "PrefixLen ?s (ID n) < ?k")
    case True
    then have "2 ^ (160 - 1 - PrefixLen ?s (ID n)) \<le> id_val (Distance (ID n) x)"
      using ids.diff_prefix_dist [OF s v(2) t(2) refl True n1(2)] by simp
    moreover have "(2 :: nat) ^ (160 - 1 - ?k) \<le> 2 ^ (160 - 1 - PrefixLen ?s (ID n))"
      using True by (intro power_increasing) auto
    ultimately show ?thesis unfolding ids.dist_sym [OF v(2) t(2)] by (rule order_trans [rotated])
  next
    case False
    with n1 have "?k < PrefixLen ?s (ID n)" by simp
    then show ?thesis using ids.diff_prefix_dist [OF s t(2) v(2) refl _ t(3)] by simp
  qed
  from near far show ?thesis
    using less_iff_id_val [of "Distance x (ID m)" "Distance x (ID n)"] t(2) v by simp
qed

section \<open>Lookup targets inside a bucket\<close>

lemma map2_xor_cancel: "length ys = length (xs :: byte list) \<Longrightarrow> map2 (XOR) xs (map2 (XOR) xs ys) = ys"
  by (induction ys xs rule: list_induct2) (simp_all add: xor.assoc [symmetric])

lemma prefix_count_zeros: "prefix_count (replicate k 0 @ bs) = 8 * k + prefix_count bs"
  by (induction k) simp_all

lemma leading_bit: "j < 8 \<Longrightarrow> push_bit j (1 :: byte) \<noteq> 0 \<and> leadingZeros8 (push_bit j 1) = 7 - j"
proof -
  have "list_all (\<lambda>j. push_bit j (1 :: byte) \<noteq> 0 \<and> leadingZeros8 (push_bit j 1) = 7 - j) [0..<8]"
    by code_simp
  moreover assume "j < 8"
  ultimately show ?thesis by (simp add: list_all_iff)
qed

lemma map2_xor_self: "map2 (XOR) xs xs = replicate (length xs) (0 :: byte)"
  by (induction xs) simp_all

lemma TargetForBucket_prefix:
  assumes "valid_id (rt_self rt)" "length rnd = 20" "bucket < 160"
  obtains t where "TargetForBucket rt bucket rnd = Some t" "valid_id t" "PrefixLen (rt_self rt) t = bucket"
proof -
  define i where "i = bucket div 8"
  define s where "s = id_bytes (rt_self rt)"
  define p :: byte where "p = push_bit (7 - bucket mod 8) 1"
  define t where "t = take i s @ [s ! i XOR p] @ map2 (XOR) (drop (i + 1) s) (drop (i + 1) rnd)"
  have i: "i < 20" using assms(3) by (simp add: i_def)
  have l: "length s = 20" using assms(1) by (simp add: s_def valid_id_def)
  have "TargetForBucket rt bucket rnd = Some (NodeID t)"
    using i by (simp add: TargetForBucket_def t_def i_def s_def p_def Let_def)
  moreover have "valid_id (NodeID t)" using i l assms(2) by (simp add: t_def valid_id_def)
  moreover have "PrefixLen (rt_self rt) (NodeID t) = bucket"
  proof -
    have s: "s = take i s @ [s ! i] @ drop (i + 1) s"
      using i l by (simp add: id_take_nth_drop [symmetric])
    have "map2 (XOR) s t = map2 (XOR) (take i s @ [s ! i] @ drop (i + 1) s) t"
      by (subst (1) s) (rule refl)
    also have "\<dots> = replicate i 0 @ p # drop (i + 1) rnd"
      using i l assms(2) by (simp add: t_def zip_append map2_xor_self map2_xor_cancel xor.assoc [symmetric])
    finally have "PrefixLen (rt_self rt) (NodeID t) = 8 * i + prefix_count (p # drop (i + 1) rnd)"
      by (simp add: PrefixLen_def Distance_def s_def prefix_count_zeros)
    also have "\<dots> = bucket"
    proof -
      have m: "bucket mod 8 < 8" by simp
      have "p \<noteq> 0 \<and> leadingZeros8 p = 7 - (7 - bucket mod 8)"
        unfolding p_def by (rule leading_bit) simp
      then show ?thesis using m by (simp add: i_def)
    qed
    finally show ?thesis .
  qed
  ultimately show ?thesis using that by blast
qed

section \<open>Properties\<close>

text \<open>C15: Whatever sequence of insertions, removals, failures and successes a routing table has
  seen, it has 160 buckets of at most 8 nodes, every node sits in the bucket of the prefix it
  shares with the own identifier, no identifier occurs twice (nor the own one at all), every
  node has fewer than 5 failures and there are at most 1280 nodes.\<close>

theorem reachable_table_invariant:
  assumes "table_reachable self rt"
  shows "rt_self rt = self \<and> table_ok rt \<and> NumNodes rt \<le> 1280 \<and> distinct (map ID (Snapshot rt))
    \<and> list_all (\<lambda>n. ID n \<noteq> self \<and> FailCount n < 5) (Snapshot rt)"
proof -
  have t: "table_ok rt" "rt_self rt = self" using table_reachable_ok [OF assms] by auto
  have "ID n \<noteq> self \<and> FailCount n < 5" if "has_node rt n" for n
    using that has_node_ok [OF t(1) that] has_node_own [OF t(1), of n] not_self [OF t(1), of "ID n"] t(2)
    by (simp add: node_ok_def MaxFailures_def)
  then show ?thesis using t NumNodes_bound [OF t(1)] Snapshot_distinct [OF t(1)]
    by (simp add: list_all_iff has_node_def K_def)
qed

definition zero_id :: nodeid where "zero_id = NodeID (replicate 20 0)"

definition sample_node :: "byte \<Rightarrow> byte \<Rightarrow> bool \<Rightarrow> node" where
  "sample_node a b c = \<lparr>ID = NodeID (a # b # replicate 18 0), Addr = AddrPort (IPv4 [10, 0, 0, b]) 6881,
     LastSeen = 0, Compliant = c, FailCount = 0\<rparr>"

definition insert_all :: "rtable \<Rightarrow> node list \<Rightarrow> rtable" where
  "insert_all rt ns = foldl (\<lambda>t n. fst (Table_Insert t n)) rt ns"

lemma node_ok_sample: "node_ok (sample_node a b c)"
  by (simp add: node_ok_def sample_node_def valid_id_def MaxFailures_def)

lemma insert_all_reachable:
  "table_reachable self rt \<Longrightarrow> list_all node_ok ns \<Longrightarrow> table_reachable self (insert_all rt ns)"
  by (induction ns arbitrary: rt) (auto simp: insert_all_def intro: table_reachable.step table_step.insert)

lemma zero_table_reachable: "table_reachable zero_id (NewRoutingTable zero_id)"
  by (rule table_reachable.new) (simp add: valid_id_def zero_id_def)

theorem reachable_table_invariant_witness:
  "NumNodes (insert_all (NewRoutingTable zero_id) [sample_node 0x80 1 False, sample_node 1 2 True]) \<le> 1280"
proof -
  have "table_reachable zero_id (insert_all (NewRoutingTable zero_id) [sample_node 0x80 1 False, sample_node 1 2 True])"
    by (rule insert_all_reachable [OF zero_table_reachable]) (simp add: node_ok_sample)
  from reachable_table_invariant [OF this] show ?thesis by simp
qed

text \<open>\<open>Insert\<close>, on every branch: the own identifier is refused; a known identifier is
  replaced by the new node; a new one is appended while its bucket has room; in a full bucket a
  compliant node takes the place of the oldest non-compliant one; otherwise the table is
  unchanged and the oldest node of the bucket is returned with \<open>false\<close>.\<close>

theorem Table_Insert_spec:
  assumes "table_ok rt" "node_ok n" "Table_Insert rt n = (rt', r, ok)" "b = own_bucket rt (ID n)"
  shows "(ID n = rt_self rt \<longrightarrow> rt' = rt \<and> r = None \<and> \<not> ok)
    \<and> (\<forall>old. has_node rt old \<and> ID old = ID n \<longrightarrow>
        ok \<and> r = None \<and> set (Snapshot rt') = insert n (set (Snapshot rt) - {old}))
    \<and> (ID n \<noteq> rt_self rt \<and> \<not> (\<exists>old. has_node rt old \<and> ID old = ID n) \<longrightarrow>
        length b \<le> 8
        \<and> (length b < 8 \<longrightarrow> ok \<and> r = None \<and> set (Snapshot rt') = insert n (set (Snapshot rt)))
        \<and> (length b = 8 \<and> Compliant n \<longrightarrow>
            (\<forall>j < 8. \<not> Compliant (b ! j) \<and> (\<forall>k < j. Compliant (b ! k)) \<longrightarrow>
              ok \<and> r = None \<and> set (Snapshot rt') = insert n (set (Snapshot rt) - {b ! j})))
        \<and> (length b = 8 \<and> (Compliant n \<longrightarrow> list_all Compliant b) \<longrightarrow>
            rt' = rt \<and> r = Some (b ! 0) \<and> \<not> ok))"
proof (intro conjI impI allI)
  assume "ID n = rt_self rt"
  then have "PrefixLen (rt_self rt) (ID n) \<ge> 160"
    using assms(1) ids.pre_self by (simp add: table_ok_def)
  then show "rt' = rt" "r = None" "\<not> ok" using assms(3) by (auto simp: Table_Insert_def Let_def)
next
  fix old assume "has_node rt old \<and> ID old = ID n"
  with Table_Insert_refresh [OF assms(1,2), of old] assms(3)
  show "ok" "r = None" "set (Snapshot rt') = insert n (set (Snapshot rt) - {old})" by auto
next
  assume new: "ID n \<noteq> rt_self rt \<and> \<not> (\<exists>old. has_node rt old \<and> ID old = ID n)"
  have "PrefixLen (rt_self rt) (ID n) < 160" using new assms(1,2) not_self [of rt "ID n"] by (simp add: node_ok_def)
  with own_bucket_full [OF assms(1)] show "length b \<le> 8" by (simp add: assms(4) K_def)
  {
    assume "length b < 8"
    with Table_Insert_append [OF assms(1,2)] new assms(3,4)
    show "ok" "r = None" "set (Snapshot rt') = insert n (set (Snapshot rt))" by (auto simp: K_def)
  next
    fix j assume "length b = 8 \<and> Compliant n" "j < 8" "\<not> Compliant (b ! j) \<and> (\<forall>k < j. Compliant (b ! k))"
    with Table_Insert_evict [OF assms(1,2), of j] new assms(3,4)
    show "ok" "r = None" "set (Snapshot rt') = insert n (set (Snapshot rt) - {b ! j})" by (auto simp: K_def)
  next
    assume "length b = 8 \<and> (Compliant n \<longrightarrow> list_all Compliant b)"
    with Table_Insert_reject [OF assms(1,2)] new assms(3,4)
    show "rt' = rt" "r = Some (b ! 0)" "\<not> ok" by (auto simp: K_def)
  }
qed

definition full_table :: rtable where
  "full_table = insert_all (NewRoutingTable zero_id) (map (\<lambda>i. sample_node 0x80 i (i < 3)) [0, 1, 2, 3, 4, 5, 6, 7])"

lemma full_table_ok: "table_ok full_table"
  unfolding full_table_def
  by (rule conjunct1 [OF table_reachable_ok [OF insert_all_reachable [OF zero_table_reachable]]])
    (simp add: node_ok_sample)

theorem Table_Insert_spec_witness:
  "Table_Insert full_table (sample_node 0x80 9 False) = (full_table, Some (sample_node 0x80 0 True), False)
    \<and> set (Snapshot (fst (Table_Insert full_table (sample_node 0x80 9 True))))
        = insert (sample_node 0x80 9 True) (set (Snapshot full_table) - {sample_node 0x80 3 False})"
proof -
  let ?n = "\<lambda>c. sample_node 0x80 9 c" and ?b = "own_bucket full_table (ID (sample_node 0x80 9 False))"
  have b: "?b = map (\<lambda>i. sample_node 0x80 i (i < 3)) [0, 1, 2, 3, 4, 5, 6, 7]"
    "\<And>c. ID (?n c) = ID (?n False)" "ID (?n False) \<noteq> rt_self full_table"
    "list_all (\<lambda>m. ID m \<noteq> ID (?n False)) (Snapshot full_table)"
    by code_simp (simp add: sample_node_def, code_simp+)
  have new: "\<not> (\<exists>old. has_node full_table old \<and> ID old = ID (?n False))"
    using b(4) by (auto simp: has_node_def list_all_iff)
  obtain rt1 r1 k1 where 1: "Table_Insert full_table (?n False) = (rt1, r1, k1)" by (metis prod_cases3)
  obtain rt2 r2 k2 where 2: "Table_Insert full_table (?n True) = (rt2, r2, k2)" by (metis prod_cases3)
  have c: "\<not> Compliant (?n False)" "Compliant (?n True)" "length ?b = 8" "?b ! 0 = sample_node 0x80 0 True"
    "?b ! 3 = sample_node 0x80 3 False" "\<not> Compliant (?b ! 3)" "\<forall>k < 3. Compliant (?b ! k)"
    unfolding b(1) by (simp_all add: sample_node_def All_less_Suc numeral_3_eq_3)
  have "rt1 = full_table \<and> r1 = Some (?b ! 0) \<and> \<not> k1"
    using Table_Insert_spec [OF full_table_ok node_ok_sample 1 refl] new b(3) c by blast
  moreover have "set (Snapshot rt2) = insert (?n True) (set (Snapshot full_table) - {?b ! 3})"
  proof -
    note spec = Table_Insert_spec [OF full_table_ok node_ok_sample 2 refl, unfolded b(2) [of True],
        THEN conjunct2, THEN conjunct2, THEN mp, OF conjI, OF b(3) new]
    have "length ?b = 8 \<and> Compliant (?n True)" "(3 :: nat) < 8" using c by simp_all
    with spec c(6,7) show ?thesis by blast
  qed
  ultimately show ?thesis using 1 2 c by simp
qed

text \<open>C26: \<open>FindClosest\<close> returns nodes of the table, each identifier once, sorted by their distance
  to the target, and as many as asked for or else all there are.\<close>

theorem FindClosest_spec:
  assumes "table_ok rt"
  shows "set (FindClosest rt t k) \<subseteq> set (Snapshot rt)
    \<and> distinct (map ID (FindClosest rt t k))
    \<and> sorted (map (\<lambda>n. Distance t (ID n)) (FindClosest rt t k))
    \<and> length (FindClosest rt t k) = min k (NumNodes rt)"
proof -
  let ?s = "sort_by_distance t (candidates_for rt t k)"
  have "distinct (map ID ?s)"
    using candidates_distinct [OF assms, of t k] by (simp add: distinct_map sort_by_distance_def)
  then have "distinct (map ID (take k ?s))" by (metis distinct_take take_map)
  moreover have "sorted (map (\<lambda>n. Distance t (ID n)) (take k ?s))"
    using sorted_sort_by_distance sorted_wrt_take by (metis take_map)
  moreover have "set (take k ?s) \<subseteq> set (Snapshot rt)"
    using candidates_subset [OF assms, of t k] set_take_subset [of k ?s] by auto
  ultimately show ?thesis
    using candidates_enough [OF assms, of k t] by (simp add: FindClosest_take min.commute)
qed

theorem FindClosest_spec_witness:
  "length (FindClosest full_table zero_id 3) = 3"
proof -
  have "NumNodes full_table = 8" by code_simp
  with FindClosest_spec [OF full_table_ok, of zero_id 3] show ?thesis by simp
qed

text \<open>When the target's own bucket holds enough nodes, the result of \<open>FindClosest\<close> is exact:
  every node it returns is strictly closer to the target than every node of the table it does not.\<close>

theorem FindClosest_exact:
  assumes "table_ok rt" "valid_id t" "t \<noteq> rt_self rt" "k \<le> length (own_bucket rt t)"
    and "m \<in> set (FindClosest rt t k)" "has_node rt n" "n \<notin> set (FindClosest rt t k)"
  shows "Less (Distance t (ID m)) (Distance t (ID n))"
proof -
  have p: "PrefixLen (rt_self rt) t < 160" using assms(1-3) not_self by blast
  let ?b = "own_bucket rt t" and ?d = "\<lambda>n. Distance t (ID n)"
  have f: "FindClosest rt t k = take k (sort_by_distance t ?b)"
    using candidates_own [OF p assms(4)] by (simp add: FindClosest_take)
  have m: "m \<in> set ?b" using assms(5) unfolding f by (metis in_set_takeD sort_by_distance_simps(1))
  have v: "valid_id (ID x)" if "has_node rt x" for x
    using has_node_ok [OF assms(1) that] by (simp add: node_ok_def)
  have "?d m < ?d n"
  proof (cases "n \<in> set ?b")
    case True
    have "distinct (map ?d ?b)"
      using assms(2) bucket_ok_distinct [OF own_bucket_ok [OF assms(1) p]] in_own_bucket [OF assms(1) p] v
      by (intro Distance_distinct) auto
    with True assms(5,7) show ?thesis unfolding f
      by (intro take_sorted_less [OF sorted_sort_by_distance sort_by_distance_distinct]) auto
  next
    case False
    with own_closer [OF assms(1,2) p m assms(6)] show ?thesis .
  qed
  then show ?thesis
    using Less_less assms(2) v [OF assms(6)] v in_own_bucket [OF assms(1) p m] by simp
qed

theorem FindClosest_exact_witness:
  "Less (Distance (NodeID (0x80 # 4 # replicate 18 0)) (ID (sample_node 0x80 5 False)))
     (Distance (NodeID (0x80 # 4 # replicate 18 0)) (ID (sample_node 0x80 1 True)))"
proof -
  let ?t = "NodeID (0x80 # 4 # replicate 18 0)"
  have "valid_id ?t" "?t \<noteq> rt_self full_table" "4 \<le> length (own_bucket full_table ?t)"
    "sample_node 0x80 5 False \<in> set (FindClosest full_table ?t 4)" "has_node full_table (sample_node 0x80 1 True)"
    "sample_node 0x80 1 True \<notin> set (FindClosest full_table ?t 4)"
    by code_simp+
  from FindClosest_exact [OF full_table_ok this] show ?thesis .
qed

definition skewed_table :: rtable where
  "skewed_table = insert_all (NewRoutingTable zero_id)
     (map (\<lambda>i. sample_node 0x20 i False) [0, 1, 2, 3, 4, 5, 6, 7] @ [sample_node 0x04 8 False])"

text \<open>Beyond the own bucket \<open>FindClosest\<close> is not exact. In a table with eight nodes in bucket 2
  and one in bucket 5, a lookup for an identifier of the empty bucket 3 takes bucket 2 and its
  neighbour 4 and stops there, although the node of bucket 5 is closer to the target than
  every node it returns.\<close>

theorem FindClosest_misses_closest:
  "NumNodes skewed_table = 9
    \<and> list_all (\<lambda>m. Less (Distance (NodeID (0x10 # replicate 19 0)) (ID (sample_node 0x04 8 False)))
          (Distance (NodeID (0x10 # replicate 19 0)) (ID m)))
        (FindClosest skewed_table (NodeID (0x10 # replicate 19 0)) 8)
    \<and> length (FindClosest skewed_table (NodeID (0x10 # replicate 19 0)) 8) = 8
    \<and> sample_node 0x04 8 False \<in> set (Snapshot skewed_table)"
  by code_simp

text \<open>A node is evicted exactly by the failure that makes its count 5: with \<open>f\<close> failures
  recorded, \<open>k\<close> more leave it with \<open>f + k\<close> while that is below 5, all other nodes untouched, and
  the one that reaches 5 removes it, which \<open>RecordFailure\<close> reports. A success resets the count.\<close>

theorem eviction_at_max_failures:
  assumes "table_ok rt" "has_node rt n"
  shows "(FailCount n + k < 5 \<longrightarrow>
      set (Snapshot (failures k rt (ID n))) = insert (n\<lparr>FailCount := FailCount n + k\<rparr>) (set (Snapshot rt) - {n}))
    \<and> (FailCount n + k + 1 = 5 \<longrightarrow>
      set (Snapshot (failures (k + 1) rt (ID n))) = set (Snapshot rt) - {n}
      \<and> snd (RecordFailure (failures k rt (ID n)) (ID n)))
    \<and> (FailCount n + k + 1 < 5 \<longrightarrow> \<not> snd (RecordFailure (failures k rt (ID n)) (ID n)))
    \<and> set (Snapshot (RecordSuccess now rt (ID n))) =
        insert (n\<lparr>FailCount := 0, LastSeen := now\<rparr>) (set (Snapshot rt) - {n})"
proof -
  let ?m = "n\<lparr>FailCount := FailCount n + k\<rparr>"
  have u: "m = n" if "has_node rt m" "ID m = ID n" for m using has_node_unique [OF assms(1) that(1) assms(2) that(2)] .
  have fresh: "?m \<notin> set (Snapshot rt) - {n}" using u [of ?m] by (auto simp: has_node_def)
  have last: "set (Snapshot (failures (k + 1) rt (ID n))) = set (Snapshot rt) - {n}
      \<or> FailCount n + k + 1 \<noteq> 5" "snd (RecordFailure (failures k rt (ID n)) (ID n)) \<longleftrightarrow> FailCount n + k + 1 \<ge> 5"
    if "FailCount n + k < 5"
  proof -
    have s: "set (Snapshot (failures k rt (ID n))) = insert ?m (set (Snapshot rt) - {n})"
      using failures_counted [OF assms] that by (simp add: MaxFailures_def)
    then have "has_node (failures k rt (ID n)) ?m" by (simp add: has_node_def)
    from fail_nodes [OF failures_ok [OF assms(1)] this] s fresh
    show "set (Snapshot (failures (k + 1) rt (ID n))) = set (Snapshot rt) - {n} \<or> FailCount n + k + 1 \<noteq> 5"
      "snd (RecordFailure (failures k rt (ID n)) (ID n)) \<longleftrightarrow> FailCount n + k + 1 \<ge> 5"
      by (auto simp: failures_Suc MaxFailures_def)
  qed
  then show ?thesis
    using failures_counted [OF assms, of k] success_nodes [OF assms, of now] by (auto simp: MaxFailures_def)
qed

theorem eviction_at_max_failures_witness:
  "set (Snapshot (failures 5 full_table (ID (sample_node 0x80 5 False))))
     = set (Snapshot full_table) - {sample_node 0x80 5 False}"
proof -
  have "has_node full_table (sample_node 0x80 5 False)" by code_simp
  from eviction_at_max_failures [OF full_table_ok this, of 4 0] show ?thesis
    by (simp add: sample_node_def)
qed

text \<open>The refresh target of a bucket lies in that bucket, whatever the random bytes.\<close>

theorem TargetForBucket_in_bucket:
  assumes "table_ok rt" "length rnd = 20" "bucket < 160"
  shows "\<exists>t. TargetForBucket rt bucket rnd = Some t \<and> valid_id t \<and> PrefixLen (rt_self rt) t = bucket"
proof -
  from assms(1) have "valid_id (rt_self rt)" by (simp add: table_ok_def)
  with TargetForBucket_prefix assms(2,3) show ?thesis by metis
qed

theorem TargetForBucket_in_bucket_witness:
  "\<exists>t. TargetForBucket full_table 13 (replicate 20 0xAB) = Some t \<and> valid_id t
     \<and> PrefixLen (rt_self full_table) t = 13"
  by (rule TargetForBucket_in_bucket [OF full_table_ok]) simp_all

end
