(* ===== verification/Crypto.thy ===== *)
theory Crypto
  imports GoLib
begin

text \<open>
  What the program uses of \<open>crypto/sha1\<close>, \<open>crypto/hmac\<close> and \<open>hash/crc32\<close> (Castagnoli),
  executable.
\<close>

section \<open>SHA-1\<close>

definition rotl32 :: "nat \<Rightarrow> u32 \<Rightarrow> u32" where
  "rotl32 n w = (push_bit n w OR drop_bit (32 - n) w)"

definition sha_pad :: "bytes \<Rightarrow> bytes" where
  "sha_pad m = m @ [0x80] @ replicate ((119 - length m mod 64) mod 64) 0
     @ be64 (of_nat (8 * length m))"

fun words_of :: "bytes \<Rightarrow> u32 list" where
  "words_of (a # b # c # d # r) = the (get32 [a, b, c, d]) # words_of r"
| "words_of _ = []"

text \<open>The message schedule, latest word first.\<close>

fun sha_expand :: "nat \<Rightarrow> u32 list \<Rightarrow> u32 list" where
  "sha_expand 0 ws = ws"
| "sha_expand (Suc n) ws =
     sha_expand n (rotl32 1 (ws ! 2 XOR ws ! 7 XOR ws ! 13 XOR ws ! 15) # ws)"

type_synonym sha_state = "u32 \<times> u32 \<times> u32 \<times> u32 \<times> u32"

fun sha_fk :: "nat \<Rightarrow> u32 \<Rightarrow> u32 \<Rightarrow> u32 \<Rightarrow> u32 \<times> u32" where
  "sha_fk t b c d =
     (if t < 20 then ((b AND c) OR (NOT b AND d), 0x5A827999)
      else if t < 40 then (b XOR c XOR d, 0x6ED9EBA1)
      else if t < 60 then ((b AND c) OR (b AND d) OR (c AND d), 0x8F1BBCDC)
      else (b XOR c XOR d, 0xCA62C1D6))"

fun sha_rounds :: "nat \<Rightarrow> u32 list \<Rightarrow> sha_state \<Rightarrow> sha_state" where
  "sha_rounds t [] s = s"
| "sha_rounds t (w # ws) (a, b, c, d, e) =
     (case sha_fk t b c d of (f, k) \<Rightarrow>
        sha_rounds (Suc t) ws (rotl32 5 a + f + e + k + w, a, rotl32 30 b, c, d))"

fun sha_block :: "u32 list \<Rightarrow> sha_state \<Rightarrow> sha_state" where
  "sha_block blk (h0, h1, h2, h3, h4) =
     (case sha_rounds 0 (rev (sha_expand 64 (rev blk))) (h0, h1, h2, h3, h4) of
        (a, b, c, d, e) \<Rightarrow> (h0 + a, h1 + b, h2 + c, h3 + d, h4 + e))"

fun sha_blocks :: "nat \<Rightarrow> u32 list \<Rightarrow> sha_state \<Rightarrow> sha_state" where
  "sha_blocks 0 ws s = s"
| "sha_blocks (Suc n) ws s = sha_blocks n (drop 16 ws) (sha_block (take 16 ws) s)"

text \<open>\<open>sha1.Sum\<close>.\<close>

definition sha1 :: "bytes \<Rightarrow> bytes" where
  "sha1 m =
     (case sha_blocks (length (sha_pad m) div 64) (words_of (sha_pad m))
         (0x67452301, 0xEFCDAB89, 0x98BADCFE, 0x10325476, 0xC3D2E1F0) of
        (a, b, c, d, e) \<Rightarrow> be32 a @ be32 b @ be32 c @ be32 d @ be32 e)"

lemma length_sha1 [simp]: "length (sha1 m) = 20"
  by (simp add: sha1_def split: prod.split)


section \<open>HMAC\<close>

text \<open>\<open>hmac.New(sha1.New, key)\<close>, one \<open>Write\<close> and \<open>Sum(nil)\<close>.\<close>

definition hmac_sha1 :: "bytes \<Rightarrow> bytes \<Rightarrow> bytes" where
  "hmac_sha1 key m =
     (let k = (if length key > 64 then sha1 key else key);
          k = k @ replicate (64 - length k) 0
      in sha1 (map (\<lambda>b. b XOR 0x5c) k @ sha1 (map (\<lambda>b. b XOR 0x36) k @ m)))"

lemma length_hmac_sha1 [simp]: "length (hmac_sha1 key m) = 20"
  by (simp add: hmac_sha1_def Let_def)


section \<open>CRC32C\<close>

definition crc_bit :: "u32 \<Rightarrow> u32" where
  "crc_bit c = (if c AND 1 = 1 then drop_bit 1 c XOR 0x82f63b78 else drop_bit 1 c)"

fun crc_bits :: "nat \<Rightarrow> u32 \<Rightarrow> u32" where
  "crc_bits 0 c = c"
| "crc_bits (Suc n) c = crc_bits n (crc_bit c)"

definition crc_entry :: "byte \<Rightarrow> u32" where
  "crc_entry b = crc_bits 8 (ucast b)"

text \<open>\<open>crc32.Checksum\<close> with the Castagnoli table.\<close>

definition crc32c :: "bytes \<Rightarrow> u32" where
  "crc32c p = foldl (\<lambda>crc v. crc_entry (ucast crc XOR v) XOR drop_bit 8 crc) 0xFFFFFFFF p XOR 0xFFFFFFFF"


end
