(* ===== verification/Bep42.thy ===== *)
theory Bep42
  imports NodeID Netip Crypto
begin

text \<open>
  \<open>internal/dht/hardening/bep42.go\<close>: node identifiers whose first 21 bits are derived from the
  node's IPv4 address, so that an address can only hold identifiers in few places. The random
  source is the argument \<open>rnd\<close>, 20 bytes, or an error.
\<close>

definition v4Mask :: bytes where "v4Mask = [0x03, 0x0f, 0x3f, 0xff]"

definition crc32cFromIP :: "bytes \<Rightarrow> byte \<Rightarrow> u32" where
  "crc32cFromIP ip4 r =
     crc32c [ip4 ! 0 AND v4Mask ! 0 OR push_bit 5 r,
       ip4 ! 1 AND v4Mask ! 1, ip4 ! 2 AND v4Mask ! 2, ip4 ! 3 AND v4Mask ! 3]"

definition first21BitsMatch :: "nodeid \<Rightarrow> u32 \<Rightarrow> bool" where
  "first21BitsMatch i crc =
     (let b = id_bytes i
      in if b ! 0 \<noteq> ucast (drop_bit 24 crc) then False
         else if b ! 1 \<noteq> ucast (drop_bit 16 crc) then False
         else if b ! 2 AND 0xf8 \<noteq> ucast (drop_bit 8 crc) AND 0xf8 then False
         else True)"

datatype bep42_error = OnlyIPv4 addr | RandomFailed

definition GenerateCompliantID :: "addr \<Rightarrow> bytes option \<Rightarrow> bep42_error + nodeid" where
  "GenerateCompliantID ip rnd =
     (case Unmap ip of
        IPv4 ip4 \<Rightarrow>
          (case rnd of
             None \<Rightarrow> Inl RandomFailed
           | Some i \<Rightarrow>
               (let randByte = i ! 19;
                    r = randByte AND 0x07;
                    crc = crc32cFromIP ip4 r
                in Inr (NodeID (i[0 := ucast (drop_bit 24 crc), 1 := ucast (drop_bit 16 crc),
                     2 := ucast (drop_bit 8 crc) AND 0xf8 OR i ! 2 AND 0x07]))))
      | a \<Rightarrow> Inl (OnlyIPv4 a))"

definition ValidateNodeID :: "nodeid \<Rightarrow> addr \<Rightarrow> bool" where
  "ValidateNodeID i ip =
     (case Unmap ip of
        IPv4 ip4 \<Rightarrow> (let r = id_bytes i ! 19 AND 0x07 in first21BitsMatch i (crc32cFromIP ip4 r))
      | _ \<Rightarrow> False)"

lemma mask_0xf8: "(0xf8 :: byte) = NOT 0x07"
  by simp

lemma top5_kept: "((x AND 0xf8) OR (y AND 0x07)) AND 0xf8 = x AND (0xf8 :: byte)"
  unfolding mask_0xf8 by (rule bit_word_eqI) (auto simp only: bit_or_iff bit_and_iff bit_not_iff)

lemma low3_kept: "((x AND 0xf8) OR (y AND 0x07)) AND 0x07 = y AND (0x07 :: byte)"
  unfolding mask_0xf8 by (rule bit_word_eqI) (auto simp only: bit_or_iff bit_and_iff bit_not_iff)

lemma bit_0xf8: "bit (0xf8 :: byte) n \<longleftrightarrow> n \<in> {3..<8}"
proof -
  have "list_all (\<lambda>n. bit (0xf8 :: byte) n \<longleftrightarrow> n \<in> {3..<8}) [0..<8]" by code_simp
  then show ?thesis
    by (cases "n < 8") (auto simp: list_all_iff dest: bit_imp_le_length)
qed

lemma bit_and_0xf8: "bit (x AND (0xf8 :: byte)) n \<longleftrightarrow> n \<in> {3..<8} \<and> bit x n"
  by (simp only: bit_and_iff bit_0xf8) blast

lemma all_rev: "(\<forall>n < m. P (n :: nat)) \<longleftrightarrow> (\<forall>n < m. P (m - 1 - n))"
proof
  assume r: "\<forall>n < m. P (m - 1 - n)"
  show "\<forall>n < m. P n"
  proof (intro allI impI)
    fix n assume "n < m"
    then have "m - 1 - n < m" and eq: "m - 1 - (m - 1 - n) = n" by simp_all
    with r have "P (m - 1 - (m - 1 - n))" by blast
    then show "P n" unfolding eq .
  qed
qed simp

text \<open>Comparing bytes with a slice of the checksum is comparing their bits, first bit first.\<close>

lemma byte_bits:
  fixes b :: byte and c :: u32
  assumes "k + 8 \<le> 32"
  shows "b = ucast (drop_bit k c) \<longleftrightarrow> (\<forall>n < 8. bit b (7 - n) \<longleftrightarrow> bit c (k + (7 - n)))"
proof -
  have "b = ucast (drop_bit k c) \<longleftrightarrow> (\<forall>n < 8. bit b n \<longleftrightarrow> bit c (k + n))"
    using assms by (auto simp: bit_eq_iff bit_simps dest: bit_imp_le_length)
  also have "\<dots> \<longleftrightarrow> (\<forall>n < 8. bit b (7 - n) \<longleftrightarrow> bit c (k + (7 - n)))"
    using all_rev [of 8 "\<lambda>n. bit b n \<longleftrightarrow> bit c (k + n)"] by simp
  finally show ?thesis .
qed

lemma top5_bits:
  fixes b :: byte and c :: u32
  assumes "k + 8 \<le> 32"
  shows "b AND 0xf8 = ucast (drop_bit k c) AND 0xf8 \<longleftrightarrow> (\<forall>n < 5. bit b (7 - n) \<longleftrightarrow> bit c (k + (7 - n)))"
proof -
  have "b AND 0xf8 = ucast (drop_bit k c) AND 0xf8 \<longleftrightarrow> (\<forall>n \<in> {3..<8}. bit b n \<longleftrightarrow> bit c (k + n))"
  proof -
    have "b AND 0xf8 = ucast (drop_bit k c) AND 0xf8
        \<longleftrightarrow> (\<forall>n < 8. n \<in> {3..<8} \<longrightarrow> (bit b n \<longleftrightarrow> bit (ucast (drop_bit k c) :: byte) n))"
      unfolding bit_eq_iff bit_and_0xf8 by auto
    also have "\<dots> \<longleftrightarrow> (\<forall>n \<in> {3..<8}. bit b n \<longleftrightarrow> bit c (k + n))"
      using assms by (auto simp: bit_simps)
    finally show ?thesis .
  qed
  also have "\<dots> \<longleftrightarrow> (\<forall>n < 5. bit b (7 - n) \<longleftrightarrow> bit c (k + (7 - n)))"
  proof -
    have img: "{3..<8} = (+) 3 ` {..<5 :: nat}" by (simp add: lessThan_atLeast0)
    have "(\<forall>n \<in> {3..<8}. P n) \<longleftrightarrow> (\<forall>n < 5. P (3 + n))" for P :: "nat \<Rightarrow> bool"
      unfolding img by blast
    then show ?thesis using all_rev [of 5 "\<lambda>n. bit b (3 + n) \<longleftrightarrow> bit c (k + (3 + n))"] by (simp add: algebra_simps)
  qed
  finally show ?thesis .
qed

definition id_bit :: "nodeid \<Rightarrow> nat \<Rightarrow> bool" where
  "id_bit i n = bit (id_bytes i ! (n div 8)) (7 - n mod 8)"

lemma less_split: "(\<forall>n < a + b. P n) \<longleftrightarrow> (\<forall>n < a. P n) \<and> (\<forall>n < b. P (a + n))" for a b :: nat
  by (metis add_less_cancel_left le_Suc_ex not_le trans_less_add1)

lemma id_bit_at: "n < 8 \<Longrightarrow> id_bit i (8 * j + n) \<longleftrightarrow> bit (id_bytes i ! j) (7 - n)"
  by (simp add: id_bit_def)

lemma first21_bits:
  "first21BitsMatch i crc \<longleftrightarrow> (\<forall>n < 21. id_bit i n \<longleftrightarrow> bit crc (31 - n))"
proof -
  have at: "(\<forall>n < m. id_bit i (8 * j + n) \<longleftrightarrow> bit crc (31 - (8 * j + n)))
      \<longleftrightarrow> (\<forall>n < m. bit (id_bytes i ! j) (7 - n) \<longleftrightarrow> bit crc ((24 - 8 * j) + (7 - n)))"
    if "m \<le> 8" "j < 3" for m j
  proof -
    have "31 - (8 * j + n) = (24 - 8 * j) + (7 - n)" if "n < m" for n
      using that \<open>m \<le> 8\<close> \<open>j < 3\<close> by simp
    moreover have "id_bit i (8 * j + n) \<longleftrightarrow> bit (id_bytes i ! j) (7 - n)" if "n < m" for n
      using that \<open>m \<le> 8\<close> by (intro id_bit_at) simp
    ultimately show ?thesis by metis
  qed
  have "(\<forall>n < 8 + (8 + 5). id_bit i n \<longleftrightarrow> bit crc (31 - n)) \<longleftrightarrow>
      (\<forall>n < 8. id_bit i (8 * 0 + n) \<longleftrightarrow> bit crc (31 - (8 * 0 + n)))
    \<and> (\<forall>n < 8. id_bit i (8 * 1 + n) \<longleftrightarrow> bit crc (31 - (8 * 1 + n)))
    \<and> (\<forall>n < 5. id_bit i (8 * 2 + n) \<longleftrightarrow> bit crc (31 - (8 * 2 + n)))"
    unfolding less_split by simp
  then show ?thesis
    using at [of 8 0] at [of 8 1] at [of 5 2]
    by (simp add: first21BitsMatch_def Let_def byte_bits top5_bits)
qed

section \<open>Properties\<close>

text \<open>For every IPv4 address (also one in IPv4-mapped IPv6 form) and every outcome of the
  random source, \<open>GenerateCompliantID\<close> returns a 20-byte identifier that \<open>ValidateNodeID\<close>
  accepts for that address, and that keeps the random bytes 3 to 19 and the low three bits of byte 2.\<close>

theorem GenerateCompliantID_valid:
  assumes "Unmap ip = IPv4 ip4" "length rnd = 20"
  shows "\<exists>i. GenerateCompliantID ip (Some rnd) = Inr i \<and> valid_id i \<and> ValidateNodeID i ip
    \<and> drop 3 (id_bytes i) = drop 3 rnd \<and> id_bytes i ! 2 AND 0x07 = rnd ! 2 AND 0x07"
  using assms
  by (simp add: GenerateCompliantID_def ValidateNodeID_def first21BitsMatch_def Let_def valid_id_def
      nth_list_update top5_kept low3_kept drop_update_swap)

theorem GenerateCompliantID_valid_witness:
  "\<exists>i. GenerateCompliantID (IPv6 (replicate 10 0 @ [0xFF, 0xFF, 124, 31, 75, 21]) []) (Some (replicate 20 7)) = Inr i
     \<and> ValidateNodeID i (IPv4 [124, 31, 75, 21])"
proof -
  let ?a = "IPv6 (replicate 10 0 @ [0xFF, 0xFF, 124, 31, 75, 21]) []"
  have u: "Unmap ?a = IPv4 [124, 31, 75, 21]" by (simp add: mapped4_def numeral_eq_Suc)
  have "\<exists>i. GenerateCompliantID ?a (Some (replicate 20 7)) = Inr i \<and> ValidateNodeID i ?a"
    using GenerateCompliantID_valid [OF u, of "replicate 20 7"] by auto
  then show ?thesis by (simp add: ValidateNodeID_def u del: Unmap.simps) simp
qed

text \<open>\<open>ValidateNodeID\<close> rejects every address that is not IPv4, and for an IPv4 address it
  accepts exactly the identifiers whose first 21 bits are those of the CRC32C of the masked
  address and the low three bits of byte 19; changing any of the 21 bits makes it reject.\<close>

theorem ValidateNodeID_iff:
  "ValidateNodeID i ip \<longleftrightarrow>
    (\<exists>ip4. Unmap ip = IPv4 ip4
       \<and> list_all (\<lambda>n. id_bit i n = bit (crc32cFromIP ip4 (id_bytes i ! 19 AND 7)) (31 - n)) [0..<21])"
  by (auto simp: ValidateNodeID_def Let_def first21_bits list_all_iff split: addr.splits)

end
