(* ===== verification/Token.thy ===== *)
theory Token
  imports Netip Crypto
begin

text \<open>
  \<open>internal/dht/token/token.go\<close>: the tokens that prove a querier owns its address. A token is
  the HMAC-SHA1 of the four address bytes under a secret that is replaced from time to time;
  the previous secret stays valid. The random source is an argument of \<open>New\<close> and \<open>Rotate\<close>.
  \<open>As4\<close> panics on an address without a four-byte form, hence the option results.
\<close>

record token_manager =
  currentSecret :: bytes
  previousSecret :: bytes

definition New :: "bytes \<Rightarrow> token_manager" where
  "New rnd = \<lparr>currentSecret = rnd, previousSecret = replicate 20 0\<rparr>"

definition hash :: "addr \<Rightarrow> bytes \<Rightarrow> bytes option" where
  "hash a secret = map_option (hmac_sha1 secret) (As4 a)"

definition Generate :: "token_manager \<Rightarrow> addr \<Rightarrow> bytes option" where
  "Generate t a = hash a (currentSecret t)"

definition Validate :: "token_manager \<Rightarrow> addr \<Rightarrow> bytes \<Rightarrow> bool option" where
  "Validate t a token =
     (case (hash a (currentSecret t), hash a (previousSecret t)) of
        (Some curSHA, Some prevSHA) \<Rightarrow> Some (curSHA = token \<or> prevSHA = token)
      | _ \<Rightarrow> None)"

definition Rotate :: "bytes \<Rightarrow> token_manager \<Rightarrow> token_manager" where
  "Rotate rnd t = \<lparr>currentSecret = rnd, previousSecret = currentSecret t\<rparr>"

text \<open>A history of rotations with the random values they drew, first one first.\<close>

definition rotations :: "bytes list \<Rightarrow> token_manager \<Rightarrow> token_manager" where
  "rotations rnds t = fold Rotate rnds t"

lemma hash_total: "As4 a = Some b \<Longrightarrow> hash a s = Some (hmac_sha1 s b)"
  by (simp add: hash_def)

lemma rotations_snoc: "rotations (rnds @ [r]) t = Rotate r (rotations rnds t)"
  by (simp add: rotations_def)

lemma Validate_hash:
  "As4 a = Some b \<Longrightarrow> Validate t a tok =
     Some (hmac_sha1 (currentSecret t) b = tok \<or> hmac_sha1 (previousSecret t) b = tok)"
  by (simp add: Validate_def hash_total)

section \<open>Properties\<close>

text \<open>A token is accepted from the address it was generated for until the second rotation
  after its generation. From then on it is accepted only if it happens to be the code of that
  address under one of the two later secrets. An address without a four-byte form panics.\<close>

theorem token_lifetime:
  assumes "Generate t a = Some tok" "As4 a = Some b"
  shows "Validate (rotations [] t) a tok = Some True
    \<and> Validate (rotations [r1] t) a tok = Some True
    \<and> Validate (rotations (rnds @ [r1, r2]) t) a tok
        = Some (tok = hmac_sha1 r2 b \<or> tok = hmac_sha1 r1 b)
    \<and> (As4 c = None \<longrightarrow> Generate t c = None \<and> Validate t c tok = None)"
proof -
  have tok: "tok = hmac_sha1 (currentSecret t) b"
    using assms by (simp add: Generate_def hash_total)
  have two: "rnds @ [r1, r2] = (rnds @ [r1]) @ [r2]" by simp
  have "Validate (rotations (rnds @ [r1, r2]) t) a tok
      = Some (hmac_sha1 r2 b = tok \<or> hmac_sha1 r1 b = tok)"
    unfolding two rotations_snoc by (simp add: Validate_hash [OF assms(2)] Rotate_def)
  then show ?thesis
    by (auto simp: Validate_hash [OF assms(2)] tok rotations_def Rotate_def)
      (simp_all add: Generate_def Validate_def hash_def)
qed

theorem token_lifetime_witness:
  "\<exists>tok. Generate (New (replicate 20 1)) (IPv4 [10, 0, 0, 1]) = Some tok
     \<and> Validate (rotations [replicate 20 2] (New (replicate 20 1))) (IPv4 [10, 0, 0, 1]) tok = Some True"
proof -
  have a: "As4 (IPv4 [10, 0, 0, 1]) = Some [10, 0, 0, 1]" by simp
  obtain tok where t: "Generate (New (replicate 20 1)) (IPv4 [10, 0, 0, 1]) = Some tok"
    by (auto simp: Generate_def hash_def)
  with token_lifetime [OF t a, of "replicate 20 2"] show ?thesis by blast
qed

text \<open>Until the first rotation the previous secret is twenty zero bytes, so a token that
  anyone can compute (the code of the address under the zero key) is accepted for every
  address; one rotation ends that unless the drawn secrets collide with it.\<close>

theorem zero_key_token_accepted:
  assumes "As4 a = Some b"
  shows "Validate (New rnd) a (hmac_sha1 (replicate 20 0) b) = Some True
    \<and> Validate (Rotate r (New rnd)) a (hmac_sha1 (replicate 20 0) b)
        = Some (hmac_sha1 (replicate 20 0) b = hmac_sha1 r b \<or> hmac_sha1 (replicate 20 0) b = hmac_sha1 rnd b)"
  by (auto simp: Validate_hash [OF assms] New_def Rotate_def)

theorem zero_key_token_accepted_witness:
  "Validate (New (replicate 20 1)) (IPv4 [10, 0, 0, 1]) (hmac_sha1 (replicate 20 0) [10, 0, 0, 1]) = Some True"
  using zero_key_token_accepted [of "IPv4 [10, 0, 0, 1]" "[10, 0, 0, 1]"] by simp

end
