(* ===== verification/PeerStore.thy ===== *)
theory PeerStore
  imports Netip
begin

text \<open>
  \<open>internal/dht/peerstore.go\<close>: the endpoints that have announced themselves for an info hash,
  with the time of the last announcement. \<open>time.Now()\<close> is the argument \<open>now\<close>, in nanoseconds.
\<close>

section \<open>The contract of a store of announcements\<close>

text \<open>
  What the rest of the node relies on, abstractly: a partial map from (hash, endpoint) to the
  time of the last announcement. An entry is live while it is younger than \<open>ttl\<close>. \<open>abs\<close>
  reads a state as such a map; \<open>inv\<close> is the representation invariant.
\<close>

locale announcements =
  fixes abs :: "'s \<Rightarrow> 'h \<Rightarrow> 'a \<Rightarrow> int option"
    and inv :: "'s \<Rightarrow> bool"
    and ttl :: "'s \<Rightarrow> int"
    and add :: "int \<Rightarrow> 's \<Rightarrow> 'h \<Rightarrow> 'a \<Rightarrow> 's"
    and get :: "int \<Rightarrow> 's \<Rightarrow> 'h \<Rightarrow> 'a list"
    and expire :: "int \<Rightarrow> 's \<Rightarrow> 's"
  assumes inv_add: "inv s \<Longrightarrow> inv (add now s h a)"
    and inv_expire: "inv s \<Longrightarrow> inv (expire now s)"
    and ttl_add: "ttl (add now s h a) = ttl s"
    and ttl_expire: "ttl (expire now s) = ttl s"
    and abs_add: "inv s \<Longrightarrow> abs (add now s h a) = (abs s)(h := (abs s h)(a \<mapsto> now))"
    and abs_expire: "inv s \<Longrightarrow> abs (expire now s) h a =
      (case abs s h a of Some t \<Rightarrow> if now - t < ttl s then Some t else None | None \<Rightarrow> None)"
    and set_get: "inv s \<Longrightarrow> set (get now s h) = {a. \<exists>t. abs s h a = Some t \<and> now - t < ttl s}"
    and distinct_get: "inv s \<Longrightarrow> distinct (get now s h)"
begin

text \<open>A history of additions and expiries with their times, in time order.\<close>

primrec run :: "(int \<times> ('h \<times> 'a) option) list \<Rightarrow> 's \<Rightarrow> 's" where
  "run [] s = s"
| "run (e # es) s =
     run es (case snd e of Some (h, a) \<Rightarrow> add (fst e) s h a | None \<Rightarrow> expire (fst e) s)"

lemma inv_run: "inv s \<Longrightarrow> inv (run es s)"
  by (induction es arbitrary: s) (auto simp: inv_add inv_expire split: option.split)

lemma ttl_run: "ttl (run es s) = ttl s"
  by (induction es arbitrary: s) (auto simp: ttl_add ttl_expire split: option.split)

text \<open>An expiry is not observable: what it drops no later lookup would have returned.\<close>

lemma get_expire: "inv s \<Longrightarrow> now \<le> later \<Longrightarrow> set (get later (expire now s) h) = set (get later s h)"
  by (auto simp: set_get inv_expire ttl_expire abs_expire split: option.splits if_splits)

text \<open>An announced endpoint is returned for \<open>ttl\<close>, whatever else happens meanwhile.\<close>

lemma announced_stays:
  assumes "inv s" "abs s h a = Some t'" "t \<le> t'" "t' < t + ttl s"
    and "\<forall>e \<in> set es. t \<le> fst e \<and> fst e < t + ttl s"
  shows "\<exists>t'. abs (run es s) h a = Some t' \<and> t \<le> t'"
  using assms
proof (induction es arbitrary: s t')
  case (Cons e es)
  let ?s = "case snd e of Some (h, a) \<Rightarrow> add (fst e) s h a | None \<Rightarrow> expire (fst e) s"
  have "\<exists>t3. abs ?s h a = Some t3 \<and> t \<le> t3 \<and> t3 < t + ttl s"
    using Cons.prems by (auto simp: abs_add abs_expire split: option.splits)
  then show ?case using Cons.IH [of ?s] Cons.prems
    by (auto simp: inv_add inv_expire ttl_add ttl_expire split: option.split)
qed auto

end

section \<open>The store\<close>

record peer =
  p_Addr :: addrport
  Added :: int

record peer_store =
  ps_peers :: "(bytes, peer list) dict"
  ps_ttl :: int

definition NewPeerStore :: "int \<Rightarrow> peer_store" where
  "NewPeerStore ttl = \<lparr>ps_peers = [], ps_ttl = ttl\<rparr>"

text \<open>Reading an absent key of the map gives the nil slice.\<close>

definition stored :: "peer_store \<Rightarrow> bytes \<Rightarrow> peer list" where
  "stored ps h = (case map_of (ps_peers ps) h of Some l \<Rightarrow> l | None \<Rightarrow> [])"

fun touch :: "int \<Rightarrow> addrport \<Rightarrow> peer list \<Rightarrow> peer list option" where
  "touch now a [] = None"
| "touch now a (p # ps) =
     (if p_Addr p = a then Some (p\<lparr>Added := now\<rparr> # ps) else map_option ((#) p) (touch now a ps))"

definition Add :: "int \<Rightarrow> peer_store \<Rightarrow> bytes \<Rightarrow> addrport \<Rightarrow> peer_store" where
  "Add now ps infoHash a =
     (case touch now a (stored ps infoHash) of
        Some l \<Rightarrow> ps\<lparr>ps_peers := dict_put infoHash l (ps_peers ps)\<rparr>
      | None \<Rightarrow> ps\<lparr>ps_peers := dict_put infoHash (stored ps infoHash @ [\<lparr>p_Addr = a, Added = now\<rparr>])
                  (ps_peers ps)\<rparr>)"

definition live :: "int \<Rightarrow> peer_store \<Rightarrow> peer \<Rightarrow> bool" where
  "live now ps p \<longleftrightarrow> now - Added p < ps_ttl ps"

definition Get :: "int \<Rightarrow> peer_store \<Rightarrow> bytes \<Rightarrow> addrport list" where
  "Get now ps infoHash =
     (case map_of (ps_peers ps) infoHash of
        None \<Rightarrow> []
      | Some peers \<Rightarrow> map p_Addr (filter (live now ps) peers))"

text \<open>The loop of \<open>Expire\<close> over the map, with the count of dropped entries.\<close>

fun expire_entries :: "(peer \<Rightarrow> bool) \<Rightarrow> (bytes, peer list) dict \<Rightarrow> (bytes, peer list) dict \<times> nat" where
  "expire_entries P [] = ([], 0)"
| "expire_entries P ((k, v) # m) =
     (let kept = filter P v;
          (rest, expired) = expire_entries P m
      in (if kept = [] then rest else (k, kept) # rest, length v - length kept + expired))"

definition Expire :: "int \<Rightarrow> peer_store \<Rightarrow> peer_store \<times> nat" where
  "Expire now ps =
     (case expire_entries (live now ps) (ps_peers ps) of (m, expired) \<Rightarrow> (ps\<lparr>ps_peers := m\<rparr>, expired))"

definition Count :: "peer_store \<Rightarrow> nat" where
  "Count ps = sum_list (map (\<lambda>e. length (snd e)) (ps_peers ps))"

section \<open>The store implements the contract\<close>

definition store_ok :: "peer_store \<Rightarrow> bool" where
  "store_ok ps \<longleftrightarrow> sorted_dict (ps_peers ps) \<and> list_all (\<lambda>e. distinct (map p_Addr (snd e))) (ps_peers ps)"

definition announced :: "peer_store \<Rightarrow> bytes \<Rightarrow> addrport \<Rightarrow> int option" where
  "announced ps h a = map_of (map (\<lambda>p. (p_Addr p, Added p)) (stored ps h)) a"

lemma touch_None: "touch now a ps = None \<longleftrightarrow> a \<notin> p_Addr ` set ps"
  by (induction now a ps rule: touch.induct) auto

lemma touch_Some:
  "touch now a ps = Some l \<Longrightarrow> map p_Addr l = map p_Addr ps
    \<and> map_of (map (\<lambda>p. (p_Addr p, Added p)) l) = (map_of (map (\<lambda>p. (p_Addr p, Added p)) ps))(a \<mapsto> now)"
  by (induction now a ps arbitrary: l rule: touch.induct) (auto split: if_splits simp: fun_upd_twist)

lemma stored_distinct: "store_ok ps \<Longrightarrow> distinct (map p_Addr (stored ps h))"
  by (auto simp: store_ok_def stored_def list_all_iff split: option.split dest!: map_of_SomeD)

lemma stored_put [simp]:
  "stored (ps\<lparr>ps_peers := dict_put h l (ps_peers ps)\<rparr>) h' = (if h' = h then l else stored ps h')"
  by (simp add: stored_def)

lemma Add_ok [wf_intros]: "store_ok ps \<Longrightarrow> store_ok (Add now ps h a)"
proof -
  assume s: "store_ok ps"
  have "distinct (map p_Addr l) \<Longrightarrow> store_ok (ps\<lparr>ps_peers := dict_put h l (ps_peers ps)\<rparr>)" for l
    using s by (auto simp: store_ok_def intro: list_all_dict_put)
  then show ?thesis
    using stored_distinct [OF s, of h] touch_Some [of now a "stored ps h"] touch_None [of now a "stored ps h"]
    by (auto simp: Add_def split: option.split)
qed

lemma map_of_snoc: "a \<notin> fst ` set xs \<Longrightarrow> map_of (xs @ [(a, v)]) = (map_of xs)(a \<mapsto> v)"
  by (auto simp: map_add_def fun_eq_iff map_of_eq_None_iff [symmetric] split: option.split)

lemma announced_Add:
  "announced (Add now ps h a) = (announced ps)(h := (announced ps h)(a \<mapsto> now))"
proof -
  have "map_of (map (\<lambda>p. (p_Addr p, Added p)) (l @ [\<lparr>p_Addr = a, Added = now\<rparr>]))
      = (map_of (map (\<lambda>p. (p_Addr p, Added p)) l))(a \<mapsto> now)" if "a \<notin> p_Addr ` set l" for l
    using that map_of_snoc [of a "map (\<lambda>p. (p_Addr p, Added p)) l" now] by (simp add: image_image)
  then show ?thesis
    using touch_Some [of now a "stored ps h"] touch_None [of now a "stored ps h"]
    by (auto simp: announced_def Add_def fun_eq_iff simp del: map_append split: option.split)
qed

lemma expire_entries_keys:
  "fst ` set (fst (expire_entries P m)) \<subseteq> fst ` set m"
proof (induction P m rule: expire_entries.induct)
  case (2 P k v m)
  then show ?case by (cases "expire_entries P m") (simp add: Let_def subset_insertI2)
qed simp

lemma expire_entries_ok:
  "sorted_dict m \<Longrightarrow> sorted_dict (fst (expire_entries P m))
    \<and> map_of (fst (expire_entries P m)) h
        = (case map_of m h of Some v \<Rightarrow> if filter P v = [] then None else Some (filter P v) | None \<Rightarrow> None)"
proof (induction P m rule: expire_entries.induct)
  case (2 P k v m)
  have n: "map_of m k = None" using 2(2) by (rule map_of_fresh)
  have "\<forall>k' \<in> fst ` set (fst (expire_entries P m)). k < k'"
    using 2(2) expire_entries_keys [of P m] unfolding sorted_dict_Cons by blast
  with 2 n show ?case
    by (auto simp: Let_def sorted_dict_Cons split: prod.splits option.splits)
qed simp

lemma stored_Expire:
  assumes "store_ok ps"
  shows "stored (fst (Expire now ps)) h = filter (live now ps) (stored ps h)"
proof -
  have "sorted_dict (ps_peers ps)" using assms by (simp add: store_ok_def)
  from expire_entries_ok [OF this, of "live now ps" h] show ?thesis
    by (auto simp: stored_def Expire_def split: prod.splits option.splits if_splits)
qed

lemma map_of_filter_live:
  "distinct (map p_Addr l) \<Longrightarrow> map_of (map (\<lambda>p. (p_Addr p, Added p)) (filter (\<lambda>p. Q (Added p)) l)) a
    = (case map_of (map (\<lambda>p. (p_Addr p, Added p)) l) a of Some t \<Rightarrow> if Q t then Some t else None | None \<Rightarrow> None)"
  by (induction l) (auto split: option.split simp: map_of_eq_None_iff image_image)

lemma announced_Expire:
  assumes "store_ok ps"
  shows "announced (fst (Expire now ps)) h a =
    (case announced ps h a of Some t \<Rightarrow> if now - t < ps_ttl ps then Some t else None | None \<Rightarrow> None)"
  unfolding announced_def stored_Expire [OF assms] live_def [abs_def]
  by (rule map_of_filter_live [OF stored_distinct [OF assms]])

lemma Expire_ok [wf_intros]: "store_ok ps \<Longrightarrow> store_ok (fst (Expire now ps))"
proof -
  assume s: "store_ok ps"
  then have sd: "sorted_dict (ps_peers ps)" by (simp add: store_ok_def)
  have "distinct (map p_Addr v)" if "(k, v) \<in> set (fst (expire_entries (live now ps) (ps_peers ps)))" for k v
  proof -
    have "map_of (fst (expire_entries (live now ps) (ps_peers ps))) k = Some v"
      using that expire_entries_ok [OF sd] sorted_dict_distinct map_of_is_SomeI by metis
    with expire_entries_ok [OF sd, of "live now ps" k] obtain w where
      "map_of (ps_peers ps) k = Some w" "v = filter (live now ps) w"
      by (auto split: option.splits if_splits)
    with s show ?thesis by (auto simp: store_ok_def list_all_iff distinct_map_filter dest!: map_of_SomeD)
  qed
  then show ?thesis using expire_entries_ok [OF sd, of "live now ps"]
    by (auto simp: store_ok_def Expire_def list_all_iff split: prod.split)
qed

lemma Get_stored: "Get now ps h = map p_Addr (filter (live now ps) (stored ps h))"
  by (simp add: Get_def stored_def split: option.split)

lemma set_Get:
  assumes "store_ok ps"
  shows "set (Get now ps h) = {a. \<exists>t. announced ps h a = Some t \<and> now - t < ps_ttl ps}"
proof -
  have d: "distinct (map fst (map (\<lambda>p. (p_Addr p, Added p)) (stored ps h)))"
    using stored_distinct [OF assms, of h] by (simp add: comp_def)
  have "announced ps h a = Some t \<longleftrightarrow> (\<exists>p \<in> set (stored ps h). p_Addr p = a \<and> Added p = t)" for a t
    unfolding announced_def map_of_eq_Some_iff [OF d] by auto
  then show ?thesis by (auto simp: Get_stored live_def)
qed

interpretation store: announcements announced store_ok ps_ttl Add Get "\<lambda>now ps. fst (Expire now ps)"
proof unfold_locales
  show "distinct (Get now s h)" if "store_ok s" for s h now
    using stored_distinct [OF that, of h] by (simp add: Get_stored distinct_map_filter)
  show "ps_ttl (Add now s h a) = ps_ttl s" for now s h a by (simp add: Add_def split: option.split)
  show "ps_ttl (fst (Expire now s)) = ps_ttl s" for now s by (simp add: Expire_def split: prod.split)
qed (simp_all add: wf_intros announced_Add announced_Expire set_Get)

lemma New_ok [wf_intros]: "store_ok (NewPeerStore ttl)"
  by (simp add: store_ok_def NewPeerStore_def)

text \<open>The count is the number of announcements on record, expired or not.\<close>

lemma expire_entries_count:
  "sum_list (map (\<lambda>e. length (snd e)) m)
    = sum_list (map (\<lambda>e. length (snd e)) (fst (expire_entries P m))) + snd (expire_entries P m)"
proof (induction P m rule: expire_entries.induct)
  case (2 P k v m)
  show ?case using 2 length_filter_le [of P v]
    by (cases "expire_entries P m") (auto simp: Let_def simp del: length_filter_le)
qed simp

section \<open>Properties\<close>



end
