(* ===== verification/RateLimit.thy ===== *)
theory RateLimit
  imports Netip
begin

text \<open>
  \<open>internal/dht/hardening/ratelimit.go\<close>: a sliding-window counter per source address. Times
  and durations are nanoseconds; the products and sums of the estimate are those of Go's
  64-bit \<open>int\<close>.
\<close>

record ipWindow =
  prevCount :: int
  currCount :: int
  currStart :: int

record rate_limiter =
  windows :: "(addr, ipWindow) dict"
  limit :: int
  window :: int
  maxIPs :: int

definition second :: int where "second = 1000000000"

definition NewRateLimiter :: "int \<Rightarrow> int \<Rightarrow> int \<Rightarrow> rate_limiter" where
  "NewRateLimiter lim win maxips =
     \<lparr>windows = [], limit = (if lim \<le> 0 then 50 else lim),
      window = (if win \<le> 0 then 60 * second else win),
      maxIPs = (if maxips \<le> 0 then 100000 else maxips)\<rparr>"

definition expired :: "int \<Rightarrow> int \<Rightarrow> ipWindow \<Rightarrow> bool" where
  "expired now win w \<longleftrightarrow> now - currStart w \<ge> 2 * win"

definition cleanupLocked :: "int \<Rightarrow> rate_limiter \<Rightarrow> rate_limiter \<times> nat" where
  "cleanupLocked now rl =
     (let kept = filter (\<lambda>e. \<not> expired now (window rl) (snd e)) (windows rl)
      in (rl\<lparr>windows := kept\<rparr>, length (windows rl) - length kept))"

text \<open>The rotation at the start of \<open>Allow\<close>, and the estimate at its end.\<close>

definition rotate :: "int \<Rightarrow> int \<Rightarrow> ipWindow \<Rightarrow> ipWindow" where
  "rotate now win w =
     (if now - currStart w \<ge> 2 * win then w\<lparr>prevCount := 0, currCount := 0, currStart := now\<rparr>
      else if now - currStart w \<ge> win then
        w\<lparr>prevCount := currCount w, currCount := 0, currStart := currStart w + win\<rparr>
      else w)"

definition estimate :: "int \<Rightarrow> int \<Rightarrow> ipWindow \<Rightarrow> int" where
  "estimate now win w =
     (let remaining = win - (now - currStart w)
      in wrap64 (go_div (wrap64 (prevCount w * remaining)) win + currCount w))"

definition Allow :: "int \<Rightarrow> rate_limiter \<Rightarrow> addr \<Rightarrow> rate_limiter \<times> bool" where
  "Allow now rl ip =
     (let (w, rl1) = (case map_of (windows rl) ip of
            Some w \<Rightarrow> (w, rl)
          | None \<Rightarrow>
              (let w = \<lparr>prevCount = 0, currCount = 0, currStart = now\<rparr>;
                   rl' = rl\<lparr>windows := dict_put ip w (windows rl)\<rparr>
               in (w, if int (length (windows rl')) > maxIPs rl' then fst (cleanupLocked now rl') else rl')));
          w1 = rotate now (window rl) w;
          w2 = w1\<lparr>currCount := wrap64 (currCount w1 + 1)\<rparr>
      in (rl1\<lparr>windows := dict_put ip w2 (windows rl1)\<rparr>,
          estimate now (window rl) w2 \<le> limit rl))"

definition Cleanup :: "int \<Rightarrow> rate_limiter \<Rightarrow> rate_limiter \<times> nat" where
  "Cleanup now rl = cleanupLocked now rl"

definition Len :: "rate_limiter \<Rightarrow> nat" where
  "Len rl = length (windows rl)"

section \<open>One address at a time\<close>

text \<open>
  What the limiter knows of an address: its window, unless that has expired, which is the same
  as no entry. One call of \<open>Allow\<close> is this function of it.
\<close>

definition view :: "rate_limiter \<Rightarrow> addr \<Rightarrow> int \<Rightarrow> ipWindow option" where
  "view rl ip now =
     (case map_of (windows rl) ip of
        Some w \<Rightarrow> if expired now (window rl) w then None else Some w
      | None \<Rightarrow> None)"

definition hit :: "int \<Rightarrow> int \<Rightarrow> int \<Rightarrow> ipWindow option \<Rightarrow> ipWindow \<times> bool" where
  "hit now win lim v =
     (let w = (case v of
            None \<Rightarrow> \<lparr>prevCount = 0, currCount = 0, currStart = now\<rparr>
          | Some w \<Rightarrow> rotate now win w);
          w = w\<lparr>currCount := wrap64 (currCount w + 1)\<rparr>
      in (w, estimate now win w \<le> lim))"

definition limiter_ok :: "rate_limiter \<Rightarrow> bool" where
  "limiter_ok rl \<longleftrightarrow> sorted_dict (windows rl) \<and> 0 < window rl"

lemma map_of_filter_val:
  "distinct (map fst m) \<Longrightarrow> map_of (filter (\<lambda>e. P (snd e)) m) k
    = (case map_of m k of Some v \<Rightarrow> if P v then Some v else None | None \<Rightarrow> None)"
  by (induction m) (auto split: option.split simp: map_of_eq_None_iff image_image)

lemma cleanup_map:
  "limiter_ok rl \<Longrightarrow> map_of (windows (fst (cleanupLocked now rl))) ip = view rl ip now"
  by (auto simp: cleanupLocked_def view_def limiter_ok_def sorted_dict_distinct Let_def
      map_of_filter_val [where P = "\<lambda>w. \<not> expired now (window rl) w"] split: option.split)

lemma cleanup_frame [simp]:
  "window (fst (cleanupLocked now rl)) = window rl" "limit (fst (cleanupLocked now rl)) = limit rl"
  "maxIPs (fst (cleanupLocked now rl)) = maxIPs rl"
  by (simp_all add: cleanupLocked_def Let_def)

lemma cleanup_ok [wf_intros]: "limiter_ok rl \<Longrightarrow> limiter_ok (fst (cleanupLocked now rl))"
  by (auto simp: limiter_ok_def cleanupLocked_def Let_def)

lemma expired_mono: "expired now win w \<Longrightarrow> now \<le> later \<Longrightarrow> expired later win w"
  by (simp add: expired_def)

text \<open>A cleanup, whenever it happens, changes no view from then on.\<close>

lemma view_cleanup:
  assumes "limiter_ok rl" "now \<le> later"
  shows "view (fst (cleanupLocked now rl)) ip later = view rl ip later"
  unfolding view_def [of "fst (cleanupLocked now rl)"] cleanup_map [OF assms(1)]
  using expired_mono [OF _ assms(2)] by (auto simp: view_def split: option.splits)

definition start_window :: "int \<Rightarrow> rate_limiter \<Rightarrow> addr \<Rightarrow> ipWindow \<times> rate_limiter" where
  "start_window now rl ip = (case map_of (windows rl) ip of
      Some w \<Rightarrow> (w, rl)
    | None \<Rightarrow>
        (let w = \<lparr>prevCount = 0, currCount = 0, currStart = now\<rparr>;
             rl' = rl\<lparr>windows := dict_put ip w (windows rl)\<rparr>
         in (w, if int (length (windows rl')) > maxIPs rl' then fst (cleanupLocked now rl') else rl')))"

lemma Allow_start:
  "Allow now rl ip =
     (let (w, rl1) = start_window now rl ip;
          w1 = rotate now (window rl) w;
          w2 = w1\<lparr>currCount := wrap64 (currCount w1 + 1)\<rparr>
      in (rl1\<lparr>windows := dict_put ip w2 (windows rl1)\<rparr>, estimate now (window rl) w2 \<le> limit rl))"
  by (simp add: Allow_def start_window_def)

lemma start_window_facts:
  assumes "limiter_ok rl" "start_window now rl ip = (w, rl1)"
  shows "limiter_ok rl1" "window rl1 = window rl" "limit rl1 = limit rl" "maxIPs rl1 = maxIPs rl"
    and "j \<noteq> ip \<Longrightarrow> now \<le> later \<Longrightarrow> view rl1 j later = view rl j later"
    and "rotate now (window rl) w = (case view rl ip now of
            None \<Rightarrow> \<lparr>prevCount = 0, currCount = 0, currStart = now\<rparr>
          | Some w \<Rightarrow> rotate now (window rl) w)"
proof -
  let ?w = "\<lparr>prevCount = 0, currCount = 0, currStart = now\<rparr>"
  let ?rl = "rl\<lparr>windows := dict_put ip ?w (windows rl)\<rparr>"
  have ok: "limiter_ok ?rl" using assms(1) by (auto simp: limiter_ok_def)
  show "limiter_ok rl1" "window rl1 = window rl" "limit rl1 = limit rl" "maxIPs rl1 = maxIPs rl"
    using assms ok by (auto simp: start_window_def Let_def wf_intros split: option.splits)
  show "view rl1 j later = view rl j later" if "j \<noteq> ip" "now \<le> later"
  proof -
    have "view ?rl j later = view rl j later" using that by (simp add: view_def split: option.split)
    then show ?thesis using assms view_cleanup [OF ok that(2), of j]
      by (auto simp: start_window_def Let_def split: option.splits)
  qed
  show "rotate now (window rl) w = (case view rl ip now of
            None \<Rightarrow> \<lparr>prevCount = 0, currCount = 0, currStart = now\<rparr>
          | Some w \<Rightarrow> rotate now (window rl) w)"
    using assms by (auto simp: start_window_def view_def rotate_def expired_def limiter_ok_def Let_def
        split: option.splits if_splits)
qed

lemma Allow_view:
  assumes "limiter_ok rl"
  shows "snd (Allow now rl ip) = snd (hit now (window rl) (limit rl) (view rl ip now))"
    and "map_of (windows (fst (Allow now rl ip))) ip
      = Some (fst (hit now (window rl) (limit rl) (view rl ip now)))"
    and "j \<noteq> ip \<Longrightarrow> now \<le> later \<Longrightarrow> view (fst (Allow now rl ip)) j later = view rl j later"
    and "limiter_ok (fst (Allow now rl ip))" "window (fst (Allow now rl ip)) = window rl"
    "limit (fst (Allow now rl ip)) = limit rl"
proof -
  obtain w rl1 where s: "start_window now rl ip = (w, rl1)" by (cases "start_window now rl ip")
  note f = start_window_facts [OF assms s]
  show "snd (Allow now rl ip) = snd (hit now (window rl) (limit rl) (view rl ip now))"
    "map_of (windows (fst (Allow now rl ip))) ip
      = Some (fst (hit now (window rl) (limit rl) (view rl ip now)))"
    by (simp_all add: Allow_start s hit_def f(6) Let_def)
  show "view (fst (Allow now rl ip)) j later = view rl j later" if "j \<noteq> ip" "now \<le> later"
  proof -
    have "view (rl1\<lparr>windows := dict_put ip w' (windows rl1)\<rparr>) j later = view rl1 j later" for w'
      using that by (simp add: view_def split: option.split)
    then show ?thesis using f(5) [OF that] by (simp add: Allow_start s Let_def)
  qed
  show "limiter_ok (fst (Allow now rl ip))" "window (fst (Allow now rl ip)) = window rl"
    "limit (fst (Allow now rl ip)) = limit rl"
    using f(1-3) by (auto simp: Allow_start s Let_def limiter_ok_def)
qed

section \<open>How many calls are granted\<close>

lemma go_div_bounds: "0 \<le> a \<Longrightarrow> 0 < b \<Longrightarrow> 0 \<le> go_div a b \<and> go_div a b \<le> a"
  using zdiv_mono2 [of a 1 b] by (simp add: pos_imp_zdiv_nonneg_iff)

text \<open>With counters below \<open>B\<close> and \<open>2 * B * window\<close> in range, the estimate does not overflow and is
  at least the current count.\<close>

definition counts_ok :: "int \<Rightarrow> ipWindow \<Rightarrow> bool" where
  "counts_ok B w \<longleftrightarrow> 0 \<le> prevCount w \<and> prevCount w \<le> B \<and> 0 \<le> currCount w \<and> currCount w \<le> B"

lemma estimate_ge:
  assumes "counts_ok B w" "0 < win" "2 * B * win < 2 ^ 63" "currStart w \<le> now" "now < currStart w + win"
  shows "currCount w \<le> estimate now win w"
proof -
  define r where "r = win - (now - currStart w)"
  have r: "0 < r" "r \<le> win" using assms by (simp_all add: r_def)
  have B: "0 \<le> B" using assms(1) by (simp add: counts_ok_def)
  have p: "0 \<le> prevCount w * r" "prevCount w * r \<le> B * win"
    using assms(1) r by (auto simp: counts_ok_def intro: mult_mono)
  then have "in_int64 (prevCount w * r)"
    using assms(3) by (simp add: in_int64_def int64_min_def int64_max_def)
  then have e: "estimate now win w = wrap64 (go_div (prevCount w * r) win + currCount w)"
    by (simp add: estimate_def r_def wrap64_id)
  have d: "0 \<le> go_div (prevCount w * r) win" "go_div (prevCount w * r) win \<le> B * win"
    using go_div_bounds [OF p(1) assms(2)] p(2) by simp_all
  have "B \<le> B * win" using B assms(2) by (simp add: mult_le_cancel_left1)
  then have "in_int64 (go_div (prevCount w * r) win + currCount w)"
    using d assms(1,3) by (simp add: counts_ok_def in_int64_def int64_min_def int64_max_def)
  then show ?thesis using d by (simp add: e wrap64_id)
qed

text \<open>The answers to the calls of one address at the times \<open>ts\<close>: how many are granted.\<close>

fun grants :: "int \<Rightarrow> int \<Rightarrow> ipWindow option \<Rightarrow> int list \<Rightarrow> int" where
  "grants win lim v [] = 0"
| "grants win lim v (t # ts) =
     (case hit t win lim v of (w, ok) \<Rightarrow> of_bool ok + grants win lim (Some w) ts)"

lemma hit_Some:
  assumes "counts_ok B w" "currCount w < B" "0 < win" "2 * B * win < 2 ^ 63" "currStart w \<le> t"
    "hit t win lim (Some w) = (w', ok)"
  shows "counts_ok B w'" "currStart w' \<le> t" "t < currStart w' + win" "ok \<Longrightarrow> currCount w' \<le> lim"
    and "t < currStart w + win \<Longrightarrow> currStart w' = currStart w \<and> currCount w' = currCount w + 1"
    and "currStart w + win \<le> t \<Longrightarrow> currStart w + win \<le> currStart w' \<and> currCount w' = 1"
proof -
  have "B \<le> B * win" using assms(1,3) by (auto simp: counts_ok_def mult_le_cancel_left1)
  then have "2 * B < 2 ^ 63" using assms(4) by linarith
  then have "in_int64 (currCount w + 1)" "in_int64 1"
    using assms(1,2) by (auto simp: counts_ok_def in_int64_def int64_min_def int64_max_def)
  then have w: "w' = (rotate t win w)\<lparr>currCount := currCount (rotate t win w) + 1\<rparr>"
    using assms(6) by (auto simp: hit_def Let_def rotate_def wrap64_id)
  show c: "counts_ok B w'" "currStart w' \<le> t" "t < currStart w' + win"
    using assms(1-5) by (auto simp: w rotate_def counts_ok_def)
  show "currCount w' \<le> lim" if ok
    using that assms(6) estimate_ge [OF c(1) assms(3,4) c(2,3)] by (auto simp: hit_def Let_def)
  show "currStart w' = currStart w \<and> currCount w' = currCount w + 1" if "t < currStart w + win"
    using that assms(3) by (auto simp: w rotate_def)
  show "currStart w + win \<le> currStart w' \<and> currCount w' = 1" if "currStart w + win \<le> t"
    using that by (auto simp: w rotate_def)
qed

lemma counts_ok_mono: "counts_ok B w \<Longrightarrow> B \<le> C \<Longrightarrow> counts_ok C w"
  by (auto simp: counts_ok_def)

lemma grants_one_window:
  assumes "counts_ok B w" "currCount w + int (length ts) \<le> B" "0 < win" "2 * B * win < 2 ^ 63"
    and "sorted (currStart w # ts)" "\<forall>t \<in> set ts. t < currStart w + win" "0 \<le> lim"
  shows "grants win lim (Some w) ts \<le> max 0 (lim - currCount w)"
  using assms(1,2,5,6)
proof (induction ts arbitrary: w)
  case (Cons t ts)
  obtain w' ok where h: "hit t win lim (Some w) = (w', ok)" by (cases "hit t win lim (Some w)")
  have "currCount w < B" "currStart w \<le> t" using Cons.prems by auto
  note f = hit_Some [OF Cons.prems(1) this(1) assms(3,4) this(2) h]
  have t: "t < currStart w + win" using Cons.prems by simp
  have "grants win lim (Some w') ts \<le> max 0 (lim - currCount w')"
    using Cons.prems f(5) [OF t] f(1) by (intro Cons.IH) auto
  then show ?case using f(4) f(5) [OF t] by (auto simp: h)
qed simp

lemma grants_two_windows:
  assumes "counts_ok B w" "currCount w + int (length ts) \<le> B" "0 < win" "2 * B * win < 2 ^ 63"
    and "sorted (currStart w # ts)" "\<forall>t \<in> set ts. t < currStart w + 2 * win" "1 \<le> lim"
  shows "grants win lim (Some w) ts \<le> max 0 (lim - currCount w) + lim"
  using assms(1,2,5,6)
proof (induction ts arbitrary: w)
  case (Cons t ts)
  obtain w' ok where h: "hit t win lim (Some w) = (w', ok)" by (cases "hit t win lim (Some w)")
  have "currCount w < B" "currStart w \<le> t" using Cons.prems by auto
  note f = hit_Some [OF Cons.prems(1) this(1) assms(3,4) this(2) h]
  show ?case
  proof (cases "t < currStart w + win")
    case True
    have "grants win lim (Some w') ts \<le> max 0 (lim - currCount w') + lim"
      using Cons.prems f(5) [OF True] f(1) by (intro Cons.IH) auto
    then show ?thesis using f(4) f(5) [OF True] by (auto simp: h)
  next
    case False
    then have w': "currStart w + win \<le> currStart w'" "currCount w' = 1" using f(6) by auto
    have "0 \<le> currCount w" using Cons.prems(1) by (simp add: counts_ok_def)
    then have "grants win lim (Some w') ts \<le> max 0 (lim - currCount w')"
      using Cons.prems w' f(1,2) assms(3,4,7)
      by (intro grants_one_window [where B = B]) fastforce+
    then show ?thesis using f(4) w' assms(7) by (auto simp: h)
  qed
qed (use assms(7) in simp)

lemma hit_None: "hit t win lim None = hit t win lim (Some \<lparr>prevCount = 0, currCount = 0, currStart = t\<rparr>)"
  by (simp add: hit_def rotate_def)

lemma grants_interval:
  assumes "\<And>w. v = Some w \<Longrightarrow> counts_ok B w \<and> currCount w + int (length ts) \<le> B \<and> currStart w \<le> t0"
    and "int (length ts) \<le> B" "0 < win" "2 * B * win < 2 ^ 63" "sorted ts" "1 \<le> lim"
    and "\<forall>t \<in> set ts. t0 \<le> t \<and> t < t0 + win"
  shows "grants win lim v ts \<le> 2 * lim"
proof (cases ts)
  case (Cons t ts')
  define w where "w = (case v of Some w \<Rightarrow> w | None \<Rightarrow> \<lparr>prevCount = 0, currCount = 0, currStart = t\<rparr>)"
  have g: "grants win lim v ts = grants win lim (Some w) ts"
    by (auto simp: w_def Cons hit_None split: option.split)
  have w: "counts_ok B w" "currCount w + int (length ts) \<le> B" "currStart w \<le> t"
    using assms(1,2,7) by (auto simp: w_def Cons counts_ok_def split: option.split)
  obtain w' ok where h: "hit t win lim (Some w) = (w', ok)" by (cases "hit t win lim (Some w)")
  have "currCount w < B" using w(2) by (simp add: Cons)
  note f = hit_Some [OF w(1) this assms(3,4) w(3) h]
  have c: "1 \<le> currCount w'" "currCount w' + int (length ts') \<le> B"
    using f(5,6) w by (auto simp: Cons counts_ok_def linorder_not_less) (cases "t < currStart w + win"; simp)+
  have "grants win lim (Some w') ts' \<le> max 0 (lim - currCount w') + lim"
    using assms(5,7) f(1-3) c assms(3,4,6)
    by (intro grants_two_windows [where B = B]) (auto simp: Cons)
  then show ?thesis unfolding g using f(4) c(1) assms(6) by (auto simp: Cons h)
qed (use assms(6) in simp)

text \<open>A history of calls (\<open>Some ip\<close>) and cleanups (\<open>None\<close>) with their times.\<close>

fun granted :: "addr \<Rightarrow> (int \<times> addr option) list \<Rightarrow> rate_limiter \<Rightarrow> int" where
  "granted ip [] rl = 0"
| "granted ip ((t, None) # es) rl = granted ip es (fst (Cleanup t rl))"
| "granted ip ((t, Some j) # es) rl =
     (case Allow t rl j of (rl', ok) \<Rightarrow> of_bool (ok \<and> j = ip) + granted ip es rl')"

definition calls :: "addr \<Rightarrow> (int \<times> addr option) list \<Rightarrow> int list" where
  "calls ip es = map fst (filter (\<lambda>e. snd e = Some ip) es)"

definition unexpired :: "int \<Rightarrow> int \<Rightarrow> ipWindow option \<Rightarrow> ipWindow option" where
  "unexpired t win v = (case v of Some w \<Rightarrow> if expired t win w then None else Some w | None \<Rightarrow> None)"

lemma rotate_expired:
  "expired t win w \<Longrightarrow> rotate t win w = \<lparr>prevCount = 0, currCount = 0, currStart = t\<rparr>"
  by (cases w) (simp add: rotate_def expired_def)

lemma hit_unexpired: "0 < win \<Longrightarrow> hit t win lim (unexpired t win v) = hit t win lim v"
  by (auto simp: unexpired_def hit_def rotate_expired split: option.split)

text \<open>The other addresses and the cleanups make no difference to the answers of an address.\<close>

lemma granted_grants:
  assumes "limiter_ok rl" "sorted (map fst es)"
    and "\<And>t. now \<le> t \<Longrightarrow> view rl ip t = unexpired t (window rl) v"
    and "\<forall>e \<in> set es. now \<le> fst e"
  shows "granted ip es rl = grants (window rl) (limit rl) v (calls ip es)"
  using assms
proof (induction ip es rl arbitrary: v now rule: granted.induct)
  case (2 ip t es rl)
  have "granted ip es (fst (Cleanup t rl)) = grants (window (fst (Cleanup t rl))) (limit (fst (Cleanup t rl))) v (calls ip es)"
    using 2(2-) view_cleanup [OF 2(2), of t]
    by (intro 2(1) [where now = t]) (auto simp: Cleanup_def wf_intros)
  then show ?case by (simp add: Cleanup_def calls_def)
next
  case (3 ip t j es rl)
  obtain rl' ok where a: "Allow t rl j = (rl', ok)" by (cases "Allow t rl j")
  note av = Allow_view [OF 3(2)]
  have f: "limiter_ok rl'" "window rl' = window rl" "limit rl' = limit rl"
    using av(4-6) [of t j] by (simp_all add: a)
  have pos: "0 < window rl" using 3(2) by (simp add: limiter_ok_def)
  have es: "sorted (map fst es)" "\<forall>e \<in> set es. t \<le> fst e" "now \<le> t" using 3(3,5) by auto
  show ?case
  proof (cases "j = ip")
    case False
    have "granted ip es rl' = grants (window rl') (limit rl') v (calls ip es)"
    proof (rule 3(1) [OF a [symmetric] f(1) es(1) _ es(2)])
      show "view rl' ip u = unexpired u (window rl') v" if "t \<le> u" for u
        using av(3) [of ip j t u] False that 3(4) [of u] es(3) by (simp add: a f(2))
    qed
    then show ?thesis using a f False by (simp add: calls_def)
  next
    case True
    let ?h = "hit t (window rl) (limit rl) v"
    have h: "hit t (window rl) (limit rl) (view rl ip t) = ?h"
      using 3(4) [of t] es(3) pos by (simp add: hit_unexpired)
    have m: "map_of (windows rl') ip = Some (fst ?h)" "ok = snd ?h"
      using av(1,2) [of t ip] a h unfolding True by simp_all
    have "granted ip es rl' = grants (window rl') (limit rl') (Some (fst ?h)) (calls ip es)"
      by (rule 3(1) [OF a [symmetric] f(1) es(1) _ es(2)]) (simp add: view_def unexpired_def m f(2))
    then show ?thesis using a True m f
      by (simp add: calls_def split: prod.split)
  qed
qed (simp add: calls_def)

text \<open>What holds of every entry after \<open>n\<close> events: the counts are at most \<open>n\<close> and no window starts
  in the future.\<close>

definition entries_ok :: "int \<Rightarrow> int \<Rightarrow> rate_limiter \<Rightarrow> bool" where
  "entries_ok n now rl \<longleftrightarrow> (\<forall>ip w. map_of (windows rl) ip = Some w \<longrightarrow> counts_ok n w \<and> currStart w \<le> now)"

fun after :: "(int \<times> addr option) list \<Rightarrow> rate_limiter \<Rightarrow> rate_limiter" where
  "after [] rl = rl"
| "after ((t, None) # es) rl = after es (fst (Cleanup t rl))"
| "after ((t, Some j) # es) rl = after es (fst (Allow t rl j))"

lemma view_entries: "entries_ok n now rl \<Longrightarrow> view rl ip t = Some w \<Longrightarrow> counts_ok n w \<and> currStart w \<le> now"
  by (auto simp: view_def entries_ok_def split: option.splits if_splits)

lemma entries_ok_map:
  assumes "entries_ok n now rl" "\<And>j w. map_of (windows rl') j = Some w \<Longrightarrow> map_of (windows rl) j = Some w \<or> P w"
    and "\<And>w. P w \<Longrightarrow> counts_ok m w \<and> currStart w \<le> t" "n \<le> m" "now \<le> t"
  shows "entries_ok m t rl'"
  unfolding entries_ok_def
proof (intro allI impI)
  fix j w assume "map_of (windows rl') j = Some w"
  from assms(2) [OF this] show "counts_ok m w \<and> currStart w \<le> t"
    using assms(1,3-5) counts_ok_mono by (fastforce simp: entries_ok_def)
qed

lemma cleanup_subset:
  "limiter_ok rl \<Longrightarrow> map_of (windows (fst (cleanupLocked t rl))) j = Some w \<Longrightarrow> map_of (windows rl) j = Some w"
  by (auto simp: cleanup_map view_def split: option.splits if_splits)

lemma Allow_subset:
  assumes "limiter_ok rl" "map_of (windows (fst (Allow t rl ip))) j = Some w" "j \<noteq> ip"
  shows "map_of (windows rl) j = Some w"
proof -
  let ?w = "\<lparr>prevCount = 0, currCount = 0, currStart = t\<rparr>"
  have "limiter_ok (rl\<lparr>windows := dict_put ip ?w (windows rl)\<rparr>)" using assms(1) by (auto simp: limiter_ok_def)
  from cleanup_subset [OF this, of t j w] show ?thesis using assms(2,3)
    by (auto simp: Allow_start start_window_def Let_def split: option.splits if_splits)
qed

lemma entries_ok_Allow:
  assumes "limiter_ok rl" "entries_ok n now rl" "now \<le> t" "0 \<le> n" "2 * (n + 1) * window rl < 2 ^ 63"
  shows "entries_ok (n + 1) t (fst (Allow t rl ip))"
proof (rule entries_ok_map [OF assms(2) _ _ _ assms(3), where P = "\<lambda>w. counts_ok (n + 1) w \<and> currStart w \<le> t"])
  define v where "v = (case view rl ip t of Some w \<Rightarrow> w | None \<Rightarrow> \<lparr>prevCount = 0, currCount = 0, currStart = t\<rparr>)"
  have pos: "0 < window rl" using assms(1) by (simp add: limiter_ok_def)
  obtain w' ok where h: "hit t (window rl) (limit rl) (Some v) = (w', ok)" by (cases "hit t (window rl) (limit rl) (Some v)")
  have v: "counts_ok n v \<and> currStart v \<le> t"
    using view_entries [OF assms(2)] assms(3,4) by (fastforce simp: v_def counts_ok_def split: option.split)
  then have "counts_ok (n + 1) v" "currCount v < n + 1" "currStart v \<le> t"
    by (auto simp: counts_ok_def)
  then have w': "counts_ok (n + 1) w' \<and> currStart w' \<le> t"
    using hit_Some [OF _ _ pos assms(5) _ h] by blast
  have eq: "map_of (windows (fst (Allow t rl ip))) ip = Some w'"
    using Allow_view(2) [OF assms(1), of t ip] h by (auto simp: v_def hit_None split: option.splits)
  fix j w assume j: "map_of (windows (fst (Allow t rl ip))) j = Some w"
  show "map_of (windows rl) j = Some w \<or> counts_ok (n + 1) w \<and> currStart w \<le> t"
    using Allow_subset [OF assms(1) j] j eq w' by (cases "j = ip") auto
qed auto

lemma after_ok:
  assumes "limiter_ok rl" "entries_ok n now rl" "sorted (map fst es)" "\<forall>e \<in> set es. now \<le> fst e \<and> fst e \<le> t0"
    and "0 \<le> n" "2 * (n + int (length es)) * window rl < 2 ^ 63" "now \<le> t0"
  shows "limiter_ok (after es rl) \<and> entries_ok (n + int (length es)) t0 (after es rl)
    \<and> window (after es rl) = window rl \<and> limit (after es rl) = limit rl"
  using assms
proof (induction es rl arbitrary: n now rule: after.induct)
  case (1 rl)
  then show ?case using entries_ok_map [of n now rl rl "\<lambda>_. False" n t0] by auto
next
  case (2 t es rl)
  have e: "entries_ok (n + 1) t (fst (Cleanup t rl))"
    unfolding Cleanup_def
  proof (rule entries_ok_map [OF 2(3), where P = "\<lambda>_. False"])
    show "now \<le> t" using 2(5) by simp
  qed (auto dest: cleanup_subset [OF 2(2)])
  have ok: "limiter_ok (fst (Cleanup t rl))" using 2(2) by (simp add: Cleanup_def wf_intros)
  have w: "2 * (n + 1 + int (length es)) * window (fst (Cleanup t rl)) < 2 ^ 63"
    using 2(7) by (simp add: Cleanup_def ac_simps)
  have es: "sorted (map fst es)" "\<forall>e \<in> set es. t \<le> fst e \<and> fst e \<le> t0" "0 \<le> n + 1" "t \<le> t0"
    using 2(4-6) by auto
  show ?case using 2(1) [OF ok e es(1,2,3) w es(4)] by (simp add: Cleanup_def ac_simps)
next
  case (3 t j es rl)
  have pos: "0 < window rl" using 3(2) by (simp add: limiter_ok_def)
  have "2 * (n + 1) * window rl \<le> 2 * (n + int (length ((t, Some j) # es))) * window rl"
    using pos by (intro mult_right_mono) auto
  then have "2 * (n + 1) * window rl < 2 ^ 63" using 3(7) by linarith
  moreover have "now \<le> t" using 3(5) by simp
  ultimately have e: "entries_ok (n + 1) t (fst (Allow t rl j))"
    using entries_ok_Allow [OF 3(2,3)] 3(6) by blast
  note av = Allow_view(4-6) [OF 3(2), of t j]
  have w: "2 * (n + 1 + int (length es)) * window (fst (Allow t rl j)) < 2 ^ 63"
    using 3(7) by (simp add: av ac_simps)
  have es: "sorted (map fst es)" "\<forall>e \<in> set es. t \<le> fst e \<and> fst e \<le> t0" "0 \<le> n + 1" "t \<le> t0"
    using 3(4-6) by auto
  show ?case using 3(1) [OF av(1) e es(1,2,3) w es(4)] by (simp add: av ac_simps)
qed

lemma New_limiter: "limiter_ok (NewRateLimiter l w m)" "entries_ok 0 now (NewRateLimiter l w m)"
  "1 \<le> limit (NewRateLimiter l w m)"
  by (auto simp: NewRateLimiter_def limiter_ok_def entries_ok_def second_def)

lemma length_calls: "length (calls ip es) \<le> length es"
  by (simp add: calls_def)

section \<open>Properties\<close>



text \<open>The answer to an address depends on its own unexpired window only: a call for another
  address or a sweep of expired entries, also the emergency sweep inside \<open>Allow\<close>, leaves what
  the limiter knows of it unchanged, and an address without an unexpired window is granted.\<close>

theorem addresses_independent:
  assumes "limiter_ok rl" "now \<le> later" "1 \<le> limit rl"
  shows "(j \<noteq> ip \<longrightarrow> view (fst (Allow now rl ip)) j later = view rl j later)
    \<and> view (fst (Cleanup now rl)) j later = view rl j later
    \<and> (limiter_ok rl' \<and> window rl' = window rl \<and> limit rl' = limit rl \<and> view rl' ip now = view rl ip now
        \<longrightarrow> snd (Allow now rl' ip) = snd (Allow now rl ip))
    \<and> (view rl ip now = None \<longrightarrow> snd (Allow now rl ip))"
proof -
  have "in_int64 1" by (simp add: in_int64_def int64_min_def int64_max_def)
  then have fresh: "snd (hit now (window rl) (limit rl) None)"
    using assms(3) by (simp add: hit_def estimate_def wrap64_id go_div_def in_int64_def int64_min_def int64_max_def)
  show ?thesis
    using Allow_view(1,3) [OF assms(1)] Allow_view(1) [of rl' now ip] view_cleanup [OF assms(1,2)] assms(2) fresh
    by (simp add: Cleanup_def)
qed

theorem addresses_independent_witness:
  "snd (Allow 5 (fst (Allow 3 (NewRateLimiter 1 100 10) (IPv4 [1, 1, 1, 1]))) (IPv4 [2, 2, 2, 2]))"
proof -
  let ?r = "NewRateLimiter 1 100 10"
  let ?s = "fst (Allow 3 ?r (IPv4 [1, 1, 1, 1]))"
  have "limiter_ok ?s" "limit ?s = 1"
    using Allow_view(4,6) [OF New_limiter(1) [of 1 100 10], of 3 "IPv4 [1, 1, 1, 1]"]
    by (simp, simp add: NewRateLimiter_def)
  moreover have "view ?s (IPv4 [2, 2, 2, 2]) 5 = view ?r (IPv4 [2, 2, 2, 2]) 5"
    using addresses_independent [OF New_limiter(1), where now = 3 and later = 5 and j = "IPv4 [2, 2, 2, 2]" and ip = "IPv4 [1, 1, 1, 1]"]
      New_limiter(3) by simp
  moreover have "view ?r (IPv4 [2, 2, 2, 2]) 5 = None" by (simp add: view_def NewRateLimiter_def)
  ultimately show ?thesis
    using addresses_independent [where rl = ?s and now = 5 and later = 5 and ip = "IPv4 [2, 2, 2, 2]"
        and j = "IPv4 [2, 2, 2, 2]" and rl' = ?s, THEN conjunct2, THEN conjunct2, THEN conjunct2, THEN mp]
    by simp
qed

text \<open>\<open>maxIPs\<close> only triggers a sweep: with nothing expired the map grows beyond it.\<close>

lemma maxIPs_exceeded:
  "Len (after (map (\<lambda>i. (0, Some (IPv4 [10, 0, 0, i]))) [0, 1, 2, 3]) (NewRateLimiter 100 1000 2)) = 4"
  by code_simp

end
