(* ===== verification/Krpc.thy ===== *)
theory Krpc
  imports Bencode Netip
begin

text \<open>
  Package \<open>internal/dht/krpc\<close>: the messages (\<open>message.go\<close>), the table of pending transactions
  (\<open>transaction.go\<close>) and the dispatch of received packets (\<open>server.go\<close>). The socket and the
  random source are arguments. A nil map of arguments is written like an empty one, so both are
  the empty map here; a nil \<open>IP\<close> is not, so that field is an option.
\<close>

section \<open>Messages\<close>

record message =
  TransactionID :: bytes
  Type :: bytes
  QueryMethod :: bytes
  Args :: "(bytes, bval) dict"
  Response :: "(bytes, bval) dict"
  Error :: "bval list"
  IP :: "bytes option"

definition empty_message :: message where
  "empty_message = \<lparr>TransactionID = [], Type = [], QueryMethod = [], Args = [], Response = [],
     Error = [], IP = None\<rparr>"

datatype krpc_error =
    BencodeError dec_error
  | NotADictionary
  | MissingField string
  | InvalidField string
  | UnknownType bytes

definition toString :: "bval \<Rightarrow> bytes option" where
  "toString v = (case v of BString s \<Rightarrow> Some s | BBytes s \<Rightarrow> Some s | _ \<Rightarrow> None)"

abbreviation key :: "string \<Rightarrow> bytes" where "key \<equiv> ascii"

text \<open>\<open>dict[k]\<close> followed by \<open>toString\<close>, with the two error returns.\<close>

definition string_field :: "(bytes, bval) dict \<Rightarrow> string \<Rightarrow> krpc_error + bytes" where
  "string_field dict k =
     (case map_of dict (key k) of
        None \<Rightarrow> Inl (MissingField k)
      | Some v \<Rightarrow> (case toString v of None \<Rightarrow> Inl (InvalidField k) | Some s \<Rightarrow> Inr s))"

definition dict_field :: "(bytes, bval) dict \<Rightarrow> string \<Rightarrow> krpc_error + (bytes, bval) dict" where
  "dict_field dict k =
     (case map_of dict (key k) of
        None \<Rightarrow> Inl (MissingField k)
      | Some (BDict d) \<Rightarrow> Inr d
      | Some _ \<Rightarrow> Inl (InvalidField k))"

definition list_field :: "(bytes, bval) dict \<Rightarrow> string \<Rightarrow> krpc_error + bval list" where
  "list_field dict k =
     (case map_of dict (key k) of
        None \<Rightarrow> Inl (MissingField k)
      | Some (BList l) \<Rightarrow> Inr l
      | Some _ \<Rightarrow> Inl (InvalidField k))"

text \<open>The switch on the message type, on the message built so far.\<close>

definition typed_fields :: "(bytes, bval) dict \<Rightarrow> message \<Rightarrow> krpc_error + message" where
  "typed_fields dict msg =
     (if Type msg = key ''q'' then
        (case string_field dict ''q'' of
           Inl e \<Rightarrow> Inl e
         | Inr q \<Rightarrow> (case dict_field dict ''a'' of
             Inl e \<Rightarrow> Inl e
           | Inr a \<Rightarrow> Inr (msg\<lparr>QueryMethod := q, Args := a\<rparr>)))
      else if Type msg = key ''r'' then
        (case dict_field dict ''r'' of Inl e \<Rightarrow> Inl e | Inr r \<Rightarrow> Inr (msg\<lparr>Response := r\<rparr>))
      else if Type msg = key ''e'' then
        (case list_field dict ''e'' of Inl e \<Rightarrow> Inl e | Inr e \<Rightarrow> Inr (msg\<lparr>Error := e\<rparr>))
      else Inl (UnknownType (Type msg)))"

definition ip_field :: "(bytes, bval) dict \<Rightarrow> message \<Rightarrow> message" where
  "ip_field dict msg =
     (case map_of dict (key ''ip'') of
        Some (BString v) \<Rightarrow> msg\<lparr>IP := Some v\<rparr>
      | Some (BBytes v) \<Rightarrow> msg\<lparr>IP := Some v\<rparr>
      | _ \<Rightarrow> msg)"

definition Unmarshal :: "bytes \<Rightarrow> krpc_error + message" where
  "Unmarshal data =
     (case Decode data of
        Inl e \<Rightarrow> Inl (BencodeError e)
      | Inr (BDict dict) \<Rightarrow>
          (case string_field dict ''t'' of
             Inl e \<Rightarrow> Inl e
           | Inr t \<Rightarrow>
               (case string_field dict ''y'' of
                  Inl e \<Rightarrow> Inl e
                | Inr y \<Rightarrow>
                    (case typed_fields dict (empty_message\<lparr>TransactionID := t, Type := y\<rparr>) of
                       Inl e \<Rightarrow> Inl e
                     | Inr msg \<Rightarrow> Inr (ip_field dict msg))))
      | Inr _ \<Rightarrow> Inl NotADictionary)"

definition message_dict :: "message \<Rightarrow> (bytes, bval) dict" where
  "message_dict msg =
     (let dict = dict_put (key ''y'') (BString (Type msg))
            (dict_put (key ''t'') (BString (TransactionID msg)) []);
          dict = (if Type msg = key ''q'' then
                    dict_put (key ''a'') (BDict (Args msg))
                      (dict_put (key ''q'') (BString (QueryMethod msg)) dict)
                  else if Type msg = key ''r'' then dict_put (key ''r'') (BDict (Response msg)) dict
                  else if Type msg = key ''e'' then dict_put (key ''e'') (BList (Error msg)) dict
                  else dict)
      in case IP msg of Some ip \<Rightarrow> dict_put (key ''ip'') (BString ip) dict | None \<Rightarrow> dict)"

definition Marshal :: "message \<Rightarrow> enc_error + bytes" where
  "Marshal msg = Encode (BDict (message_dict msg))"

section \<open>Reading a marshalled message\<close>

definition canonical :: "message \<Rightarrow> bool" where
  "canonical m \<longleftrightarrow>
     (Type m = key ''q'' \<and> Response m = [] \<and> Error m = []
      \<or> Type m = key ''r'' \<and> QueryMethod m = [] \<and> Args m = [] \<and> Error m = []
      \<or> Type m = key ''e'' \<and> QueryMethod m = [] \<and> Args m = [] \<and> Response m = [])"

text \<open>
  A message a Go program can write: its values encodable and not nested too deeply. What is read
  back has its byte strings in the form the decoder gives them; a well-formed message already
  has them in that form.
\<close>

definition encodable :: "bval \<Rightarrow> bool" where
  "encodable v \<longleftrightarrow> wf_bval v \<and> Suc 0 + height v \<le> maxDecodeDepth"

definition sendable :: "message \<Rightarrow> bool" where
  "sendable m \<longleftrightarrow> canonical m
     \<and> in_int64 (int (length (TransactionID m))) \<and> in_int64 (int (length (QueryMethod m)))
     \<and> (\<forall>ip. IP m = Some ip \<longrightarrow> in_int64 (int (length ip)))
     \<and> encodable (BDict (Args m)) \<and> encodable (BDict (Response m)) \<and> encodable (BList (Error m))"

definition norm_dict :: "(bytes, bval) dict \<Rightarrow> (bytes, bval) dict" where
  "norm_dict d = map (\<lambda>e. (fst e, norm (snd e))) d"

definition norm_message :: "message \<Rightarrow> message" where
  "norm_message m = m\<lparr>Args := norm_dict (Args m), Response := norm_dict (Response m), Error := map norm (Error m)\<rparr>"

definition wf_message :: "message \<Rightarrow> bool" where
  "wf_message m \<longleftrightarrow> canonical m
     \<and> in_int64 (int (length (TransactionID m))) \<and> in_int64 (int (length (QueryMethod m)))
     \<and> (\<forall>ip. IP m = Some ip \<longrightarrow> in_int64 (int (length ip)))
     \<and> ok_val 1 (BDict (Args m)) \<and> ok_val 1 (BDict (Response m)) \<and> ok_val 1 (BList (Error m))"

lemma map_of_norm: "map_of (map (\<lambda>e. (fst e, norm (snd e))) d) k = map_option norm (map_of d k)"
  by (induction d) auto

lemma toString_norm [simp]: "toString (norm (BString s)) = Some s"
  by (simp add: toString_def)

text \<open>The keys in byte form, and the dictionary written out for each type of message.\<close>

lemma key_bytes:
  "key ''a'' = [0x61]" "key ''e'' = [0x65]" "key ''ip'' = [0x69, 0x70]" "key ''q'' = [0x71]"
  "key ''r'' = [0x72]" "key ''t'' = [0x74]" "key ''y'' = [0x79]"
  by (simp_all add: ascii_def)

definition ip_entry :: "message \<Rightarrow> (bytes, bval) dict" where
  "ip_entry m = (case IP m of Some ip \<Rightarrow> [(key ''ip'', BString ip)] | None \<Rightarrow> [])"

lemma message_dict_q:
  "Type m = key ''q'' \<Longrightarrow> message_dict m = (key ''a'', BDict (Args m)) # ip_entry m
    @ [(key ''q'', BString (QueryMethod m)), (key ''t'', BString (TransactionID m)), (key ''y'', BString (Type m))]"
  unfolding message_dict_def ip_entry_def key_bytes by (cases "IP m") (simp_all add: Let_def)

lemma message_dict_r:
  "Type m = key ''r'' \<Longrightarrow> message_dict m = ip_entry m @ [(key ''r'', BDict (Response m)),
    (key ''t'', BString (TransactionID m)), (key ''y'', BString (Type m))]"
  unfolding message_dict_def ip_entry_def key_bytes by (cases "IP m") (simp_all add: Let_def)

lemma message_dict_e:
  "Type m = key ''e'' \<Longrightarrow> message_dict m = (key ''e'', BList (Error m)) # ip_entry m
    @ [(key ''t'', BString (TransactionID m)), (key ''y'', BString (Type m))]"
  unfolding message_dict_def ip_entry_def key_bytes by (cases "IP m") (simp_all add: Let_def)

lemmas message_dict_forms = message_dict_q message_dict_r message_dict_e

lemma ip_entry_lookup:
  "map_of (ip_entry m) k = (if k = key ''ip'' then map_option BString (IP m) else None)"
  by (simp add: ip_entry_def split: option.split)

lemma canonical_cases:
  assumes "canonical m"
  obtains (q) "Type m = key ''q''" "Response m = []" "Error m = []"
    | (r) "Type m = key ''r''" "QueryMethod m = []" "Args m = []" "Error m = []"
    | (e) "Type m = key ''e''" "QueryMethod m = []" "Args m = []" "Response m = []"
  using assms by (auto simp: canonical_def)

lemma message_dict_sorted: "canonical m \<Longrightarrow> sorted_dict (message_dict m)"
  by (cases rule: canonical_cases, assumption; cases "IP m")
    (simp_all add: message_dict_forms ip_entry_def sorted_dict_def key_bytes)

lemma small_in_int64: "n < 1000 \<Longrightarrow> in_int64 (int n)"
  by (simp add: in_int64_def int64_min_def int64_max_def)

lemma message_dict_all:
  assumes "sendable m"
  shows "list_all (\<lambda>e. in_int64 (int (length (fst e))) \<and> encodable (snd e)) (message_dict m)"
proof -
  have l: "in_int64 (int (length (Type m)))"
    using assms by (auto simp: sendable_def canonical_def intro!: small_in_int64)
  have s: "encodable (BString s)" if "in_int64 (int (length s))" for s
    using that by (simp add: encodable_def maxDecodeDepth_def)
  have k: "in_int64 (int (length (key k)))" if "k \<in> {''a'', ''e'', ''ip'', ''q'', ''r'', ''t'', ''y''}" for k
    using that by (auto intro!: small_in_int64)
  have ip: "list_all (\<lambda>e. in_int64 (int (length (fst e))) \<and> encodable (snd e)) (ip_entry m)"
    using assms s k [of "''ip''"] by (auto simp: ip_entry_def sendable_def split: option.split)
  have "canonical m" using assms by (simp add: sendable_def)
  then show ?thesis
    by (cases rule: canonical_cases; insert assms s l k ip)
      (simp_all add: message_dict_forms sendable_def)
qed

lemma norm_ok: "ok_val d v \<Longrightarrow> norm v = v"
  by (simp add: ok_val_def)

lemma wf_message_sendable: "wf_message m \<Longrightarrow> sendable m \<and> norm_message m = m"
proof -
  assume w: "wf_message m"
  then have "norm (BDict (Args m)) = BDict (Args m)" "norm (BDict (Response m)) = BDict (Response m)"
    "norm (BList (Error m)) = BList (Error m)" unfolding wf_message_def using norm_ok by blast+
  with w show ?thesis
    by (simp add: wf_message_def sendable_def norm_message_def norm_dict_def encodable_def ok_val_def
        del: wf_bval.simps height.simps)
qed

lemma Unmarshal_dict:
  assumes c: "canonical m"
  defines "d \<equiv> map (\<lambda>e. (fst e, norm (snd e))) (message_dict m)"
  shows "string_field d ''t'' = Inr (TransactionID m)" "string_field d ''y'' = Inr (Type m)"
    "typed_fields d (empty_message\<lparr>TransactionID := TransactionID m, Type := Type m\<rparr>)
      = Inr ((norm_message m)\<lparr>IP := None\<rparr>)"
    "ip_field d ((norm_message m)\<lparr>IP := None\<rparr>) = norm_message m"
proof -
  show "string_field d ''t'' = Inr (TransactionID m)" "string_field d ''y'' = Inr (Type m)"
    using c unfolding d_def by (cases rule: canonical_cases;
      simp add: string_field_def map_of_norm message_dict_forms ip_entry_lookup map_add_def toString_norm del: norm.simps)+
  show "typed_fields d (empty_message\<lparr>TransactionID := TransactionID m, Type := Type m\<rparr>)
      = Inr ((norm_message m)\<lparr>IP := None\<rparr>)"
    using c unfolding d_def by (cases rule: canonical_cases; cases m)
      (simp_all add: typed_fields_def string_field_def dict_field_def list_field_def map_of_norm
        message_dict_forms ip_entry_lookup map_add_def empty_message_def toString_def norm_message_def norm_dict_def)
  show "ip_field d ((norm_message m)\<lparr>IP := None\<rparr>) = norm_message m"
    using c unfolding d_def by (cases rule: canonical_cases; cases "IP m"; cases m)
      (simp_all add: ip_field_def map_of_norm message_dict_forms ip_entry_lookup map_add_def norm_message_def)
qed

text \<open>Whatever a packet holds, a message read from it is well formed, so it can be marshalled again.\<close>

lemma ok_val_lookup:
  "ok_val 0 (BDict d) \<Longrightarrow> map_of d k = Some v \<Longrightarrow> ok_val 1 v"
  by (fastforce simp: ok_val_BDict list_all_iff dest: map_of_SomeD)

lemma ok_val_string: "ok_val d v \<Longrightarrow> toString v = Some s \<Longrightarrow> in_int64 (int (length s))"
  by (auto simp: ok_val_def toString_def split: bval.splits)

lemma ok_val_empty: "ok_val 1 (BDict [])" "ok_val 1 (BList [])"
  by (simp_all add: ok_val_BDict ok_val_BList maxDecodeDepth_def)

lemma string_field_ok: "ok_val 0 (BDict d) \<Longrightarrow> string_field d k = Inr s \<Longrightarrow> in_int64 (int (length s))"
  by (auto simp: string_field_def split: option.splits dest: ok_val_lookup ok_val_string)

lemma dict_field_ok: "ok_val 0 (BDict d) \<Longrightarrow> dict_field d k = Inr m \<Longrightarrow> ok_val 1 (BDict m)"
  by (auto simp: dict_field_def split: option.splits bval.splits dest: ok_val_lookup)

lemma list_field_ok: "ok_val 0 (BDict d) \<Longrightarrow> list_field d k = Inr l \<Longrightarrow> ok_val 1 (BList l)"
  by (auto simp: list_field_def split: option.splits bval.splits dest: ok_val_lookup)

lemma wf_message_IP: "wf_message m \<Longrightarrow> in_int64 (int (length v)) \<Longrightarrow> wf_message (m\<lparr>IP := Some v\<rparr>)"
  by (simp add: wf_message_def canonical_def)

lemma ip_field_wf:
  assumes "wf_message m" "ok_val 0 (BDict d)"
  shows "wf_message (ip_field d m)"
proof (cases "map_of d (key ''ip'')")
  case (Some v)
  from ok_val_lookup [OF assms(2) this] have "toString v = Some s \<Longrightarrow> in_int64 (int (length s))" for s
    by (rule ok_val_string)
  with Some assms(1) show ?thesis
    by (cases v) (simp_all add: ip_field_def toString_def wf_message_IP)
qed (simp add: ip_field_def assms(1))

lemma Unmarshal_wf:
  assumes "in_int64 (int (length data))" "Unmarshal data = Inr m"
  shows "wf_message m"
proof -
  from assms(2) obtain d t y m0 where d: "Decode data = Inr (BDict d)" "string_field d ''t'' = Inr t"
    "string_field d ''y'' = Inr y"
    and m0: "typed_fields d (empty_message\<lparr>TransactionID := t, Type := y\<rparr>) = Inr m0" and m: "m = ip_field d m0"
    by (auto simp: Unmarshal_def split: sum.splits bval.splits)
  have ok: "ok_val 0 (BDict d)" using Decode_ok_val [OF assms(1) d(1)] .
  have l: "in_int64 (int (length t))" "in_int64 0" using string_field_ok [OF ok d(2)] small_in_int64 [of 0] by auto
  have "wf_message m0 \<and> IP m0 = None"
    using m0 l ok ok_val_empty string_field_ok [OF ok] dict_field_ok [OF ok] list_field_ok [OF ok]
    by (auto simp: typed_fields_def wf_message_def canonical_def empty_message_def split: if_splits sum.splits)
  then show ?thesis using ip_field_wf [OF _ ok] by (simp add: m)
qed

lemma Marshal_Unmarshal:
  assumes "sendable m"
  obtains b where "Marshal m = Inr b" "Unmarshal b = Inr (norm_message m)"
proof -
  have c: "canonical m" using assms by (simp add: sendable_def)
  have all: "list_all (\<lambda>e. in_int64 (int (length (fst e))) \<and> encodable (snd e)) (message_dict m)"
    by (rule message_dict_all [OF assms])
  then have "wf_bval (BDict (message_dict m))"
    using message_dict_sorted [OF c] by (auto simp: list_all_iff encodable_def)
  moreover have "0 + height (BDict (message_dict m)) \<le> maxDecodeDepth"
    unfolding height_BDict_le using all by (auto simp: list_all_iff encodable_def)
  ultimately obtain b where b: "Marshal m = Inr b" "Decode b = Inr (norm (BDict (message_dict m)))"
    unfolding Marshal_def add_0 by (rule Encode_then_Decode)
  moreover have "Unmarshal b = Inr (norm_message m)"
    using Unmarshal_dict [OF c] by (simp add: Unmarshal_def b(2))
  ultimately show thesis using that by blast
qed

section \<open>Transactions\<close>

text \<open>
  A channel is made with a buffer of one. Sending on a full channel would block and sending on
  or closing a closed one would panic; both are \<^const>\<open>None\<close> here. Channels are numbered in the
  order they are made; \<open>chans\<close> holds all that were ever made.
\<close>

record channel =
  buffered :: "message option"
  closed :: bool

record txn_manager =
  pending :: "(bytes, nat) dict"
  chans :: "channel list"

definition NewTransactionManager :: txn_manager where
  "NewTransactionManager = \<lparr>pending = [], chans = []\<rparr>"

definition chan_send :: "message \<Rightarrow> channel \<Rightarrow> channel option" where
  "chan_send msg c = (if closed c \<or> buffered c \<noteq> None then None else Some (c\<lparr>buffered := Some msg\<rparr>))"

definition chan_close :: "channel \<Rightarrow> channel option" where
  "chan_close c = (if closed c then None else Some (c\<lparr>closed := True\<rparr>))"

text \<open>
  \<open>Add\<close> draws two-byte identifiers until one is free. The draws are an argument; \<^const>\<open>None\<close> is
  the loop still running when they are used up.
\<close>

fun draw :: "bytes list \<Rightarrow> (bytes, nat) dict \<Rightarrow> bytes option" where
  "draw [] p = None"
| "draw (txnID # rnds) p = (if map_of p txnID = None then Some txnID else draw rnds p)"

definition Txn_Add :: "bytes list \<Rightarrow> txn_manager \<Rightarrow> (txn_manager \<times> bytes \<times> nat) option" where
  "Txn_Add rnds tm =
     (case draw rnds (pending tm) of
        None \<Rightarrow> None
      | Some txnID \<Rightarrow>
          (let ch = length (chans tm)
           in Some (tm\<lparr>pending := dict_put txnID ch (pending tm),
                  chans := chans tm @ [\<lparr>buffered = None, closed = False\<rparr>]\<rparr>, txnID, ch)))"

definition Complete :: "txn_manager \<Rightarrow> bytes \<Rightarrow> message \<Rightarrow> (txn_manager \<times> bool) option" where
  "Complete tm txnID msg =
     (case map_of (pending tm) txnID of
        None \<Rightarrow> Some (tm, False)
      | Some ch \<Rightarrow>
          (case chan_send msg (chans tm ! ch) of
             None \<Rightarrow> None
           | Some c \<Rightarrow>
               (case chan_close c of
                  None \<Rightarrow> None
                | Some c \<Rightarrow> Some (tm\<lparr>chans := (chans tm)[ch := c], pending := dict_del txnID (pending tm)\<rparr>, True))))"

definition Cancel :: "txn_manager \<Rightarrow> bytes \<Rightarrow> txn_manager option" where
  "Cancel tm txnID =
     (case map_of (pending tm) txnID of
        None \<Rightarrow> Some tm
      | Some ch \<Rightarrow>
          (case chan_close (chans tm ! ch) of
             None \<Rightarrow> None
           | Some c \<Rightarrow> Some (tm\<lparr>chans := (chans tm)[ch := c], pending := dict_del txnID (pending tm)\<rparr>)))"

section \<open>The server\<close>

text \<open>
  One received packet in \<open>readLoop\<close>: malformed packets are dropped, answers complete their
  transaction, queries go to the handler (second component).
\<close>

definition receive :: "txn_manager \<Rightarrow> bytes \<Rightarrow> (txn_manager \<times> message option) option" where
  "receive tm data =
     (case Unmarshal data of
        Inl _ \<Rightarrow> Some (tm, None)
      | Inr msg \<Rightarrow>
          (if Type msg = key ''r'' \<or> Type msg = key ''e'' then
             map_option (\<lambda>(tm', _). (tm', None)) (Complete tm (TransactionID msg) msg)
           else if Type msg = key ''q'' then Some (tm, Some msg)
           else Some (tm, None)))"

text \<open>\<open>Send\<close>: \<open>written\<close> is whether the socket takes the packet; the result has the packet.\<close>

definition Send :: "bytes list \<Rightarrow> bool \<Rightarrow> txn_manager \<Rightarrow> message
    \<Rightarrow> (txn_manager \<times> (bytes \<times> nat \<times> bytes) option) option" where
  "Send rnds written tm msg =
     (case Txn_Add rnds tm of
        None \<Rightarrow> None
      | Some (tm1, txnID, ch) \<Rightarrow>
          (case Marshal (msg\<lparr>TransactionID := txnID\<rparr>) of
             Inl _ \<Rightarrow> map_option (\<lambda>tm. (tm, None)) (Cancel tm1 txnID)
           | Inr data \<Rightarrow>
               (if written then Some (tm1, Some (txnID, ch, data))
                else map_option (\<lambda>tm. (tm, None)) (Cancel tm1 txnID))))"

definition Reply :: "message \<Rightarrow> enc_error + bytes" where
  "Reply msg = Marshal msg"

section \<open>The invariant of the transaction table\<close>

text \<open>
  Every pending identifier has its own channel, open and empty; every other channel is closed.
\<close>

definition txn_ok :: "txn_manager \<Rightarrow> bool" where
  "txn_ok tm \<longleftrightarrow> sorted_dict (pending tm)
     \<and> (\<forall>t ch. map_of (pending tm) t = Some ch \<longrightarrow> ch < length (chans tm)
          \<and> chans tm ! ch = \<lparr>buffered = None, closed = False\<rparr>)
     \<and> (\<forall>t u ch. map_of (pending tm) t = Some ch \<and> map_of (pending tm) u = Some ch \<longrightarrow> t = u)
     \<and> (\<forall>ch < length (chans tm). closed (chans tm ! ch) \<or> (\<exists>t. map_of (pending tm) t = Some ch))"

lemma txn_okI:
  assumes "sorted_dict (pending tm)"
    and "\<And>t c. map_of (pending tm) t = Some c \<Longrightarrow> c < length (chans tm)
      \<and> chans tm ! c = \<lparr>buffered = None, closed = False\<rparr>"
    and "\<And>t u c. map_of (pending tm) t = Some c \<Longrightarrow> map_of (pending tm) u = Some c \<Longrightarrow> t = u"
    and "\<And>c. c < length (chans tm) \<Longrightarrow> \<not> closed (chans tm ! c) \<Longrightarrow> \<exists>t. map_of (pending tm) t = Some c"
  shows "txn_ok tm"
  unfolding txn_ok_def using assms by blast

lemma draw_fresh: "draw rnds p = Some t \<Longrightarrow> map_of p t = None \<and> t \<in> set rnds"
  by (induction rnds p rule: draw.induct) (auto split: if_splits)

lemma draw_total: "\<exists>t \<in> set rnds. map_of p t = None \<Longrightarrow> \<exists>t. draw rnds p = Some t"
  by (induction rnds p rule: draw.induct) auto

lemma New_txn_ok [wf_intros]: "txn_ok NewTransactionManager"
  by (simp add: txn_ok_def NewTransactionManager_def)

lemma Txn_Add_ok [wf_intros]:
  assumes "txn_ok tm" "Txn_Add rnds tm = Some (tm', t, ch)"
  shows "txn_ok tm'" "map_of (pending tm) t = None" "pending tm' = dict_put t ch (pending tm)"
    "ch = length (chans tm)" "chans tm' = chans tm @ [\<lparr>buffered = None, closed = False\<rparr>]"
proof -
  from assms(2) show *: "pending tm' = dict_put t ch (pending tm)" "ch = length (chans tm)"
    "chans tm' = chans tm @ [\<lparr>buffered = None, closed = False\<rparr>]" "map_of (pending tm) t = None"
    by (auto simp: Txn_Add_def Let_def split: option.splits dest: draw_fresh)
  have p: "c < length (chans tm) \<and> chans tm ! c = \<lparr>buffered = None, closed = False\<rparr>"
    if "map_of (pending tm) u = Some c" for u c
    using assms(1) that by (simp add: txn_ok_def)
  show "txn_ok tm'"
  proof (rule txn_okI)
    show "sorted_dict (pending tm')" using assms(1) by (auto simp: txn_ok_def *)
  next
    fix u c assume "map_of (pending tm') u = Some c"
    then show "c < length (chans tm') \<and> chans tm' ! c = \<lparr>buffered = None, closed = False\<rparr>"
      using p by (force simp: * nth_append split: if_splits)
  next
    fix u v c assume "map_of (pending tm') u = Some c" "map_of (pending tm') v = Some c"
    then show "u = v"
      using p [of u c] p [of v c] assms(1) by (auto simp: * txn_ok_def split: if_splits)
  next
    fix c assume c: "c < length (chans tm')" "\<not> closed (chans tm' ! c)"
    show "\<exists>u. map_of (pending tm') u = Some c"
    proof (cases "c = length (chans tm)")
      case False
      with c have "c < length (chans tm)" "\<not> closed (chans tm ! c)" by (auto simp: * nth_append)
      then obtain u where "map_of (pending tm) u = Some c" using assms(1) by (auto simp: txn_ok_def)
      with *(4) have "map_of (pending tm') u = Some c" by (auto simp: *)
      then show ?thesis ..
    qed (auto simp: *)
  qed
qed

text \<open>Completing and cancelling end a transaction in the same way.\<close>

lemma txn_ok_end:
  assumes "txn_ok tm" "map_of (pending tm) t = Some ch" "closed c"
  shows "txn_ok (tm\<lparr>chans := (chans tm)[ch := c], pending := dict_del t (pending tm)\<rparr>)"
proof (rule txn_okI; simp)
  let ?p = "pending tm"
  show "sorted_dict (dict_del t ?p)" using assms(1) by (auto simp: txn_ok_def)
  have uniq: "u = v" if "map_of ?p u = Some d" "map_of ?p v = Some d" for u v d
    using assms(1) that by (auto simp: txn_ok_def)
  then show "u = v" if "(if u = t then None else map_of ?p u) = Some d" "(if v = t then None else map_of ?p v) = Some d" for u v d
    using that by (simp split: if_splits)
  show "d < length (chans tm) \<and> (chans tm)[ch := c] ! d = \<lparr>buffered = None, closed = False\<rparr>"
    if "(if u = t then None else map_of ?p u) = Some d" for u d
    using that uniq [of u d t] assms(1,2) by (auto simp: txn_ok_def nth_list_update split: if_splits)
  show "\<exists>u. u \<noteq> t \<and> (u \<noteq> t \<longrightarrow> map_of ?p u = Some d)"
    if d: "d < length (chans tm)" "\<not> closed ((chans tm)[ch := c] ! d)" for d
  proof -
    have "d \<noteq> ch" "\<not> closed (chans tm ! d)" using d assms(3) by (cases "d = ch"; auto)+
    moreover obtain u where "map_of ?p u = Some d" using assms(1) d(1) calculation(2) by (auto simp: txn_ok_def)
    ultimately show ?thesis using assms(2) by (intro exI [of _ u]) auto
  qed
qed

lemma txn_ok_pending:
  "txn_ok tm \<Longrightarrow> map_of (pending tm) t = Some ch \<Longrightarrow> ch < length (chans tm) \<and> chans tm ! ch = \<lparr>buffered = None, closed = False\<rparr>"
  by (simp add: txn_ok_def)

lemma Complete_eq:
  "txn_ok tm \<Longrightarrow> Complete tm t msg =
     (case map_of (pending tm) t of
        None \<Rightarrow> Some (tm, False)
      | Some ch \<Rightarrow> Some (tm\<lparr>chans := (chans tm)[ch := \<lparr>buffered = Some msg, closed = True\<rparr>],
                        pending := dict_del t (pending tm)\<rparr>, True))"
  by (auto simp: Complete_def chan_send_def chan_close_def dest: txn_ok_pending split: option.split)

lemma Cancel_eq:
  "txn_ok tm \<Longrightarrow> Cancel tm t =
     (case map_of (pending tm) t of
        None \<Rightarrow> Some tm
      | Some ch \<Rightarrow> Some (tm\<lparr>chans := (chans tm)[ch := \<lparr>buffered = None, closed = True\<rparr>],
                        pending := dict_del t (pending tm)\<rparr>))"
  by (auto simp: Cancel_def chan_close_def dest: txn_ok_pending split: option.split)

lemma Complete_ok [wf_intros]: "txn_ok tm \<Longrightarrow> Complete tm t msg = Some (tm', ok) \<Longrightarrow> txn_ok tm'"
  by (auto simp: Complete_eq txn_ok_end split: option.splits)

lemma Cancel_ok [wf_intros]: "txn_ok tm \<Longrightarrow> Cancel tm t = Some tm' \<Longrightarrow> txn_ok tm'"
  by (auto simp: Cancel_eq txn_ok_end split: option.splits)

text \<open>The states of the table: what any sequence of calls leads to, sends and packets included.\<close>

inductive txn_step :: "txn_manager \<Rightarrow> txn_manager \<Rightarrow> bool" where
  add: "Txn_Add rnds tm = Some (tm', t, ch) \<Longrightarrow> txn_step tm tm'"
| complete: "Complete tm t msg = Some (tm', ok) \<Longrightarrow> txn_step tm tm'"
| cancel: "Cancel tm t = Some tm' \<Longrightarrow> txn_step tm tm'"

inductive txn_reachable :: "txn_manager \<Rightarrow> bool" where
  init: "txn_reachable NewTransactionManager"
| step: "txn_reachable tm \<Longrightarrow> txn_step tm tm' \<Longrightarrow> txn_reachable tm'"

lemma txn_reachable_ok: "txn_reachable tm \<Longrightarrow> txn_ok tm"
  by (induction rule: txn_reachable.induct)
    (auto intro: wf_intros elim!: txn_step.cases)

text \<open>What a channel has delivered stays, and nothing is delivered to it again.\<close>

definition delivered :: "txn_manager \<Rightarrow> nat \<Rightarrow> message option" where
  "delivered tm ch = (if ch < length (chans tm) then buffered (chans tm ! ch) else None)"

lemma txn_step_delivered:
  assumes "txn_ok tm" "txn_step tm tm'" "ch < length (chans tm)" "closed (chans tm ! ch)"
  shows "ch < length (chans tm') \<and> chans tm' ! ch = chans tm ! ch"
  using assms(2)
proof cases
  case (add rnds t c)
  then show ?thesis using Txn_Add_ok [OF assms(1) add] assms(3) by (simp add: nth_append)
next
  case (complete t msg ok)
  then show ?thesis using assms txn_ok_pending [OF assms(1), of t]
    by (auto simp: Complete_eq nth_list_update split: option.splits)
next
  case (cancel t)
  then show ?thesis using assms txn_ok_pending [OF assms(1), of t]
    by (auto simp: Cancel_eq nth_list_update split: option.splits)
qed

lemma txn_steps_delivered:
  assumes "txn_step\<^sup>*\<^sup>* tm tm'" "txn_ok tm" "ch < length (chans tm)" "closed (chans tm ! ch)"
  shows "txn_ok tm' \<and> ch < length (chans tm') \<and> chans tm' ! ch = chans tm ! ch"
  using assms
proof (induction rule: rtranclp_induct)
  case (step tm1 tm2)
  then have ok: "txn_ok tm1" and c: "ch < length (chans tm1)" "chans tm1 ! ch = chans tm ! ch" by auto
  have "closed (chans tm1 ! ch)" using step.prems c by simp
  from txn_step_delivered [OF ok step.hyps(2) c(1) this] ok step.hyps(2) c show ?case
    by (auto intro: wf_intros elim!: txn_step.cases)
qed simp

section \<open>Properties\<close>

text \<open>C14: A message the program writes is read back as itself, with its byte strings in the
  decoder's normal form: queries, responses and errors, with or without the querier's address.
  Every message read from a packet can be written again and then reads the same.\<close>

theorem Unmarshal_Marshal:
  assumes "sendable m \<or> (in_int64 (int (length data)) \<and> Unmarshal data = Inr m)"
  shows "\<exists>b. Marshal m = Inr b \<and> Unmarshal b = Inr (norm_message m)
    \<and> (in_int64 (int (length data)) \<and> Unmarshal data = Inr m \<longrightarrow> norm_message m = m)"
  using assms Unmarshal_wf wf_message_sendable Marshal_Unmarshal by metis

definition sample_query :: message where
  "sample_query = empty_message\<lparr>TransactionID := [1, 2], Type := key ''q'', QueryMethod := key ''ping'',
     Args := [(key ''id'', BString (replicate 20 65))], IP := Some [1, 2, 3, 4, 5, 6]\<rparr>"

theorem Unmarshal_Marshal_witness:
  "\<exists>b. Marshal sample_query = Inr b \<and> Unmarshal b = Inr sample_query"
proof -
  have "ok_val 1 (BDict [(key ''id'', BString (replicate 20 65))])"
    by (simp add: ok_val_BDict ok_val_def maxDecodeDepth_def utf8_valid_ascii list_all_iff sorted_dict_def
        in_int64_def int64_min_def int64_max_def)
  then have wf: "wf_message sample_query"
    by (simp add: wf_message_def sample_query_def canonical_def empty_message_def ok_val_empty
        in_int64_def int64_min_def int64_max_def del: One_nat_def)
  from wf_message_sendable [OF wf] show ?thesis using Unmarshal_Marshal [of sample_query] by auto
qed

text \<open>No sequence of calls makes the transaction table block or panic: in every reachable state
  a pending identifier has a channel of its own that is open and empty, so completing it
  delivers exactly there, closes it and forgets the identifier, and cancelling it closes it;
  completing or cancelling an identifier that is not pending changes nothing.\<close>

theorem transactions_safe:
  assumes "txn_reachable tm"
  shows "(\<exists>tm' ok. Complete tm t msg = Some (tm', ok)) \<and> (\<exists>tm'. Cancel tm t = Some tm')
    \<and> (\<forall>ch. map_of (pending tm) t = Some ch \<longrightarrow>
        chans tm ! ch = \<lparr>buffered = None, closed = False\<rparr>
        \<and> (\<exists>tm'. Complete tm t msg = Some (tm', True) \<and> delivered tm' ch = Some msg
             \<and> closed (chans tm' ! ch) \<and> pending tm' = dict_del t (pending tm)
             \<and> Complete tm' t msg2 = Some (tm', False)))
    \<and> (map_of (pending tm) t = None \<longrightarrow> Complete tm t msg = Some (tm, False) \<and> Cancel tm t = Some tm)"
proof -
  note ok = txn_reachable_ok [OF assms]
  have "Complete tm' t msg2 = Some (tm', False)" if "Complete tm t msg = Some (tm', ok)" for tm' ok
    using that Complete_ok [OF ok that] by (auto simp: Complete_eq [OF ok] Complete_eq split: option.splits)
  then show ?thesis
    using txn_ok_pending [OF ok, of t]
    by (auto simp: Complete_eq [OF ok] Cancel_eq [OF ok] delivered_def split: option.split)
qed

definition one_pending :: txn_manager where
  "one_pending = \<lparr>pending = [(ascii ''ab'', 0)], chans = [\<lparr>buffered = None, closed = False\<rparr>]\<rparr>"

lemma one_pending_reachable: "txn_reachable one_pending"
proof -
  have "Txn_Add [ascii ''ab''] NewTransactionManager = Some (one_pending, ascii ''ab'', 0)"
    by (simp add: Txn_Add_def NewTransactionManager_def one_pending_def)
  then show ?thesis by (blast intro: txn_reachable.intros txn_step.add)
qed

theorem transactions_safe_witness:
  "\<exists>tm'. Complete one_pending (ascii ''ab'') empty_message = Some (tm', True)
     \<and> delivered tm' 0 = Some empty_message"
  using transactions_safe [OF one_pending_reachable, of "ascii ''ab''" empty_message]
  by (simp add: one_pending_def) blast


definition sample_response :: message where
  "sample_response = empty_message\<lparr>TransactionID := ascii ''ab'', Type := key ''r'',
     Response := [(ascii ''x'', BInt 1)]\<rparr>"


end
