(* ===== verification/Metrics.thy ===== *)
theory Metrics
  imports Prelude
begin

text \<open>
  \<open>internal/dht/metrics/metrics.go\<close>: counters and the latency histogram. A counter is Go's
  64-bit \<open>atomic.Int64\<close>. The observed values are \<open>float64\<close> seconds, never NaN; the histogram
  only compares and adds them, so it is stated for any linearly ordered type with an addition.
\<close>

definition Inc :: "int \<Rightarrow> int" where
  "Inc c = wrap64 (c + 1)"

record 'f histogram =
  bounds :: "'f list"
  counts :: "int list"
  count :: int
  sum :: 'f

definition NewHistogram :: "'f list \<Rightarrow> 'f::zero histogram" where
  "NewHistogram bs = \<lparr>bounds = bs, counts = replicate (length bs + 1) 0, count = 0, sum = 0\<rparr>"

text \<open>The loop stops at the first bound that is not below the value; past it is the last bucket.\<close>

fun bucket_index :: "'f::linorder list \<Rightarrow> 'f \<Rightarrow> nat" where
  "bucket_index [] v = 0"
| "bucket_index (b # bs) v = (if v \<le> b then 0 else Suc (bucket_index bs v))"

definition Observe :: "'f \<Rightarrow> 'f::{linorder,plus} histogram \<Rightarrow> 'f histogram" where
  "Observe v h =
     (let i = bucket_index (bounds h) v
      in h\<lparr>counts := (counts h)[i := Inc (counts h ! i)], count := Inc (count h), sum := sum h + v\<rparr>)"

fun cumulate :: "int \<Rightarrow> int list \<Rightarrow> int list" where
  "cumulate acc [] = []"
| "cumulate acc (c # cs) = wrap64 (acc + c) # cumulate (wrap64 (acc + c)) cs"

definition CumulativeCounts :: "'f histogram \<Rightarrow> int list" where
  "CumulativeCounts h = cumulate 0 (counts h)"

definition MethodIndex :: "bytes \<Rightarrow> int" where
  "MethodIndex m =
     (if m = ascii ''ping'' then 0 else if m = ascii ''find_node'' then 1
      else if m = ascii ''get_peers'' then 2 else if m = ascii ''announce_peer'' then 3 else - 1)"

definition MethodName :: "int \<Rightarrow> bytes" where
  "MethodName i =
     (if i < 0 \<or> i \<ge> 4 then ascii ''unknown''
      else [ascii ''ping'', ascii ''find_node'', ascii ''get_peers'', ascii ''announce_peer''] ! nat i)"

text \<open>The counters the query handlers use.\<close>

record metrics =
  QueriesInbound :: "int list"
  QueriesOutbound :: "int list"
  ResponseSuccess :: int
  ResponseTimeout :: int
  ResponseCanceled :: int
  TokenSuccess :: int
  TokenFailure :: int
  BEP42NonCompliant :: int
  RateLimited :: int

definition NewMetrics :: metrics where
  "NewMetrics = \<lparr>QueriesInbound = replicate 4 0, QueriesOutbound = replicate 4 0, ResponseSuccess = 0,
     ResponseTimeout = 0, ResponseCanceled = 0, TokenSuccess = 0, TokenFailure = 0,
     BEP42NonCompliant = 0, RateLimited = 0\<rparr>"

definition count_method :: "bytes \<Rightarrow> int list \<Rightarrow> int list" where
  "count_method m cs = (let idx = MethodIndex m in if idx \<ge> 0 then cs[nat idx := Inc (cs ! nat idx)] else cs)"

section \<open>What the histogram counts\<close>

text \<open>After the observations \<open>vs\<close>, each bucket holds the number of values that fall in it.\<close>

definition observed :: "'f list \<Rightarrow> 'f::{linorder,plus,zero} list \<Rightarrow> 'f histogram" where
  "observed bs vs = fold Observe vs (NewHistogram bs)"

lemma bucket_index_le: "bucket_index bs v \<le> length bs"
  by (induction bs v rule: bucket_index.induct) auto

lemma bucket_index_iff:
  "sorted bs \<Longrightarrow> i < length bs \<Longrightarrow> bucket_index bs v \<le> i \<longleftrightarrow> v \<le> bs ! i"
proof (induction bs v arbitrary: i rule: bucket_index.induct)
  case (2 b bs v)
  show ?case
  proof (cases i)
    case (Suc j)
    have "b \<le> bs ! j" using 2(2,3) Suc by auto
    with 2 Suc show ?thesis by (auto intro: order_trans)
  qed auto
qed simp

definition hist_inv :: "'f::{linorder,plus} list \<Rightarrow> 'f list \<Rightarrow> 'f histogram \<Rightarrow> bool" where
  "hist_inv bs vs h \<longleftrightarrow> bounds h = bs \<and> length (counts h) = length bs + 1 \<and> count h = int (length vs)
     \<and> (\<forall>i \<le> length bs. counts h ! i = int (length (filter (\<lambda>v. bucket_index bs v = i) vs)))"

lemma Inc_small: "0 \<le> c \<Longrightarrow> c < 2 ^ 63 - 1 \<Longrightarrow> Inc c = c + 1"
  by (simp add: Inc_def wrap64_id in_int64_def int64_min_def int64_max_def)

lemma hist_inv_Observe:
  assumes "hist_inv bs vs h" "int (length vs) < 2 ^ 63 - 1"
  shows "hist_inv bs (v # vs) (Observe v h)"
proof -
  have "length (filter P vs) \<le> length vs" for P :: "'a \<Rightarrow> bool" by simp
  then have "int (length (filter P vs)) < 2 ^ 63 - 1" for P :: "'a \<Rightarrow> bool"
    using assms(2) by (meson le_less_trans of_nat_mono)
  then have inc: "Inc (int (length (filter P vs))) = int (length (filter P vs)) + 1" for P :: "'a \<Rightarrow> bool"
    by (intro Inc_small) auto
  have "Inc (int (length vs)) = int (length vs) + 1" using assms(2) by (intro Inc_small) auto
  with assms(1) inc show ?thesis
    by (auto simp: hist_inv_def Observe_def Let_def nth_list_update bucket_index_le less_Suc_eq_le)
qed

lemma observed_snoc: "observed bs (vs @ [v]) = Observe v (observed bs vs)"
  by (simp add: observed_def)

lemma hist_inv_rev: "hist_inv bs (rev vs) h = hist_inv bs vs h"
  by (simp add: hist_inv_def rev_filter [symmetric])

lemma hist_inv_observed: "int (length vs) < 2 ^ 63 \<Longrightarrow> hist_inv bs vs (observed bs vs)"
proof (induction vs rule: rev_induct)
  case Nil
  then show ?case by (simp add: hist_inv_def observed_def NewHistogram_def nth_replicate del: replicate_Suc)
next
  case (snoc v vs)
  then have "hist_inv bs (rev (vs @ [v])) (observed bs (vs @ [v]))"
    using hist_inv_Observe [of bs "rev vs" "observed bs vs" v]
    by (simp add: observed_snoc hist_inv_rev)
  then show ?case by (simp only: hist_inv_rev)
qed

lemma nth_cumulate:
  assumes "\<forall>c \<in> set cs. 0 \<le> c" "0 \<le> acc" "acc + sum_list cs < 2 ^ 63" "i < length cs"
  shows "cumulate acc cs ! i = acc + sum_list (take (Suc i) cs)"
  using assms
proof (induction acc cs arbitrary: i rule: cumulate.induct)
  case (2 acc c cs)
  have "0 \<le> sum_list cs" using 2(2) by (intro sum_list_nonneg) auto
  then have w: "wrap64 (acc + c) = acc + c"
    using 2(2-4) by (intro wrap64_id) (auto simp: in_int64_def int64_min_def int64_max_def)
  show ?case using 2(1) [of "i - 1"] 2(2-) w by (cases i) (auto simp: add.assoc)
qed simp

lemma sum_by_bucket:
  "(\<Sum>k<i. int (length (filter (\<lambda>v. f v = k) vs))) = int (length (filter (\<lambda>v. f v < (i :: nat)) vs))"
proof (induction i)
  case (Suc i)
  have "length (filter (\<lambda>v. f v < Suc i) vs) = length (filter (\<lambda>v. f v < i) vs) + length (filter (\<lambda>v. f v = i) vs)"
    by (induction vs) auto
  with Suc show ?case by simp
qed simp

section \<open>Properties\<close>

text \<open>After any observations, the cumulative count of a bucket is the number of observed
  values at most its upper bound, and the last one is the total (bounds in increasing order).\<close>

theorem histogram_cumulative:
  assumes "sorted bs" "int (length vs) < 2 ^ 63"
  shows "count (observed bs vs) = int (length vs)
    \<and> length (CumulativeCounts (observed bs vs)) = length bs + 1
    \<and> (i < length bs \<longrightarrow> CumulativeCounts (observed bs vs) ! i = int (length (filter (\<lambda>v. v \<le> bs ! i) vs)))
    \<and> CumulativeCounts (observed bs vs) ! length bs = int (length vs)"
proof -
  let ?h = "observed bs vs"
  have inv: "length (counts ?h) = length bs + 1" "count ?h = int (length vs)"
    "\<And>i. i \<le> length bs \<Longrightarrow> counts ?h ! i = int (length (filter (\<lambda>v. bucket_index bs v = i) vs))"
    using hist_inv_observed [OF assms(2), of bs] by (auto simp: hist_inv_def)
  have take: "sum_list (take (Suc i) (counts ?h)) = int (length (filter (\<lambda>v. bucket_index bs v < Suc i) vs))"
    if "i \<le> length bs" for i
  proof -
    have "sum_list (take (Suc i) (counts ?h)) = (\<Sum>k<Suc i. counts ?h ! k)"
      using that inv(1) by (simp add: sum_list_sum_nth lessThan_atLeast0)
    also have "\<dots> = (\<Sum>k<Suc i. int (length (filter (\<lambda>v. bucket_index bs v = k) vs)))"
      using that by (intro sum.cong) (auto simp: inv(3))
    finally show ?thesis unfolding sum_by_bucket .
  qed
  have all: "bucket_index bs v < Suc (length bs)" for v using bucket_index_le [of bs v] by simp
  have total: "sum_list (counts ?h) = int (length vs)"
    using take [of "length bs"] inv(1) all by simp
  have nonneg: "\<forall>c \<in> set (counts ?h). 0 \<le> c"
    using inv(1,3) by (auto simp: in_set_conv_nth less_Suc_eq_le)
  have nth: "CumulativeCounts ?h ! i = int (length (filter (\<lambda>v. bucket_index bs v < Suc i) vs))" if "i \<le> length bs" for i
    using nth_cumulate [OF nonneg, of 0 i] that inv(1) total assms(2) take by (simp add: CumulativeCounts_def)
  have len: "length (cumulate acc cs) = length cs" for acc cs by (induction acc cs rule: cumulate.induct) auto
  have "CumulativeCounts ?h ! i = int (length (filter (\<lambda>v. v \<le> bs ! i) vs))" if "i < length bs"
    using nth [of i] that bucket_index_iff [OF assms(1) that] by (simp add: less_Suc_eq_le)
  moreover have "CumulativeCounts ?h ! length bs = int (length vs)" using nth [of "length bs"] all by simp
  ultimately show ?thesis using inv by (simp add: CumulativeCounts_def len)
qed

theorem histogram_cumulative_witness:
  "CumulativeCounts (observed [1, 5 :: nat] [0, 1, 3, 9]) ! 1 = 3"
  using histogram_cumulative [of "[1, 5 :: nat]" "[0, 1, 3, 9]" 1] by simp

end
