(* ===== verification/Compact.thy ===== *)
theory Compact
  imports Routing Bencode
begin

text \<open>
  The compact forms of \<open>internal/dht/dht.go\<close> (nodes in 26 bytes, peers in 6) and the fields the
  DHT reads out of argument and response dictionaries. \<open>As4\<close> panics on an address without a
  four-byte form, hence the option results of the writers.
\<close>

section \<open>Fields of a dictionary\<close>

text \<open>The switch on the dynamic type that several helpers share: \<open>string\<close> or \<open>[]byte\<close>.\<close>

definition any_bytes :: "bval \<Rightarrow> bytes option" where
  "any_bytes v = (case v of BString s \<Rightarrow> Some s | BBytes s \<Rightarrow> Some s | _ \<Rightarrow> None)"

datatype arg_error = MissingArg bytes | InvalidArgType bytes | InvalidArgLength

definition bytesFromArgs :: "(bytes, bval) dict \<Rightarrow> bytes \<Rightarrow> arg_error + nodeid" where
  "bytesFromArgs args k =
     (case map_of args k of
        None \<Rightarrow> Inl (MissingArg k)
      | Some raw \<Rightarrow>
          (case any_bytes raw of
             None \<Rightarrow> Inl (InvalidArgType k)
           | Some v \<Rightarrow> (case FromBytes v of None \<Rightarrow> Inl InvalidArgLength | Some i \<Rightarrow> Inr i)))"

definition nodeIDFromArgs :: "(bytes, bval) dict \<Rightarrow> arg_error + nodeid" where
  "nodeIDFromArgs args = bytesFromArgs args (ascii ''id'')"

definition targetFromArgs :: "(bytes, bval) dict \<Rightarrow> arg_error + nodeid" where
  "targetFromArgs args = bytesFromArgs args (ascii ''target'')"

definition fixed20FromArgs :: "(bytes, bval) dict \<Rightarrow> bytes \<Rightarrow> arg_error + bytes" where
  "fixed20FromArgs args k =
     (case map_of args k of
        None \<Rightarrow> Inl (MissingArg k)
      | Some raw \<Rightarrow>
          (case any_bytes raw of
             None \<Rightarrow> Inl (InvalidArgType k)
           | Some b \<Rightarrow> if length b \<noteq> 20 then Inl InvalidArgLength else Inr b))"

definition infoHashFromArgs :: "(bytes, bval) dict \<Rightarrow> arg_error + bytes" where
  "infoHashFromArgs args = fixed20FromArgs args (ascii ''info_hash'')"

definition tokenFromArgs :: "(bytes, bval) dict \<Rightarrow> arg_error + bytes" where
  "tokenFromArgs args = fixed20FromArgs args (ascii ''token'')"

definition tokenFromResponse :: "(bytes, bval) dict \<Rightarrow> arg_error + bytes" where
  "tokenFromResponse resp = fixed20FromArgs resp (ascii ''token'')"

lemma bytesFromArgs_valid: "bytesFromArgs args k = Inr i \<Longrightarrow> valid_id i"
  by (auto simp: bytesFromArgs_def FromBytes_def valid_id_def split: option.splits if_splits)

lemma fixed20_length: "fixed20FromArgs args k = Inr b \<Longrightarrow> length b = 20"
  by (auto simp: fixed20FromArgs_def split: option.splits if_splits)

section \<open>Peers and nodes\<close>

definition compactAddr :: "addrport \<Rightarrow> bytes option" where
  "compactAddr a = endpoint6 a"

definition parseCompactAddr :: "bytes \<Rightarrow> addrport option" where
  "parseCompactAddr data = (if length data \<noteq> 6 then None else of_endpoint6 data)"

definition compactPeers :: "addrport list \<Rightarrow> bval list option" where
  "compactPeers addrs = those (map (\<lambda>a. map_option BString (endpoint6 a)) addrs)"

definition parseCompactPeer :: "bval \<Rightarrow> addrport option" where
  "parseCompactPeer raw =
     (case any_bytes raw of
        None \<Rightarrow> None
      | Some data \<Rightarrow> if length data \<noteq> 6 then None else of_endpoint6 data)"

definition node26 :: "node \<Rightarrow> bytes option" where
  "node26 n = map_option (\<lambda>e. id_bytes (ID n) @ e) (endpoint6 (Addr n))"

definition compactNodes :: "node list \<Rightarrow> bytes option" where
  "compactNodes nodes = map_option concat (those (map node26 nodes))"

definition node_of26 :: "int \<Rightarrow> bytes \<Rightarrow> node option" where
  "node_of26 now b =
     (case FromBytes (take 20 b) of
        None \<Rightarrow> None
      | Some i \<Rightarrow> map_option (\<lambda>a. \<lparr>ID = i, Addr = a, LastSeen = now, Compliant = False, FailCount = 0\<rparr>)
          (of_endpoint6 (drop 20 b)))"

text \<open>\<open>raw\<close> is \<^const>\<open>None\<close> for an absent key, which reads as a nil interface.\<close>

definition parseCompactNodes :: "int \<Rightarrow> bval option \<Rightarrow> node list" where
  "parseCompactNodes now raw =
     (case Option.bind raw any_bytes of
        None \<Rightarrow> []
      | Some data \<Rightarrow>
          if length data mod 26 \<noteq> 0 then []
          else List.map_filter (\<lambda>i. node_of26 now (take 26 (drop (i * 26) data))) [0..<length data div 26])"

text \<open>Addresses with a four-byte form, and what is left of an endpoint in compact form.\<close>

definition has4 :: "addrport \<Rightarrow> bool" where
  "has4 a \<longleftrightarrow> (\<exists>b. As4 (ap_addr a) = Some b \<and> length b = 4)"

definition as_v4 :: "addrport \<Rightarrow> addrport" where
  "as_v4 a = AddrPort (IPv4 (the (As4 (ap_addr a)))) (ap_port a)"

lemma v4_has4: "v4_endpoint a \<Longrightarrow> has4 a \<and> as_v4 a = a"
  by (auto simp: has4_def as_v4_def elim!: v4_endpointE)

lemma as_v4_endpoint: "has4 a \<Longrightarrow> v4_endpoint (as_v4 a) \<and> endpoint6 (as_v4 a) = endpoint6 a \<and> endpoint6 a \<noteq> None"
  by (auto simp: has4_def as_v4_def v4_endpoint_def endpoint6_def)

lemma endpoint6_has4: "has4 a \<Longrightarrow> \<exists>e. endpoint6 a = Some e \<and> length e = 6 \<and> of_endpoint6 e = Some (as_v4 a)"
  using as_v4_endpoint [of a] endpoint.length_enc [of "as_v4 a"] endpoint.dec_enc [of "as_v4 a"]
  by (cases "endpoint6 a") auto

definition node_wire :: "int \<Rightarrow> node \<Rightarrow> node" where
  "node_wire now n = \<lparr>ID = ID n, Addr = as_v4 (Addr n), LastSeen = now, Compliant = False, FailCount = 0\<rparr>"

definition wire_node :: "node \<Rightarrow> bool" where
  "wire_node n \<longleftrightarrow> valid_id (ID n) \<and> has4 (Addr n)"

interpretation node26: fixed_codec "\<lambda>n. the (node26 n)" "node_of26 now" "\<lambda>n. Some (node_wire now n)" wire_node 26
proof unfold_locales
  fix n assume "wire_node n"
  then obtain e where e: "endpoint6 (Addr n) = Some e" "length e = 6" "of_endpoint6 e = Some (as_v4 (Addr n))"
    and i: "length (id_bytes (ID n)) = 20"
    using endpoint6_has4 by (auto simp: wire_node_def valid_id_def)
  then show "length (the (node26 n)) = 26" "node_of26 now (the (node26 n)) = Some (node_wire now n)"
    by (simp_all add: node26_def node_of26_def FromBytes_def node_wire_def)
qed simp

lemma those_all: "(\<And>x. x \<in> set xs \<Longrightarrow> f x \<noteq> None) \<Longrightarrow> those (map f xs) = Some (map (\<lambda>x. the (f x)) xs)"
  by (induction xs) (auto split: option.split)

lemma those_None: "x \<in> set xs \<Longrightarrow> f x = None \<Longrightarrow> those (map f xs) = None"
  by (induction xs) (auto split: option.split)

lemma wire_node26: "wire_node n \<Longrightarrow> node26 n \<noteq> None"
  using endpoint6_has4 [of "Addr n"] by (auto simp: wire_node_def node26_def)

lemma compactNodes_total:
  assumes "list_all wire_node ns"
  shows "compactNodes ns = Some (concat (map (\<lambda>n. the (node26 n)) ns))"
  using those_all [of ns node26] assms wire_node26 by (simp add: compactNodes_def list_all_iff)

lemma map_filter_Some: "List.map_filter (\<lambda>i. f i) is = map g is" if "\<And>i. i \<in> set is \<Longrightarrow> f i = Some (g i)"
  using that by (induction "is") (auto simp: List.map_filter_def)

lemma parse_compact_nodes:
  assumes "list_all wire_node ns" "compactNodes ns = Some data" "any_bytes v = Some data"
  shows "parseCompactNodes now (Some v) = map (node_wire now) ns"
proof -
  have d: "data = concat (map (\<lambda>n. the (node26 n)) ns)" using compactNodes_total assms by simp
  have l: "length data = length ns * 26" unfolding d by (rule node26.length_encs [OF assms(1)])
  have c: "node_of26 now (take 26 (drop (i * 26) data)) = Some (node_wire now (ns ! i))" if "i < length ns" for i
    using node26.chunk_encs [OF assms(1) that, of "[]"] node26.dec_enc [of "ns ! i" now] assms(1) that
    by (simp add: d list_all_length)
  have "List.map_filter (\<lambda>i. node_of26 now (take 26 (drop (i * 26) data))) [0..<length ns]
      = map (\<lambda>i. node_wire now (ns ! i)) [0..<length ns]"
    by (rule map_filter_Some) (simp add: c)
  also have "\<dots> = map (node_wire now) ns" by (rule nth_equalityI) simp_all
  finally show ?thesis using l assms(3) by (simp add: parseCompactNodes_def)
qed

text \<open>Whatever the peer sends, the nodes read from it have 20-byte identifiers and IPv4 addresses.\<close>

lemma node_of26_ok: "node_of26 now b = Some n \<Longrightarrow> length b = 26 \<Longrightarrow> node_ok n \<and> v4_endpoint (Addr n) \<and> LastSeen n = now"
proof -
  assume n: "node_of26 now b = Some n" "length b = 26"
  from n(2) obtain a where "of_endpoint6 (drop 20 b) = Some a" "v4_endpoint a"
    using of_endpoint6_exact [of "drop 20 b"] by auto
  with n show ?thesis
    by (auto simp: node_of26_def FromBytes_def node_ok_def valid_id_def MaxFailures_def split: option.splits)
qed

lemma parseCompactNodes_ok:
  assumes "n \<in> set (parseCompactNodes now raw)"
  shows "node_ok n \<and> v4_endpoint (Addr n) \<and> LastSeen n = now"
proof -
  from assms obtain data i where d: "i < length data div 26"
    "node_of26 now (take 26 (drop (i * 26) data)) = Some n"
    by (cases "Option.bind raw any_bytes") (auto simp: parseCompactNodes_def List.map_filter_def split: if_splits)
  have "(i + 1) * 26 \<le> length data"
  proof -
    have "(i + 1) * 26 \<le> length data div 26 * 26" using d(1) by (intro mult_le_mono1) simp
    also have "\<dots> \<le> length data" by (rule div_times_less_eq_dividend)
    finally show ?thesis .
  qed
  then have "length (take 26 (drop (i * 26) data)) = 26" by simp
  from node_of26_ok [OF d(2) this] show ?thesis .
qed

lemma compactPeers_total:
  assumes "list_all has4 as"
  shows "\<exists>vs. compactPeers as = Some vs \<and> length vs = length as
    \<and> map parseCompactPeer vs = map (\<lambda>a. Some (as_v4 a)) as \<and> list_all (\<lambda>v. \<exists>s. v = BString s \<and> length s = 6) vs"
  using assms
proof (induction "as")
  case (Cons a as)
  then obtain e where e: "endpoint6 a = Some e" "length e = 6" "of_endpoint6 e = Some (as_v4 a)"
    using endpoint6_has4 by auto
  with Cons show ?case by (auto simp: compactPeers_def parseCompactPeer_def any_bytes_def)
qed (simp add: compactPeers_def)

end
