(* ===== verification/Dht.thy ===== *)
theory Dht
  imports Compact Krpc Token PeerStore RateLimit Bep42 Metrics
begin

text \<open>
  The DHT node of \<open>internal/dht/dht.go\<close>: its state, the query handlers, the maintenance of the
  routing table and its file. Handlers run one after the other in the server's read loop; each
  is a function from the state to the new state and the effects it has outside. \<^const>\<open>None\<close> is a
  panic, which ends the process. Clock readings, random bytes, ping results and the iteration
  order of Go maps are arguments.
\<close>

section \<open>State\<close>

datatype bep42_mode = BEP42Off | BEP42Log | BEP42Enforce | BEP42TableOnly

record dht =
  d_id :: nodeid
  d_table :: rtable
  d_tokens :: token_manager
  d_peers :: peer_store
  d_mode :: bep42_mode
  d_limiter :: "rate_limiter option"
  d_externalIP :: addr
  d_ipVotes :: "(addr, int) dict"
  d_metrics :: "metrics option"

text \<open>A reply to send, and the goroutine that \<open>handleQuery\<close> starts.\<close>

datatype effect = SendReply message addrport | ReplaceIfDead node node

definition refreshInterval :: int where "refreshInterval = 15 * 60 * second"

definition counted :: "(metrics \<Rightarrow> metrics) \<Rightarrow> dht \<Rightarrow> dht" where
  "counted f d = d\<lparr>d_metrics := map_option f (d_metrics d)\<rparr>"

definition own_id :: "dht \<Rightarrow> bval" where
  "own_id d = BString (id_bytes (d_id d))"

section \<open>Query handlers\<close>

definition response :: "message \<Rightarrow> bytes \<Rightarrow> (bytes, bval) dict \<Rightarrow> message" where
  "response msg ip resp = empty_message\<lparr>TransactionID := TransactionID msg, Type := key ''r'',
     IP := Some ip, Response := resp\<rparr>"

definition handlePing :: "dht \<Rightarrow> message \<Rightarrow> addrport \<Rightarrow> (dht \<times> effect list) option" where
  "handlePing d msg a =
     (case compactAddr a of
        None \<Rightarrow> None
      | Some ip \<Rightarrow> Some (d, [SendReply (response msg ip [(key ''id'', own_id d)]) a]))"

definition handleFindNode :: "dht \<Rightarrow> message \<Rightarrow> addrport \<Rightarrow> (dht \<times> effect list) option" where
  "handleFindNode d msg a =
     (case targetFromArgs (Args msg) of
        Inl _ \<Rightarrow> Some (d, [])
      | Inr target \<Rightarrow>
          (let closest = FindClosest (d_table d) target K
           in case (compactAddr a, compactNodes closest) of
                (Some ip, Some nodes) \<Rightarrow>
                  Some (d, [SendReply (response msg ip [(key ''id'', own_id d), (key ''nodes'', BString nodes)]) a])
              | _ \<Rightarrow> None))"

definition handleGetPeers :: "int \<Rightarrow> dht \<Rightarrow> message \<Rightarrow> addrport \<Rightarrow> (dht \<times> effect list) option" where
  "handleGetPeers now d msg a =
     (case infoHashFromArgs (Args msg) of
        Inl _ \<Rightarrow> Some (d, [])
      | Inr infoHash \<Rightarrow>
          (case (Generate (d_tokens d) (ap_addr a), compactAddr a) of
             (Some tok, Some ip) \<Rightarrow>
               (let peers = Get now (d_peers d) infoHash
                in if peers \<noteq> [] then
                     (case compactPeers peers of
                        None \<Rightarrow> None
                      | Some values \<Rightarrow> Some (d, [SendReply (response msg ip
                          [(key ''id'', own_id d), (key ''token'', BString tok), (key ''values'', BList values)]) a]))
                   else
                     (case compactNodes (FindClosest (d_table d) (NodeID infoHash) K) of
                        None \<Rightarrow> None
                      | Some nodes \<Rightarrow> Some (d, [SendReply (response msg ip
                          [(key ''id'', own_id d), (key ''nodes'', BString nodes), (key ''token'', BString tok)]) a])))
           | _ \<Rightarrow> None))"

definition int_arg :: "(bytes, bval) dict \<Rightarrow> string \<Rightarrow> int option" where
  "int_arg args k = (case map_of args (key k) of Some (BInt n) \<Rightarrow> Some n | _ \<Rightarrow> None)"

text \<open>The endpoint announced: the sender's own, or its address with the port of the arguments.\<close>

definition announced_addr :: "message \<Rightarrow> addrport \<Rightarrow> addrport option" where
  "announced_addr msg a =
     (let impliedPort = (case int_arg (Args msg) ''implied_port'' of Some n \<Rightarrow> n | None \<Rightarrow> 0)
      in if impliedPort \<noteq> 1 then
           map_option (\<lambda>port. AddrPort (ap_addr a) (word_of_int port)) (int_arg (Args msg) ''port'')
         else Some a)"

definition bad_token :: "message \<Rightarrow> message" where
  "bad_token msg = empty_message\<lparr>TransactionID := TransactionID msg, Type := key ''e'',
     Error := [BInt 203, BString (ascii ''bad token'')]\<rparr>"

definition handleAnnouncePeer :: "int \<Rightarrow> dht \<Rightarrow> message \<Rightarrow> addrport \<Rightarrow> (dht \<times> effect list) option" where
  "handleAnnouncePeer now d msg a =
     (case infoHashFromArgs (Args msg) of
        Inl _ \<Rightarrow> Some (d, [])
      | Inr infoHash \<Rightarrow>
          (case tokenFromArgs (Args msg) of
             Inl _ \<Rightarrow> Some (d, [])
           | Inr tok \<Rightarrow>
               (case Validate (d_tokens d) (ap_addr a) tok of
                  None \<Rightarrow> None
                | Some False \<Rightarrow>
                    Some (counted (\<lambda>m. m\<lparr>TokenFailure := Inc (TokenFailure m)\<rparr>) d, [SendReply (bad_token msg) a])
                | Some True \<Rightarrow>
                    (case announced_addr msg a of
                       None \<Rightarrow> Some (d, [])
                     | Some peerAddr \<Rightarrow>
                         (let d1 = d\<lparr>d_peers := Add now (d_peers d) infoHash peerAddr\<rparr>;
                              d2 = counted (\<lambda>m. m\<lparr>TokenSuccess := Inc (TokenSuccess m)\<rparr>) d1
                          in case compactAddr a of
                               None \<Rightarrow> None
                             | Some ip \<Rightarrow> Some (d2, [SendReply (response msg ip [(key ''id'', own_id d)]) a]))))))"

text \<open>The compliance check of \<open>handleQuery\<close>: whether the node complies, and whether to go on.\<close>

definition check_compliant :: "dht \<Rightarrow> nodeid \<Rightarrow> addrport \<Rightarrow> dht \<times> bool \<times> bool" where
  "check_compliant d senderID a =
     (if d_mode d \<noteq> BEP42Off then
        (let compliant = ValidateNodeID senderID (ap_addr a)
         in if \<not> compliant then
              (counted (\<lambda>m. m\<lparr>BEP42NonCompliant := Inc (BEP42NonCompliant m)\<rparr>) d, compliant,
               d_mode d \<noteq> BEP42Enforce)
            else (d, compliant, True))
      else (d, True, True))"

definition insert_sender :: "int \<Rightarrow> dht \<Rightarrow> nodeid \<Rightarrow> addrport \<Rightarrow> bool \<Rightarrow> dht \<times> effect list" where
  "insert_sender now d senderID a compliant =
     (if d_mode d \<noteq> BEP42TableOnly \<or> compliant then
        (let newNode = \<lparr>ID = senderID, Addr = a, LastSeen = now, Compliant = compliant, FailCount = 0\<rparr>
         in case Table_Insert (d_table d) newNode of
              (rt, oldest, ok) \<Rightarrow>
                (d\<lparr>d_table := rt\<rparr>,
                 case oldest of Some old \<Rightarrow> if \<not> ok then [ReplaceIfDead old newNode] else [] | None \<Rightarrow> []))
      else (d, []))"

definition dispatch :: "int \<Rightarrow> dht \<Rightarrow> message \<Rightarrow> addrport \<Rightarrow> (dht \<times> effect list) option" where
  "dispatch now d msg a =
     (if QueryMethod msg = key ''ping'' then handlePing d msg a
      else if QueryMethod msg = key ''find_node'' then handleFindNode d msg a
      else if QueryMethod msg = key ''get_peers'' then handleGetPeers now d msg a
      else if QueryMethod msg = key ''announce_peer'' then handleAnnouncePeer now d msg a
      else Some (d, []))"

definition handleQuery :: "int \<Rightarrow> dht \<Rightarrow> message \<Rightarrow> addrport \<Rightarrow> (dht \<times> effect list) option" where
  "handleQuery now d msg a =
     (case (case d_limiter d of
              None \<Rightarrow> (d, True)
            | Some rl \<Rightarrow> (case Allow now rl (ap_addr a) of (rl', ok) \<Rightarrow> (d\<lparr>d_limiter := Some rl'\<rparr>, ok))) of
        (d, False) \<Rightarrow> Some (counted (\<lambda>m. m\<lparr>RateLimited := Inc (RateLimited m)\<rparr>) d, [])
      | (d, True) \<Rightarrow>
          (case nodeIDFromArgs (Args msg) of
             Inl _ \<Rightarrow> Some (d, [])
           | Inr senderID \<Rightarrow>
               (case check_compliant d senderID a of
                  (d, compliant, go_on) \<Rightarrow>
                    if \<not> go_on then Some (d, [])
                    else (case insert_sender now d senderID a compliant of
                            (d, spawned) \<Rightarrow>
                              (let d = counted (\<lambda>m. m\<lparr>QueriesInbound := count_method (QueryMethod msg) (QueriesInbound m)\<rparr>) d
                               in map_option (\<lambda>(d, es). (d, spawned @ es)) (dispatch now d msg a))))))"

section \<open>Table maintenance\<close>

text \<open>\<open>alive\<close> is whether the node answers the ping.\<close>

definition replaceIfDead :: "int \<Rightarrow> bool \<Rightarrow> dht \<Rightarrow> node \<Rightarrow> node \<Rightarrow> dht" where
  "replaceIfDead now alive d oldest replacement =
     (if now - LastSeen oldest < refreshInterval then d
      else if \<not> alive then
        d\<lparr>d_table := fst (Table_Insert (fst (Table_Remove (d_table d) (ID oldest))) replacement)\<rparr>
      else d)"

definition sweep_node :: "int \<Rightarrow> (node \<Rightarrow> bool) \<Rightarrow> node \<Rightarrow> dht \<Rightarrow> dht" where
  "sweep_node now alive n d =
     (if \<not> alive n then d\<lparr>d_table := fst (RecordFailure (d_table d) (ID n))\<rparr>
      else if d_mode d = BEP42TableOnly \<and> \<not> ValidateNodeID (ID n) (ap_addr (Addr n)) then
        d\<lparr>d_table := fst (Table_Remove (d_table d) (ID n))\<rparr>
      else d\<lparr>d_table := RecordSuccess now (d_table d) (ID n)\<rparr>)"

definition sweepStaleNodes :: "int \<Rightarrow> (node \<Rightarrow> bool) \<Rightarrow> dht \<Rightarrow> dht" where
  "sweepStaleNodes now alive d = fold (sweep_node now alive) (Stale now (d_table d) refreshInterval) d"

section \<open>The external address and the identifier\<close>

text \<open>\<open>iter\<close> is the order in which Go happens to iterate over the votes.\<close>

fun best_vote :: "(addr \<times> int) list \<Rightarrow> addr \<times> int \<Rightarrow> addr \<times> int" where
  "best_vote [] best = best"
| "best_vote ((a, c) # es) (bestIP, bestCount) =
     best_vote es (if c > bestCount then (a, c) else (bestIP, bestCount))"

definition voteExternalIP :: "((addr, int) dict \<Rightarrow> (addr \<times> int) list) \<Rightarrow> dht \<Rightarrow> addr \<Rightarrow> dht \<times> addr option" where
  "voteExternalIP iter d ip =
     (let votes = dict_put ip (wrap64 ((case map_of (d_ipVotes d) ip of Some c \<Rightarrow> c | None \<Rightarrow> 0) + 1)) (d_ipVotes d);
          d = d\<lparr>d_ipVotes := votes\<rparr>
      in case best_vote (iter votes) (NoAddr, 0) of
           (bestIP, bestCount) \<Rightarrow> (d, if bestCount \<ge> 3 then Some bestIP else None))"

definition reinsert :: "bep42_mode \<Rightarrow> node list \<Rightarrow> rtable \<Rightarrow> rtable" where
  "reinsert mode ns rt =
     fold (\<lambda>n rt. fst (Table_Insert rt
        (if mode \<noteq> BEP42Off then n\<lparr>Compliant := ValidateNodeID (ID n) (ap_addr (Addr n))\<rparr> else n))) ns rt"

definition regenerateCompliantID :: "bytes option \<Rightarrow> dht \<Rightarrow> addr \<Rightarrow> dht" where
  "regenerateCompliantID rnd d ip =
     (case GenerateCompliantID ip rnd of
        Inl _ \<Rightarrow> d
      | Inr newID \<Rightarrow>
          (let nodes = Snapshot (d_table d)
           in d\<lparr>d_id := newID, d_externalIP := ip,
                d_table := reinsert (d_mode d) nodes (NewRoutingTable newID)\<rparr>))"

text \<open>One bootstrap address: \<open>resp\<close> is the answer to the \<open>find_node\<close> query, if there is one.\<close>

definition bootstrap_node :: "((addr, int) dict \<Rightarrow> (addr \<times> int) list) \<Rightarrow> bytes option \<Rightarrow> int \<Rightarrow> addrport
    \<Rightarrow> message option \<Rightarrow> dht \<Rightarrow> dht" where
  "bootstrap_node iter rnd now a resp d =
     (case resp of
        None \<Rightarrow> d
      | Some resp \<Rightarrow>
          (let d = (case (d_mode d \<noteq> BEP42Off, Option.bind (IP resp) parseCompactAddr) of
                      (True, Some extAddr) \<Rightarrow>
                        (case voteExternalIP iter d (ap_addr extAddr) of
                           (d, Some consensus) \<Rightarrow>
                             if \<not> IsValid (d_externalIP d) then regenerateCompliantID rnd d consensus else d
                         | (d, None) \<Rightarrow> d)
                    | _ \<Rightarrow> d);
               d = (case nodeIDFromArgs (Response resp) of
                      Inl _ \<Rightarrow> d
                    | Inr respID \<Rightarrow> d\<lparr>d_table := fst (Table_Insert (d_table d)
                        \<lparr>ID = respID, Addr = a, LastSeen = now, Compliant = False, FailCount = 0\<rparr>)\<rparr>)
           in d\<lparr>d_table := fold (\<lambda>n rt. fst (Table_Insert rt n))
                (parseCompactNodes now (map_of (Response resp) (key ''nodes''))) (d_table d)\<rparr>))"

section \<open>The routing table file\<close>

text \<open>\<open>Save\<close> up to the write: the bytes, an encoding error, or a panic.\<close>

definition Save :: "dht \<Rightarrow> (enc_error + bytes) option" where
  "Save d =
     (case compactNodes (Snapshot (d_table d)) of
        None \<Rightarrow> None
      | Some nodes \<Rightarrow>
          (let dict = [(key ''id'', own_id d), (key ''nodes'', BString nodes)]
           in if IsValid (d_externalIP d) then
                (case As4 (d_externalIP d) of
                   None \<Rightarrow> None
                 | Some ip4 \<Rightarrow> Some (Encode (BDict (dict_put (key ''external_ip'') (BString ip4) dict))))
              else Some (Encode (BDict dict))))"

record saved_state =
  s_id :: nodeid
  s_nodes :: "node list"
  s_externalIP :: addr

datatype load_error = LoadDecode dec_error | NotADict | MissingId arg_error

definition loadRoutingTable :: "int \<Rightarrow> bytes \<Rightarrow> load_error + saved_state" where
  "loadRoutingTable now data =
     (case Decode data of
        Inl e \<Rightarrow> Inl (LoadDecode e)
      | Inr (BDict dict) \<Rightarrow>
          (case bytesFromArgs dict (key ''id'') of
             Inl e \<Rightarrow> Inl (MissingId e)
           | Inr i \<Rightarrow>
               Inr \<lparr>s_id = i, s_nodes = parseCompactNodes now (map_of dict (key ''nodes'')),
                 s_externalIP =
                   (case Option.bind (map_of dict (key ''external_ip'')) any_bytes of
                      Some ipBytes \<Rightarrow> if length ipBytes = 4 then IPv4 ipBytes else NoAddr
                    | None \<Rightarrow> NoAddr)\<rparr>)
      | Inr _ \<Rightarrow> Inl NotADict)"

text \<open>The part of \<open>New\<close> that sets up the state. \<open>rnd\<close> is the random identifier, \<open>crnd\<close> the
  random bytes of a compliant one, \<open>secret\<close> those of the token manager.\<close>

record dht_config =
  c_ExternalIP :: addr
  c_PeerTTL :: int
  c_BEP42 :: bep42_mode
  c_RateLimit :: int
  c_RateLimitWin :: int
  c_metrics :: bool

definition New_dht :: "bytes \<Rightarrow> bytes option \<Rightarrow> bytes \<Rightarrow> dht_config \<Rightarrow> saved_state option \<Rightarrow> dht" where
  "New_dht rnd crnd secret config saved =
     (let (i, savedNodes, savedIP) =
            (case saved of
               Some state \<Rightarrow> (s_id state, s_nodes state, s_externalIP state)
             | None \<Rightarrow> (NodeID rnd, [], NoAddr));
          (i, savedIP) =
            (if savedNodes = [] \<and> c_BEP42 config \<noteq> BEP42Off \<and> IsValid (c_ExternalIP config) then
               (case GenerateCompliantID (c_ExternalIP config) crnd of
                  Inr compliantID \<Rightarrow> (compliantID, c_ExternalIP config)
                | Inl _ \<Rightarrow> (i, savedIP))
             else (i, savedIP))
      in \<lparr>d_id = i, d_table = fold (\<lambda>n rt. fst (Table_Insert rt n)) savedNodes (NewRoutingTable i),
          d_tokens = Token.New secret, d_peers = NewPeerStore (c_PeerTTL config), d_mode = c_BEP42 config,
          d_limiter = (if c_RateLimit config > 0
             then Some (NewRateLimiter (c_RateLimit config) (c_RateLimitWin config) 100000) else None),
          d_externalIP = savedIP, d_ipVotes = [],
          d_metrics = (if c_metrics config then Some NewMetrics else None)\<rparr>)"

section \<open>The invariant\<close>

text \<open>
  The table belongs to the node's identifier and satisfies its invariant, and every address
  the node may have to write has a four-byte form, so that writing it cannot panic.
\<close>

definition all_has4 :: "peer_store \<Rightarrow> bool" where
  "all_has4 ps \<longleftrightarrow> (\<forall>h a t. announced ps h a = Some t \<longrightarrow> has4 a)"

definition dht_ok :: "dht \<Rightarrow> bool" where
  "dht_ok d \<longleftrightarrow> table_ok (d_table d) \<and> rt_self (d_table d) = d_id d
     \<and> list_all (\<lambda>n. has4 (Addr n)) (Snapshot (d_table d))
     \<and> store_ok (d_peers d) \<and> all_has4 (d_peers d)
     \<and> (\<forall>rl. d_limiter d = Some rl \<longrightarrow> limiter_ok rl)
     \<and> (IsValid (d_externalIP d) \<longrightarrow> (\<exists>b. As4 (d_externalIP d) = Some b \<and> length b = 4))"

lemma in_int64_literals [simp]:
  "in_int64 0" "in_int64 1" "in_int64 (numeral k) \<longleftrightarrow> (numeral k :: int) \<le> 9223372036854775807"
  by (simp_all add: in_int64_def int64_min_def int64_max_def)

section \<open>What table operations do to the nodes\<close>

lemma on_bucket_all:
  assumes "table_ok rt" "\<forall>n \<in> set (Snapshot rt). P n" "\<And>b. \<forall>n \<in> set b. P n \<Longrightarrow> \<forall>n \<in> set (f b). P n"
  shows "\<forall>n \<in> set (Snapshot (on_bucket rt x f)). P n"
proof (cases "PrefixLen (rt_self rt) x < 160")
  case True
  let ?i = "PrefixLen (rt_self rt) x"
  have l: "?i < length (rt_buckets rt)" using assms(1) True by (simp add: table_ok_def)
  have "\<forall>n \<in> set (rt_buckets rt ! ?i). P n" using assms(2) l by (auto simp: Snapshot_def)
  from assms(3) [OF this] have new: "\<forall>n \<in> set (f (rt_buckets rt ! ?i)). P n" .
  have "set ((rt_buckets rt)[?i := f (rt_buckets rt ! ?i)]) \<subseteq> insert (f (rt_buckets rt ! ?i)) (set (rt_buckets rt))"
    by (rule set_update_subset_insert)
  then show ?thesis using new assms(2) True by (fastforce simp: on_bucket_def Snapshot_def Let_def)
qed (use assms(2) in \<open>simp add: on_bucket_def Let_def not_less\<close>)

lemma Bucket_Insert_subset: "set (fst (Bucket_Insert b n)) \<subseteq> insert n (set b)"
  using set_remove_at_subset [of _ b] by (auto simp: Bucket_Insert_def split: option.split)

lemma Table_Insert_all:
  "table_ok rt \<Longrightarrow> P n \<Longrightarrow> \<forall>m \<in> set (Snapshot rt). P m \<Longrightarrow> \<forall>m \<in> set (Snapshot (fst (Table_Insert rt n))). P m"
  unfolding Table_Insert_on_bucket using Bucket_Insert_subset by (intro on_bucket_all) blast+

lemma Bucket_Remove_subset: "set (fst (Bucket_Remove b x)) \<subseteq> set b"
  using set_remove_at_subset [of _ b] by (auto simp: Bucket_Remove_def split: option.split)

lemma Table_Remove_all:
  "table_ok rt \<Longrightarrow> \<forall>m \<in> set (Snapshot rt). P m \<Longrightarrow> \<forall>m \<in> set (Snapshot (fst (Table_Remove rt x))). P m"
  unfolding Table_Remove_on_bucket using Bucket_Remove_subset by (intro on_bucket_all) blast+

lemma find_upd_all:
  assumes "\<forall>n \<in> set b. P n" "find_index Q b = Some j" "\<And>n. P n \<Longrightarrow> P (g n)"
  shows "\<forall>n \<in> set (b[j := g (b ! j)]). P n"
proof -
  have "P (b ! j)" using find_index_Some [OF assms(2)] assms(1) by simp
  then have "P (g (b ! j))" by (rule assms(3))
  with assms(1) set_update_subset_insert [of b j "g (b ! j)"] show ?thesis by blast
qed

lemma RecordFailure_all:
  assumes "table_ok rt" "\<forall>m \<in> set (Snapshot rt). P m" "\<And>n k. P n \<Longrightarrow> P (n\<lparr>FailCount := k\<rparr>)"
  shows "\<forall>m \<in> set (Snapshot (fst (RecordFailure rt x))). P m"
  unfolding RecordFailure_on_bucket
proof (rule on_bucket_all [OF assms(1,2)])
  fix b assume b: "\<forall>n \<in> set b. P n"
  show "\<forall>n \<in> set (fail_bucket x b). P n"
  proof (cases "find_index (\<lambda>n. ID n = x) b")
    case (Some j)
    with find_upd_all [OF b Some, of "\<lambda>n. n\<lparr>FailCount := FailCount n + 1\<rparr>"] assms(3) b set_remove_at_subset [of j b]
    show ?thesis by (auto simp: fail_bucket_eq)
  qed (simp add: fail_bucket_eq b)
qed

lemma RecordSuccess_all:
  assumes "table_ok rt" "\<forall>m \<in> set (Snapshot rt). P m" "\<And>n k t. P n \<Longrightarrow> P (n\<lparr>FailCount := k, LastSeen := t\<rparr>)"
  shows "\<forall>m \<in> set (Snapshot (RecordSuccess now rt x)). P m"
  unfolding RecordSuccess_on_bucket
proof (rule on_bucket_all [OF assms(1,2)])
  fix b assume b: "\<forall>n \<in> set b. P n"
  show "\<forall>n \<in> set (success_bucket now x b). P n"
  proof (cases "find_index (\<lambda>n. ID n = x) b")
    case (Some j)
    with find_upd_all [OF b Some, of "\<lambda>n. n\<lparr>FailCount := 0, LastSeen := now\<rparr>"] assms(3) show ?thesis
      by (simp add: success_bucket_def)
  qed (simp add: success_bucket_def b)
qed

section \<open>The handlers keep the invariant and do not panic\<close>

lemma dht_ok_table:
  assumes "dht_ok d" "table_ok rt" "rt_self rt = d_id d" "\<forall>n \<in> set (Snapshot rt). has4 (Addr n)"
  shows "dht_ok (d\<lparr>d_table := rt\<rparr>)"
  using assms by (simp add: dht_ok_def list_all_iff)

lemma dht_ok_counted [simp]: "dht_ok (counted f d) = dht_ok d"
  by (simp add: dht_ok_def counted_def)

lemma counted_simps [simp]:
  "d_id (counted f d) = d_id d" "d_table (counted f d) = d_table d" "d_tokens (counted f d) = d_tokens d"
  "d_peers (counted f d) = d_peers d" "d_mode (counted f d) = d_mode d" "d_limiter (counted f d) = d_limiter d"
  "own_id (counted f d) = own_id d"
  by (simp_all add: counted_def own_id_def)

lemma dht_okD:
  assumes "dht_ok d"
  shows "table_ok (d_table d)" "rt_self (d_table d) = d_id d" "\<forall>n \<in> set (Snapshot (d_table d)). has4 (Addr n)"
    "store_ok (d_peers d)" "all_has4 (d_peers d)" "valid_id (d_id d)"
  using assms by (auto simp: dht_ok_def list_all_iff table_ok_def)

lemma compactAddr_has4: "has4 a \<Longrightarrow> \<exists>ip. compactAddr a = Some ip \<and> length ip = 6"
  using endpoint6_has4 by (fastforce simp: compactAddr_def)

lemma has4_As4: "has4 a \<Longrightarrow> \<exists>b. As4 (ap_addr a) = Some b"
  by (auto simp: has4_def)

lemma closest_wire:
  assumes "dht_ok d"
  shows "list_all wire_node (FindClosest (d_table d) t k)" "length (FindClosest (d_table d) t k) \<le> k"
proof -
  let ?s = "sort_by_distance t (candidates_for (d_table d) t k)"
  have "set (take k ?s) \<subseteq> set (Snapshot (d_table d))"
    using candidates_subset [OF dht_okD(1) [OF assms], of t k] set_take_subset [of k ?s] by auto
  moreover have "wire_node n" if "n \<in> set (Snapshot (d_table d))" for n
    using that dht_okD(3) [OF assms] has_node_ok [OF dht_okD(1) [OF assms], of n]
    by (simp add: wire_node_def has_node_def node_ok_def)
  ultimately show "list_all wire_node (FindClosest (d_table d) t k)" "length (FindClosest (d_table d) t k) \<le> k"
    by (auto simp: FindClosest_take list_all_iff)
qed

lemma compact_closest:
  assumes "dht_ok d"
  obtains nodes where "compactNodes (FindClosest (d_table d) t k) = Some nodes" "length nodes \<le> k * 26"
proof -
  note c = closest_wire [OF assms, of t k]
  from compactNodes_total [OF c(1)] node26.length_encs [OF c(1)] c(2)
  have "compactNodes (FindClosest (d_table d) t k) = Some (concat (map (\<lambda>n. the (node26 n)) (FindClosest (d_table d) t k)))"
    "length (concat (map (\<lambda>n. the (node26 n)) (FindClosest (d_table d) t k))) \<le> k * 26" by simp_all
  then show thesis by (rule that)
qed

lemma Get_has4: "dht_ok d \<Longrightarrow> list_all has4 (Get now (d_peers d) h)"
  using set_Get [OF dht_okD(4), of d now h] dht_okD(5) [of d] by (auto simp: list_all_iff all_has4_def)

text \<open>Every reply can be marshalled, goes back to the querier and carries its transaction.\<close>

definition reply_ok :: "dht \<Rightarrow> message \<Rightarrow> addrport \<Rightarrow> effect \<Rightarrow> bool" where
  "reply_ok d msg a e =
     (case e of
        SendReply m b \<Rightarrow> b = a \<and> TransactionID m = TransactionID msg \<and> sendable m
          \<and> (Type m = key ''r'' \<longrightarrow> map_of (Response m) (key ''id'') = Some (own_id d) \<and> IP m = compactAddr a)
      | ReplaceIfDead old new \<Rightarrow> node_ok new \<and> has4 (Addr new) \<and> Addr new = a)"

lemma key_bytes2:
  "key ''id'' = [0x69, 0x64]" "key ''nodes'' = [0x6E, 0x6F, 0x64, 0x65, 0x73]"
  "key ''token'' = [0x74, 0x6F, 0x6B, 0x65, 0x6E]" "key ''values'' = [0x76, 0x61, 0x6C, 0x75, 0x65, 0x73]"
  "key ''external_ip'' = [0x65, 0x78, 0x74, 0x65, 0x72, 0x6E, 0x61, 0x6C, 0x5F, 0x69, 0x70]"
  by (simp_all add: ascii_def)

lemma encodable_short: "length s < 1000 \<Longrightarrow> encodable (BString s)"
  by (simp add: encodable_def maxDecodeDepth_def small_in_int64)

definition fits :: "bval \<Rightarrow> bool" where
  "fits v \<longleftrightarrow> wf_bval v \<and> 2 + height v \<le> maxDecodeDepth"

lemma encodable_peers:
  assumes "list_all (\<lambda>v. \<exists>s. v = BString s \<and> length s = 6) vs"
  shows "fits (BList vs)"
proof -
  have "wf_bval v \<and> Suc 2 + height v \<le> maxDecodeDepth" if "v \<in> set vs" for v
    using assms that by (auto simp: list_all_iff maxDecodeDepth_def)
  then show ?thesis unfolding fits_def height_BList_le by (simp add: maxDecodeDepth_def list_all_iff)
qed

lemma sendable_response:
  assumes "in_int64 (int (length (TransactionID msg)))" "length ip = 6" "sorted_dict resp"
    and "list_all (\<lambda>e. length (fst e) < 1000 \<and> fits (snd e)) resp"
  shows "sendable (response msg ip resp)"
proof -
  have "1 + height (BDict resp) \<le> maxDecodeDepth"
    unfolding height_BDict_le using assms(4) by (auto simp: list_all_iff maxDecodeDepth_def fits_def)
  with assms show ?thesis
    by (auto simp: sendable_def response_def empty_message_def canonical_def encodable_def small_in_int64
        maxDecodeDepth_def list_all_iff fits_def)
qed

lemma short_entry:
  "length s < 1000 \<Longrightarrow> fits (BString s)"
  by (simp add: small_in_int64 maxDecodeDepth_def fits_def)

lemma own_id_entry: "dht_ok d \<Longrightarrow> fits (own_id d)"
  using dht_okD(6) [of d] by (simp add: own_id_def valid_id_def small_in_int64 maxDecodeDepth_def fits_def)

lemma response_simps [simp]:
  "TransactionID (response msg ip resp) = TransactionID msg" "Type (response msg ip resp) = key ''r''"
  "Response (response msg ip resp) = resp" "IP (response msg ip resp) = Some ip"
  by (simp_all add: response_def)

lemma bad_token_ok:
  "in_int64 (int (length (TransactionID msg))) \<Longrightarrow> reply_ok d msg a (SendReply (bad_token msg) a)"
  by (simp add: reply_ok_def bad_token_def sendable_def empty_message_def canonical_def encodable_def
      maxDecodeDepth_def key_bytes)

text \<open>The outcome of a handler that went well.\<close>

definition good :: "dht \<Rightarrow> message \<Rightarrow> addrport \<Rightarrow> (dht \<times> effect list) option \<Rightarrow> bool" where
  "good d msg a r \<longleftrightarrow> (\<exists>d' es. r = Some (d', es) \<and> dht_ok d' \<and> d_id d' = d_id d \<and> list_all (reply_ok d msg a) es)"

lemma goodI: "dht_ok d' \<Longrightarrow> d_id d' = d_id d \<Longrightarrow> list_all (reply_ok d msg a) es \<Longrightarrow> good d msg a (Some (d', es))"
  by (simp add: good_def)

lemma reply_ok_response:
  assumes "in_int64 (int (length (TransactionID msg)))" "compactAddr a = Some ip" "length ip = 6" "sorted_dict resp"
    and "list_all (\<lambda>e. length (fst e) < 1000 \<and> fits (snd e)) resp"
    and "map_of resp (key ''id'') = Some (own_id d)"
  shows "reply_ok d msg a (SendReply (response msg ip resp) a)"
  using assms sendable_response [OF assms(1,3,4,5)] by (simp add: reply_ok_def)

lemma handlePing_good:
  assumes d: "dht_ok d" and a: "has4 a" and tid: "in_int64 (int (length (TransactionID msg)))"
  shows "good d msg a (handlePing d msg a)"
proof -
  obtain ip where ip: "compactAddr a = Some ip" "length ip = 6" using compactAddr_has4 [OF a] by blast
  have "reply_ok d msg a (SendReply (response msg ip [(key ''id'', own_id d)]) a)"
    by (rule reply_ok_response [OF tid ip]) (simp_all add: sorted_dict_def own_id_entry [OF d])
  then show ?thesis using d by (simp add: handlePing_def ip good_def)
qed

lemma handleFindNode_good:
  assumes d: "dht_ok d" and a: "has4 a" and tid: "in_int64 (int (length (TransactionID msg)))"
  shows "good d msg a (handleFindNode d msg a)"
proof (cases "targetFromArgs (Args msg)")
  case (Inr target)
  obtain ip where ip: "compactAddr a = Some ip" "length ip = 6" using compactAddr_has4 [OF a] by blast
  obtain ns where ns: "compactNodes (FindClosest (d_table d) target K) = Some ns" "length ns \<le> K * 26"
    using compact_closest [OF d] by blast
  have "reply_ok d msg a (SendReply (response msg ip [(key ''id'', own_id d), (key ''nodes'', BString ns)]) a)"
    by (rule reply_ok_response [OF tid ip])
      (use ns(2) in \<open>simp_all add: sorted_dict_def key_bytes2 own_id_entry [OF d] short_entry K_def\<close>)
  then show ?thesis using d by (simp add: handleFindNode_def ip ns good_def Inr)
qed (simp add: handleFindNode_def good_def d)

lemma handleGetPeers_good:
  assumes d: "dht_ok d" and a: "has4 a" and tid: "in_int64 (int (length (TransactionID msg)))"
  shows "good d msg a (handleGetPeers now d msg a)"
proof (cases "infoHashFromArgs (Args msg)")
  case (Inr h)
  obtain ip where ip: "compactAddr a = Some ip" "length ip = 6" using compactAddr_has4 [OF a] by blast
  obtain tok where tok: "Generate (d_tokens d) (ap_addr a) = Some tok" "length tok = 20"
    using has4_As4 [OF a] by (auto simp: Generate_def hash_def)
  show ?thesis
  proof (cases "Get now (d_peers d) h = []")
    case False
    obtain vs where vs: "compactPeers (Get now (d_peers d) h) = Some vs" "list_all (\<lambda>v. \<exists>s. v = BString s \<and> length s = 6) vs"
      using compactPeers_total [OF Get_has4 [OF d]] by blast
    have "reply_ok d msg a (SendReply (response msg ip
        [(key ''id'', own_id d), (key ''token'', BString tok), (key ''values'', BList vs)]) a)"
      by (rule reply_ok_response [OF tid ip])
        (use tok(2) encodable_peers [OF vs(2)] in \<open>simp_all add: sorted_dict_def key_bytes2 own_id_entry [OF d] short_entry\<close>)
    then show ?thesis using d False by (simp add: handleGetPeers_def ip tok vs(1) good_def Inr Let_def)
  next
    case True
    obtain ns where ns: "compactNodes (FindClosest (d_table d) (NodeID h) K) = Some ns" "length ns \<le> K * 26"
      using compact_closest [OF d] by blast
    have "reply_ok d msg a (SendReply (response msg ip
        [(key ''id'', own_id d), (key ''nodes'', BString ns), (key ''token'', BString tok)]) a)"
      by (rule reply_ok_response [OF tid ip])
        (use tok(2) ns(2) in \<open>simp_all add: sorted_dict_def key_bytes2 own_id_entry [OF d] short_entry K_def\<close>)
    then show ?thesis using d True by (simp add: handleGetPeers_def ip tok ns(1) good_def Inr Let_def)
  qed
qed (simp add: handleGetPeers_def good_def d)

lemma all_has4_Add:
  assumes "all_has4 ps" "has4 a"
  shows "all_has4 (Add now ps h a)"
  using assms by (auto simp: all_has4_def announced_Add)

lemma dht_ok_Add: "dht_ok d \<Longrightarrow> has4 b \<Longrightarrow> dht_ok (d\<lparr>d_peers := Add now (d_peers d) h b\<rparr>)"
  by (simp add: dht_ok_def Add_ok all_has4_Add)

lemma announced_addr_addr: "announced_addr msg a = Some b \<Longrightarrow> ap_addr b = ap_addr a"
  by (auto simp: announced_addr_def Let_def split: if_splits)

lemma has4_same_addr: "ap_addr b = ap_addr a \<Longrightarrow> has4 b = has4 a"
  by (simp add: has4_def)

lemma handleAnnouncePeer_good:
  assumes d: "dht_ok d" and a: "has4 a" and tid: "in_int64 (int (length (TransactionID msg)))"
  shows "good d msg a (handleAnnouncePeer now d msg a)"
proof -
  obtain ip where ip: "compactAddr a = Some ip" "length ip = 6" using compactAddr_has4 [OF a] by blast
  obtain b where b: "As4 (ap_addr a) = Some b" using has4_As4 [OF a] by blast
  have r: "reply_ok d msg a (SendReply (response msg ip [(key ''id'', own_id d)]) a)"
    by (rule reply_ok_response [OF tid ip]) (simp_all add: sorted_dict_def own_id_entry [OF d])
  have "dht_ok (d\<lparr>d_peers := Add now (d_peers d) h p\<rparr>)" if "announced_addr msg a = Some p" for h p
    using dht_ok_Add [OF d, of p now h] has4_same_addr [OF announced_addr_addr [OF that]] a by simp
  then show ?thesis
    using d r bad_token_ok [OF tid]
    by (auto simp: handleAnnouncePeer_def good_def Validate_hash [OF b] ip split: sum.split bool.split option.split)
qed

lemma dispatch_good:
  assumes d: "dht_ok d" and a: "has4 a" and tid: "in_int64 (int (length (TransactionID msg)))"
  shows "good d msg a (dispatch now d msg a)"
  using handlePing_good [OF assms] handleFindNode_good [OF assms] handleGetPeers_good [OF assms]
    handleAnnouncePeer_good [OF assms] d
  by (auto simp: dispatch_def good_def)

lemma insert_sender_good:
  assumes d: "dht_ok d" and a: "has4 a" and i: "valid_id i"
    and ins: "insert_sender now d i a c = (d', es)"
  shows "dht_ok d'" "d_id d' = d_id d" "list_all (reply_ok d msg a) es"
proof -
  let ?n = "\<lparr>ID = i, Addr = a, LastSeen = now, Compliant = c, FailCount = 0\<rparr>"
  have n: "node_ok ?n" using i by (simp add: node_ok_def MaxFailures_def)
  note t = dht_okD [OF d]
  have "dht_ok (d\<lparr>d_table := fst (Table_Insert (d_table d) ?n)\<rparr>)"
  proof (rule dht_ok_table [OF d])
    show "\<forall>m \<in> set (Snapshot (fst (Table_Insert (d_table d) ?n))). has4 (Addr m)"
      by (rule Table_Insert_all [OF t(1) _ t(3)]) (simp add: a)
  qed (simp_all add: Table_Insert_ok [OF t(1) n] t(2))
  then show "dht_ok d'" "d_id d' = d_id d" "list_all (reply_ok d msg a) es"
    using ins d n a by (auto simp: insert_sender_def Let_def reply_ok_def split: if_splits prod.splits option.splits)
qed

lemma reply_ok_id: "d_id d' = d_id d \<Longrightarrow> reply_ok d' = reply_ok d"
  by (intro ext) (simp add: reply_ok_def own_id_def split: effect.split)

lemma check_compliant_good:
  "check_compliant d i a = (d', c, go_on) \<Longrightarrow> dht_ok d' = dht_ok d \<and> d_id d' = d_id d \<and> d_peers d' = d_peers d
    \<and> d_table d' = d_table d \<and> d_tokens d' = d_tokens d \<and> d_mode d' = d_mode d
    \<and> c = (d_mode d \<noteq> BEP42Off \<longrightarrow> ValidateNodeID i (ap_addr a))
    \<and> go_on = (c \<or> d_mode d \<noteq> BEP42Enforce)"
  by (auto simp: check_compliant_def Let_def split: if_splits)

definition limited :: "int \<Rightarrow> dht \<Rightarrow> addrport \<Rightarrow> dht \<times> bool" where
  "limited now d a =
     (case d_limiter d of
        None \<Rightarrow> (d, True)
      | Some rl \<Rightarrow> (case Allow now rl (ap_addr a) of (rl', ok) \<Rightarrow> (d\<lparr>d_limiter := Some rl'\<rparr>, ok)))"

lemma limited_good:
  assumes "limited now d a = (d', ok)"
  shows "dht_ok d \<Longrightarrow> dht_ok d'" "d_id d' = d_id d" "d_peers d' = d_peers d" "d_table d' = d_table d"
    "d_tokens d' = d_tokens d" "d_mode d' = d_mode d" "own_id d' = own_id d"
proof -
  have "limiter_ok rl'" if "limiter_ok rl" "Allow now rl (ap_addr a) = (rl', ok)" for rl rl' ok
    using Allow_view(4) [OF that(1), of now "ap_addr a"] that(2) by simp
  then show "dht_ok d \<Longrightarrow> dht_ok d'" "d_id d' = d_id d" "d_peers d' = d_peers d" "d_table d' = d_table d"
    "d_tokens d' = d_tokens d" "d_mode d' = d_mode d" "own_id d' = own_id d"
    using assms by (auto simp: limited_def dht_ok_def own_id_def split: option.splits prod.splits)
qed

text \<open>The handler as its stages.\<close>

lemma handleQuery_stages:
  "handleQuery now d msg a =
     (case limited now d a of
        (d, False) \<Rightarrow> Some (counted (\<lambda>m. m\<lparr>RateLimited := Inc (RateLimited m)\<rparr>) d, [])
      | (d, True) \<Rightarrow>
          (case nodeIDFromArgs (Args msg) of
             Inl _ \<Rightarrow> Some (d, [])
           | Inr senderID \<Rightarrow>
               (case check_compliant d senderID a of
                  (d, compliant, go_on) \<Rightarrow>
                    if \<not> go_on then Some (d, [])
                    else (case insert_sender now d senderID a compliant of
                            (d, spawned) \<Rightarrow>
                              (let d = counted (\<lambda>m. m\<lparr>QueriesInbound := count_method (QueryMethod msg) (QueriesInbound m)\<rparr>) d
                               in map_option (\<lambda>(d, es). (d, spawned @ es)) (dispatch now d msg a))))))"
  unfolding handleQuery_def limited_def ..

lemma handleQuery_good:
  assumes d: "dht_ok d" and a: "has4 a" and tid: "in_int64 (int (length (TransactionID msg)))"
  shows "good d msg a (handleQuery now d msg a)"
proof -
  obtain d1 ok where l: "limited now d a = (d1, ok)" by (cases "limited now d a")
  note d1 = limited_good [OF l]
  show ?thesis
  proof (cases ok)
    case False
    then show ?thesis using d1 d by (simp add: handleQuery_stages l good_def)
  next
    case ok: True
    show ?thesis
    proof (cases "nodeIDFromArgs (Args msg)")
      case (Inl e)
      then show ?thesis using ok d1 d by (simp add: handleQuery_stages l good_def)
    next
      case (Inr i)
      then have i: "valid_id i" using bytesFromArgs_valid by (simp add: nodeIDFromArgs_def)
      obtain d2 c go_on where c: "check_compliant d1 i a = (d2, c, go_on)" by (metis prod_cases3)
      note d2 = check_compliant_good [OF c]
      obtain d3 es where s: "insert_sender now d2 i a c = (d3, es)" by (cases "insert_sender now d2 i a c")
      have "dht_ok d2" using d1 d2 d by simp
      note d3 = insert_sender_good(1,2) [OF this a i s] insert_sender_good(3) [OF this a i s, of msg]
      let ?d4 = "counted (\<lambda>m. m\<lparr>QueriesInbound := count_method (QueryMethod msg) (QueriesInbound m)\<rparr>) d3"
      have "good ?d4 msg a (dispatch now ?d4 msg a)" using d3(1) by (intro dispatch_good a tid) simp
      then obtain d5 es' where r: "dispatch now ?d4 msg a = Some (d5, es')" "dht_ok d5" "d_id d5 = d_id d3"
        "list_all (reply_ok d msg a) es'"
        using d3(2) conjunct1 [OF conjunct2 [OF d2]] d1(2) reply_ok_id [of ?d4 d] unfolding good_def by auto
      have "list_all (reply_ok d msg a) es"
        using d3(3) reply_ok_id [of d2 d] d2 d1(2) by simp
      with r show ?thesis using ok Inr c s d1 d2 d3 d by (simp add: handleQuery_stages l good_def)
    qed
  qed
qed

section \<open>Who can add a peer\<close>

lemma dispatch_peers:
  assumes "dispatch now d msg a = Some (d', es)"
  shows "d_peers d' = d_peers d \<or>
    (\<exists>infoHash tok p. QueryMethod msg = key ''announce_peer'' \<and> infoHashFromArgs (Args msg) = Inr infoHash
       \<and> tokenFromArgs (Args msg) = Inr tok \<and> Validate (d_tokens d) (ap_addr a) tok = Some True
       \<and> announced_addr msg a = Some p \<and> d_peers d' = Add now (d_peers d) infoHash p)"
  using assms unfolding dispatch_def handlePing_def handleFindNode_def handleGetPeers_def handleAnnouncePeer_def
  by (auto simp: Let_def split: if_splits option.splits sum.splits bool.splits)

lemma dispatch_frame:
  assumes "dispatch now d msg a = Some (d', es)"
  shows "d_tokens d' = d_tokens d \<and> d_table d' = d_table d \<and> d_mode d' = d_mode d \<and> d_id d' = d_id d"
  using assms unfolding dispatch_def handlePing_def handleFindNode_def handleGetPeers_def handleAnnouncePeer_def
  by (auto simp: Let_def split: if_splits option.splits sum.splits bool.splits)

lemma insert_sender_frame:
  "insert_sender now d i a c = (d', es) \<Longrightarrow> d_peers d' = d_peers d \<and> d_tokens d' = d_tokens d \<and> d_mode d' = d_mode d"
  by (auto simp: insert_sender_def Let_def split: if_splits prod.splits)

text \<open>Inversion of a handled query that reached the dispatch.\<close>

lemma handleQuery_cases:
  assumes "handleQuery now d msg a = Some (d', es)"
  obtains (dropped) "d_peers d' = d_peers d" "d_table d' = d_table d" "es = []"
    | (handled) d1 i d2 c go_on d3 spawned es' where
        "limited now d a = (d1, True)" "nodeIDFromArgs (Args msg) = Inr i"
        "check_compliant d1 i a = (d2, c, go_on)" "go_on" "insert_sender now d2 i a c = (d3, spawned)"
        "dispatch now (counted (\<lambda>m. m\<lparr>QueriesInbound := count_method (QueryMethod msg) (QueriesInbound m)\<rparr>) d3) msg a
          = Some (d', es')" "es = spawned @ es'"
proof -
  obtain d1 ok where l: "limited now d a = (d1, ok)" by (cases "limited now d a")
  note d1 = limited_good [OF l]
  show thesis
  proof (cases "ok \<and> (\<exists>i. nodeIDFromArgs (Args msg) = Inr i)")
    case False
    then show ?thesis using assms d1 l by (intro dropped) (cases ok; auto simp: handleQuery_stages split: sum.splits)+
  next
    case True
    then obtain i where i: "nodeIDFromArgs (Args msg) = Inr i" and ok by blast
    obtain d2 c go_on where c: "check_compliant d1 i a = (d2, c, go_on)" by (metis prod_cases3)
    obtain d3 spawned where s: "insert_sender now d2 i a c = (d3, spawned)" by (cases "insert_sender now d2 i a c")
    show ?thesis
    proof (cases go_on)
      case False
      then show ?thesis using assms d1 check_compliant_good [OF c] \<open>ok\<close> l i c
        by (intro dropped) (auto simp: handleQuery_stages)
    next
      case True
      then show ?thesis using assms \<open>ok\<close> l i c s
        by (intro handled [of d1 i d2 c go_on d3 spawned "drop (length spawned) es"]) (auto simp: handleQuery_stages Let_def)
    qed
  qed
qed

section \<open>Properties of the handlers\<close>

text \<open>No query can crash the node as long as its sender has an address with a four-byte form:
  for any message with any arguments, \<open>handleQuery\<close> returns, keeps the invariant of the node,
  and everything it sends goes back to the sender under the query's transaction identifier, can
  be marshalled, and, when it is a response, carries the node's identifier and the sender's address.\<close>

theorem handleQuery_safe:
  assumes "dht_ok d" "has4 a" "in_int64 (int (length (TransactionID msg)))"
  shows "\<exists>d' es. handleQuery now d msg a = Some (d', es) \<and> dht_ok d' \<and> d_id d' = d_id d
    \<and> list_all (reply_ok d msg a) es"
  using handleQuery_good [OF assms] by (simp add: good_def)

definition fresh_dht :: "bep42_mode \<Rightarrow> dht" where
  "fresh_dht mode = \<lparr>d_id = zero_id, d_table = NewRoutingTable zero_id, d_tokens = Token.New (replicate 20 7),
     d_peers = NewPeerStore 1000, d_mode = mode, d_limiter = Some (NewRateLimiter 50 1000 100), d_externalIP = NoAddr,
     d_ipVotes = [], d_metrics = Some NewMetrics\<rparr>"

lemma fresh_dht_ok: "dht_ok (fresh_dht mode)"
proof -
  have "valid_id zero_id" by (simp add: zero_id_def valid_id_def)
  moreover have "all_has4 (NewPeerStore 1000)"
    by (simp add: all_has4_def announced_def stored_def NewPeerStore_def)
  moreover have "Snapshot (NewRoutingTable zero_id) = []"
    by (simp add: NewRoutingTable_def Snapshot_def NewBucket_def)
  moreover have "rt_self (NewRoutingTable zero_id) = zero_id" by (simp add: NewRoutingTable_def)
  ultimately show ?thesis
    by (simp add: dht_ok_def fresh_dht_def New_ok New_limiter IsValid_def NewRoutingTable_ok)
qed

abbreviation some_peer :: addrport where "some_peer \<equiv> AddrPort (IPv4 [10, 0, 0, 1]) 6881"

theorem handleQuery_safe_witness:
  "\<exists>d' es. handleQuery 5 (fresh_dht BEP42Off) sample_query some_peer = Some (d', es) \<and> dht_ok d'"
  using handleQuery_safe [OF fresh_dht_ok, of some_peer sample_query 5 BEP42Off]
  by (auto simp: has4_def sample_query_def empty_message_def)

text \<open>A single packet from an address without a four-byte form (an IPv6 sender, on the
  dual-stack socket) ends the process: a ping with a valid identifier that passes the rate limit
  and the compliance check makes \<open>handleQuery\<close> panic.\<close>

theorem IPv6_ping_panics:
  assumes "As4 (ap_addr a) = None" "limited now d a = (d1, True)" "nodeIDFromArgs (Args msg) = Inr i"
    and "d_mode d = BEP42Off" "QueryMethod msg = key ''ping''"
  shows "handleQuery now d msg a = None"
proof -
  have "check_compliant d1 i a = (d1, True, True)"
    using limited_good(6) [OF assms(2)] assms(4) by (simp add: check_compliant_def)
  then show ?thesis using assms(1,2,3,5)
    by (simp add: handleQuery_stages dispatch_def handlePing_def compactAddr_def endpoint6_def Let_def
        split: prod.split)
qed

theorem IPv6_ping_panics_witness:
  "handleQuery 5 (fresh_dht BEP42Off) sample_query (AddrPort (IPv6 (replicate 16 1) []) 6881) = None"
proof -
  let ?a = "AddrPort (IPv6 (replicate 16 1) []) 6881"
  have "As4 (ap_addr ?a) = None" by (simp add: mapped4_def numeral_eq_Suc)
  moreover have "snd (limited 5 (fresh_dht BEP42Off) ?a)" by code_simp
  then obtain d1 where "limited 5 (fresh_dht BEP42Off) ?a = (d1, True)"
    by (cases "limited 5 (fresh_dht BEP42Off) ?a") auto
  moreover have "nodeIDFromArgs (Args sample_query) = Inr (NodeID (replicate 20 65))"
    by (simp add: nodeIDFromArgs_def bytesFromArgs_def sample_query_def any_bytes_def FromBytes_def)
  ultimately show ?thesis by (rule IPv6_ping_panics) (simp_all add: fresh_dht_def sample_query_def)
qed

text \<open>C20: The only query that changes the stored peers is an \<open>announce_peer\<close> that passed every
  check with a token valid for the sender's address, and it adds exactly one endpoint, which has
  the sender's address; a wrong token is answered with error 203 and stores nothing.\<close>

theorem only_token_holders_add_peers:
  assumes "handleQuery now d msg a = Some (d', es)"
  shows "d_peers d' = d_peers d \<or>
    (\<exists>infoHash tok p. QueryMethod msg = key ''announce_peer'' \<and> infoHashFromArgs (Args msg) = Inr infoHash
       \<and> tokenFromArgs (Args msg) = Inr tok \<and> Validate (d_tokens d) (ap_addr a) tok = Some True
       \<and> ap_addr p = ap_addr a \<and> d_peers d' = Add now (d_peers d) infoHash p)"
  using assms
proof (cases rule: handleQuery_cases)
  case (handled d1 i d2 c go_on d3 spawned es')
  note f = limited_good(3,5) [OF handled(1)] check_compliant_good [OF handled(3)] insert_sender_frame [OF handled(5)]
  from dispatch_peers [OF handled(6)] show ?thesis
    using f announced_addr_addr [of msg a] by fastforce
qed simp

definition bad_announce :: message where
  "bad_announce = empty_message\<lparr>TransactionID := [1], Type := key ''q'', QueryMethod := key ''announce_peer'',
     Args := [(key ''id'', BString (replicate 20 65)), (key ''info_hash'', BString (replicate 20 1)),
       (key ''port'', BInt 80), (key ''token'', BString (replicate 20 0))]\<rparr>"

theorem only_token_holders_add_peers_witness:
  "\<exists>d' es. handleQuery 5 (fresh_dht BEP42Off) sample_query some_peer = Some (d', es)
     \<and> d_peers d' = d_peers (fresh_dht BEP42Off)"
proof -
  obtain d' es where h: "handleQuery 5 (fresh_dht BEP42Off) sample_query some_peer = Some (d', es)"
    using handleQuery_good [OF fresh_dht_ok, of some_peer sample_query BEP42Off 5]
    by (auto simp: has4_def sample_query_def empty_message_def good_def)
  with only_token_holders_add_peers [OF h] show ?thesis by (auto simp: sample_query_def)
qed

text \<open>What a reply says after it has crossed the wire.\<close>

lemma any_bytes_norm [simp]: "any_bytes (norm v) = any_bytes v"
  by (cases v) (simp_all add: any_bytes_def)

lemma parseCompactNodes_norm [simp]:
  "parseCompactNodes t (map_option norm raw) = parseCompactNodes t raw"
  by (cases raw) (simp_all add: parseCompactNodes_def)

lemma parseCompactPeer_norm [simp]: "parseCompactPeer (norm v) = parseCompactPeer v"
  by (simp add: parseCompactPeer_def)

lemma norm_Response: "map_of (Response (norm_message m)) k = map_option norm (map_of (Response m) k)"
  by (simp add: norm_message_def norm_dict_def map_of_norm)

text \<open>A \<open>find_node\<close> answer tells the querier the closest nodes: what it reads from the packet,
  parsed as compact nodes, are the nodes of \<open>FindClosest\<close> in order, with their identifiers and
  four-byte addresses and ports.\<close>

theorem find_node_end_to_end:
  assumes "dht_ok d" "has4 a" "in_int64 (int (length (TransactionID msg)))" "targetFromArgs (Args msg) = Inr target"
  shows "\<exists>m data m'. handleFindNode d msg a = Some (d, [SendReply m a]) \<and> Marshal m = Inr data
    \<and> Unmarshal data = Inr m' \<and> TransactionID m' = TransactionID msg
    \<and> parseCompactNodes now (map_of (Response m') (key ''nodes'')) = map (node_wire now) (FindClosest (d_table d) target K)"
proof -
  obtain ip where ip: "compactAddr a = Some ip" using compactAddr_has4 [OF assms(2)] by blast
  obtain ns where ns: "compactNodes (FindClosest (d_table d) target K) = Some ns"
    using compact_closest [OF assms(1)] by blast
  let ?m = "response msg ip [(key ''id'', own_id d), (key ''nodes'', BString ns)]"
  have h: "handleFindNode d msg a = Some (d, [SendReply ?m a])"
    by (simp add: handleFindNode_def assms(4) ip ns)
  with handleFindNode_good [OF assms(1-3)] have "sendable ?m" by (simp add: good_def reply_ok_def)
  then obtain data where data: "Marshal ?m = Inr data" "Unmarshal data = Inr (norm_message ?m)"
    by (rule Marshal_Unmarshal)
  have "parseCompactNodes now (Some (BString ns)) = map (node_wire now) (FindClosest (d_table d) target K)"
    using closest_wire(1) [OF assms(1)] ns by (rule parse_compact_nodes) (simp add: any_bytes_def)
  then have p: "parseCompactNodes now (map_of (Response (norm_message ?m)) (key ''nodes''))
      = map (node_wire now) (FindClosest (d_table d) target K)"
    unfolding norm_Response parseCompactNodes_norm by simp
  have "TransactionID (norm_message ?m) = TransactionID msg" by (simp add: norm_message_def)
  with h data p show ?thesis by blast
qed

definition find_query :: message where
  "find_query = empty_message\<lparr>TransactionID := [1, 2], Type := key ''q'', QueryMethod := key ''find_node'',
     Args := [(key ''id'', BString (replicate 20 65)), (key ''target'', BString (replicate 20 66))]\<rparr>"

theorem find_node_end_to_end_witness:
  "\<exists>m data m'. handleFindNode (fresh_dht BEP42Off) find_query some_peer = Some (fresh_dht BEP42Off, [SendReply m some_peer])
     \<and> Marshal m = Inr data \<and> Unmarshal data = Inr m' \<and> TransactionID m' = [1, 2]"
proof -
  have "has4 some_peer" by (simp add: has4_def)
  moreover have "in_int64 (int (length (TransactionID find_query)))" by (simp add: find_query_def)
  moreover have "targetFromArgs (Args find_query) = Inr (NodeID (replicate 20 66))"
    by (simp add: targetFromArgs_def bytesFromArgs_def find_query_def any_bytes_def FromBytes_def)
  ultimately show ?thesis using find_node_end_to_end [OF fresh_dht_ok] by (fastforce simp: find_query_def)
qed

text \<open>A stored peer is in the answer to \<open>get_peers\<close>, as it arrives.\<close>

lemma get_peers_answer:
  assumes d2: "dht_ok d2" and q: "has4 b" "infoHashFromArgs (Args msg2) = Inr h" "in_int64 (int (length (TransactionID msg2)))"
    and g: "p \<in> set (Get later (d_peers d2) h)"
  shows "\<exists>m data m' vs. handleGetPeers later d2 msg2 b = Some (d2, [SendReply m b]) \<and> Marshal m = Inr data
      \<and> Unmarshal data = Inr m' \<and> map_of (Response m') (key ''values'') = Some (BList vs)
      \<and> Some (as_v4 p) \<in> set (map parseCompactPeer vs)"
proof -
  obtain vs where vs: "compactPeers (Get later (d_peers d2) h) = Some vs"
    "map parseCompactPeer vs = map (\<lambda>a. Some (as_v4 a)) (Get later (d_peers d2) h)"
    using compactPeers_total [OF Get_has4 [OF d2]] by blast
  obtain ip where ip: "compactAddr b = Some ip" using compactAddr_has4 [OF q(1)] by blast
  obtain tk where tk: "Generate (d_tokens d2) (ap_addr b) = Some tk"
    using has4_As4 [OF q(1)] by (auto simp: Generate_def hash_def)
  let ?m = "response msg2 ip [(key ''id'', own_id d2), (key ''token'', BString tk), (key ''values'', BList vs)]"
  have hg: "handleGetPeers later d2 msg2 b = Some (d2, [SendReply ?m b])"
    using g vs(1) by (auto simp: handleGetPeers_def q(2) tk ip Let_def)
  with handleGetPeers_good [OF d2 q(1,3), of later] have "sendable ?m" by (simp add: good_def reply_ok_def)
  then obtain data where data: "Marshal ?m = Inr data" "Unmarshal data = Inr (norm_message ?m)"
    by (rule Marshal_Unmarshal)
  have v: "map_of (Response (norm_message ?m)) (key ''values'') = Some (BList (map norm vs))"
    unfolding norm_Response by simp
  have "map parseCompactPeer (map norm vs) = map (\<lambda>a. Some (as_v4 a)) (Get later (d_peers d2) h)"
    using vs(2) by (simp add: comp_def)
  then have "Some (as_v4 p) \<in> set (map parseCompactPeer (map norm vs))" using g by (metis imageI image_set)
  with hg data v show "\<exists>m data m' vs. handleGetPeers later d2 msg2 b = Some (d2, [SendReply m b]) \<and> Marshal m = Inr data
      \<and> Unmarshal data = Inr m' \<and> map_of (Response m') (key ''values'') = Some (BList vs)
      \<and> Some (as_v4 p) \<in> set (map parseCompactPeer vs)" by blast
qed

text \<open>Any later history of the peer store.\<close>

fun store_history :: "(int \<times> (bytes \<times> addrport) option) list \<Rightarrow> peer_store \<Rightarrow> peer_store" where
  "store_history [] ps = ps"
| "store_history ((t, Some (h, a)) # es) ps = store_history es (Add t ps h a)"
| "store_history ((t, None) # es) ps = store_history es (fst (Expire t ps))"

lemma store_history_run: "store_history es ps = store.run es ps"
  by (induction es ps rule: store_history.induct) simp_all


definition good_announce :: "bytes \<Rightarrow> message" where
  "good_announce tok = empty_message\<lparr>TransactionID := [1], Type := key ''q'', QueryMethod := key ''announce_peer'',
     Args := [(key ''id'', BString (replicate 20 65)), (key ''info_hash'', BString (replicate 20 1)),
       (key ''port'', BInt 80), (key ''token'', BString tok)]\<rparr>"

definition peers_query :: message where
  "peers_query = empty_message\<lparr>TransactionID := [2], Type := key ''q'', QueryMethod := key ''get_peers'',
     Args := [(key ''id'', BString (replicate 20 66)), (key ''info_hash'', BString (replicate 20 1))]\<rparr>"


section \<open>Maintenance keeps the invariant\<close>

lemma replaceIfDead_ok [wf_intros]:
  assumes "dht_ok d" "node_ok new" "has4 (Addr new)"
  shows "dht_ok (replaceIfDead now alive d old new)"
proof -
  note t = dht_okD [OF assms(1)]
  have "dht_ok (d\<lparr>d_table := fst (Table_Insert (fst (Table_Remove (d_table d) (ID old))) new)\<rparr>)"
  proof (rule dht_ok_table [OF assms(1)])
    show "\<forall>m \<in> set (Snapshot (fst (Table_Insert (fst (Table_Remove (d_table d) (ID old))) new))). has4 (Addr m)"
      using Table_Remove_all [OF t(1,3)] assms(3) by (intro Table_Insert_all) (simp_all add: Table_Remove_ok t(1))
  qed (simp_all add: Table_Insert_ok Table_Remove_ok t assms(2))
  then show ?thesis using assms(1) by (simp add: replaceIfDead_def)
qed

lemma sweep_node_ok: "dht_ok d \<Longrightarrow> dht_ok (sweep_node now alive n d)"
proof -
  assume d: "dht_ok d"
  note t = dht_okD [OF d]
  have "dht_ok (d\<lparr>d_table := fst (RecordFailure (d_table d) (ID n))\<rparr>)"
    by (rule dht_ok_table [OF d]) (simp_all add: RecordFailure_ok t(1,2) RecordFailure_all [OF t(1,3)])
  moreover have "dht_ok (d\<lparr>d_table := fst (Table_Remove (d_table d) (ID n))\<rparr>)"
    by (rule dht_ok_table [OF d]) (simp_all add: Table_Remove_ok t(1,2) Table_Remove_all [OF t(1,3)])
  moreover have "dht_ok (d\<lparr>d_table := RecordSuccess now (d_table d) (ID n)\<rparr>)"
    by (rule dht_ok_table [OF d]) (simp_all add: RecordSuccess_ok t(1,2) RecordSuccess_all [OF t(1,3)])
  ultimately show ?thesis by (simp add: sweep_node_def)
qed

lemma sweepStaleNodes_ok [wf_intros]: "dht_ok d \<Longrightarrow> dht_ok (sweepStaleNodes now alive d)"
proof -
  have "dht_ok d \<Longrightarrow> dht_ok (fold (sweep_node now alive) ns d)" for ns
    by (induction ns arbitrary: d) (simp_all add: sweep_node_ok)
  then show "dht_ok d \<Longrightarrow> dht_ok (sweepStaleNodes now alive d)" by (simp add: sweepStaleNodes_def)
qed

text \<open>Inserting many nodes.\<close>

definition insert_nodes :: "(node \<Rightarrow> node) \<Rightarrow> node list \<Rightarrow> rtable \<Rightarrow> rtable" where
  "insert_nodes g ns rt = fold (\<lambda>n rt. fst (Table_Insert rt (g n))) ns rt"

lemma insert_nodes_Cons [simp]:
  "insert_nodes g [] rt = rt" "insert_nodes g (n # ns) rt = insert_nodes g ns (fst (Table_Insert rt (g n)))"
  by (simp_all add: insert_nodes_def)

lemma insert_nodes_ok:
  "table_ok rt \<Longrightarrow> \<forall>n \<in> set ns. node_ok (g n)
    \<Longrightarrow> table_ok (insert_nodes g ns rt) \<and> rt_self (insert_nodes g ns rt) = rt_self rt"
  by (induction ns arbitrary: rt) (simp_all add: Table_Insert_ok)

lemma insert_nodes_all:
  "table_ok rt \<Longrightarrow> \<forall>n \<in> set ns. node_ok (g n) \<Longrightarrow> \<forall>n \<in> set ns. P (g n)
    \<Longrightarrow> \<forall>m \<in> set (Snapshot rt). P m \<Longrightarrow> \<forall>m \<in> set (Snapshot (insert_nodes g ns rt)). P m"
proof (induction ns arbitrary: rt)
  case (Cons n ns)
  have "\<forall>m \<in> set (Snapshot (fst (Table_Insert rt (g n)))). P m"
    by (rule Table_Insert_all [OF Cons.prems(1) _ Cons.prems(4)]) (simp add: Cons.prems(3))
  moreover have "table_ok (fst (Table_Insert rt (g n)))"
    by (rule Table_Insert_ok [OF Cons.prems(1)]) (simp add: Cons.prems(2))
  ultimately show ?case using Cons.IH Cons.prems(2,3) by simp
qed simp

lemma Snapshot_New [simp]: "Snapshot (NewRoutingTable i) = []"
  by (simp add: NewRoutingTable_def Snapshot_def NewBucket_def)

definition marked :: "bep42_mode \<Rightarrow> node \<Rightarrow> node" where
  "marked mode n = (if mode \<noteq> BEP42Off then n\<lparr>Compliant := ValidateNodeID (ID n) (ap_addr (Addr n))\<rparr> else n)"

lemma reinsert_marked: "reinsert mode ns rt = insert_nodes (marked mode) ns rt"
  by (simp add: reinsert_def insert_nodes_def marked_def)

lemma marked_simps [simp]: "ID (marked mode n) = ID n" "Addr (marked mode n) = Addr n"
  "node_ok (marked mode n) = node_ok n"
  by (simp_all add: marked_def node_ok_def)

lemma marked_compliant: "mode \<noteq> BEP42Off \<Longrightarrow> Compliant (marked mode n) = ValidateNodeID (ID n) (ap_addr (Addr n))"
  by (simp add: marked_def)

lemma reinsert_ok:
  assumes "valid_id i" "\<forall>n \<in> set ns. node_ok n"
  shows "table_ok (reinsert mode ns (NewRoutingTable i))" "rt_self (reinsert mode ns (NewRoutingTable i)) = i"
    and "\<forall>n \<in> set ns. P (marked mode n) \<Longrightarrow> \<forall>m \<in> set (Snapshot (reinsert mode ns (NewRoutingTable i))). P m"
proof -
  have m: "\<forall>n \<in> set ns. node_ok (marked mode n)" using assms(2) by simp
  note t = NewRoutingTable_ok [OF assms(1)]
  show "table_ok (reinsert mode ns (NewRoutingTable i))" "rt_self (reinsert mode ns (NewRoutingTable i)) = i"
    using insert_nodes_ok [OF t m] by (simp_all add: reinsert_marked NewRoutingTable_def)
  show "\<forall>m \<in> set (Snapshot (reinsert mode ns (NewRoutingTable i))). P m" if "\<forall>n \<in> set ns. P (marked mode n)"
    unfolding reinsert_marked using insert_nodes_all [OF t m that] by simp
qed

section \<open>Voting and regeneration\<close>

lemma best_vote_spec:
  "best_vote es (b0, c0) = (b, c) \<Longrightarrow> c0 \<le> c \<and> ((b, c) = (b0, c0) \<or> (b, c) \<in> set es) \<and> (\<forall>e \<in> set es. snd e \<le> c)"
  by (induction es "(b0, c0)" arbitrary: b0 c0 rule: best_vote.induct) (fastforce split: if_splits)+

text \<open>The votes after a list of them; no wrap-around below \<open>2 ^ 63\<close> votes.\<close>

definition votes_after :: "((addr, int) dict \<Rightarrow> (addr \<times> int) list) \<Rightarrow> dht \<Rightarrow> addr list \<Rightarrow> dht" where
  "votes_after iter d vs = fold (\<lambda>v d. fst (voteExternalIP iter d v)) vs d"

lemma vote_votes:
  "d_ipVotes (fst (voteExternalIP iter d ip)) =
     dict_put ip (wrap64 ((case map_of (d_ipVotes d) ip of Some c \<Rightarrow> c | None \<Rightarrow> 0) + 1)) (d_ipVotes d)"
  by (simp add: voteExternalIP_def Let_def split: prod.split)

lemma votes_after_count:
  assumes "d_ipVotes d = []" "int (length vs) < 2 ^ 63"
  shows "sorted_dict (d_ipVotes (votes_after iter d vs)) \<and>
    (case map_of (d_ipVotes (votes_after iter d vs)) ip of Some c \<Rightarrow> c | None \<Rightarrow> 0) = int (count_list vs ip)
    \<and> (map_of (d_ipVotes (votes_after iter d vs)) ip \<noteq> None \<longrightarrow> ip \<in> set vs)"
  using assms(2)
proof (induction vs arbitrary: ip rule: rev_induct)
  case (snoc v vs)
  have "int (count_list vs v) \<le> int (length vs)" by (simp add: count_le_length)
  then have w: "wrap64 (int (count_list vs v) + 1) = int (count_list vs v) + 1"
    using snoc.prems by (intro wrap64_id) (simp add: in_int64_def int64_min_def int64_max_def)
  have IH: "sorted_dict (d_ipVotes (votes_after iter d vs))"
    "(case map_of (d_ipVotes (votes_after iter d vs)) j of Some c \<Rightarrow> c | None \<Rightarrow> 0) = int (count_list vs j)"
    "map_of (d_ipVotes (votes_after iter d vs)) j \<noteq> None \<longrightarrow> j \<in> set vs" for j
    using snoc.IH [of j] snoc.prems by auto
  have s: "d_ipVotes (votes_after iter d (vs @ [v])) = dict_put v (int (count_list vs v) + 1) (d_ipVotes (votes_after iter d vs))"
    using IH(2) [of v] w vote_votes [of iter "votes_after iter d vs" v] by (simp add: votes_after_def)
  show ?case unfolding s using IH(2,3) [of ip] IH(2) [of v] IH(1) by auto
qed (simp add: votes_after_def assms(1))

lemma As4_Unmap: "Unmap ip = IPv4 b \<Longrightarrow> As4 ip = Some b"
  by (cases ip) (auto split: if_splits)

lemma GenerateCompliantID_cases:
  assumes "GenerateCompliantID ip rnd = Inr i" "\<forall>b. rnd = Some b \<longrightarrow> length b = 20" "valid_addr ip"
  shows "valid_id i \<and> ValidateNodeID i ip \<and> (\<exists>b. As4 ip = Some b \<and> length b = 4)"
proof -
  from assms(1) obtain ip4 b where ip: "Unmap ip = IPv4 ip4" and b: "rnd = Some b"
    by (auto simp: GenerateCompliantID_def split: addr.splits option.splits)
  have "length ip4 = 4" using ip assms(3) by (cases ip) (auto split: if_splits)
  moreover have "length b = 20" using assms(2) b by simp
  then have "valid_id i \<and> ValidateNodeID i ip"
    using assms(1) ip b
    by (auto simp: GenerateCompliantID_def ValidateNodeID_def first21BitsMatch_def Let_def valid_id_def
        nth_list_update top5_kept low3_kept)
  ultimately show ?thesis using As4_Unmap [OF ip] by simp
qed

lemma regenerate_ok:
  assumes d: "dht_ok d" and ip: "valid_addr ip" and rnd: "\<forall>b. rnd = Some b \<longrightarrow> length b = 20"
  shows "dht_ok (regenerateCompliantID rnd d ip)"
proof (cases "GenerateCompliantID ip rnd")
  case (Inr i)
  note t = dht_okD [OF d]
  have i: "valid_id i" "\<exists>b. As4 ip = Some b \<and> length b = 4" using GenerateCompliantID_cases [OF Inr rnd ip] by auto
  have n: "\<forall>n \<in> set (Snapshot (d_table d)). node_ok n"
    using has_node_ok [OF t(1)] by (simp add: has_node_def)
  note r = reinsert_ok(1,2) [OF i(1) n, of "d_mode d"]
  have "\<forall>m \<in> set (Snapshot (reinsert (d_mode d) (Snapshot (d_table d)) (NewRoutingTable i))). has4 (Addr m)"
    by (rule reinsert_ok(3) [OF i(1) n]) (use t(3) in simp)
  with r d i(2) show ?thesis
    by (simp add: regenerateCompliantID_def Inr dht_ok_def list_all_iff)
qed (simp add: regenerateCompliantID_def d)

section \<open>The file round trip\<close>

text \<open>Inserting distinct nodes, at most eight per bucket, into an empty table keeps them all.\<close>

definition in_bucket_of :: "nodeid \<Rightarrow> nat \<Rightarrow> node list \<Rightarrow> node list" where
  "in_bucket_of self i ns = filter (\<lambda>n. PrefixLen self (ID n) = i) ns"

lemma insert_fresh_nodes:
  assumes "valid_id self" "distinct (map ID ns)" "\<And>i. length (in_bucket_of self i ns) \<le> K"
    and "\<forall>n \<in> set ns. PrefixLen self (ID n) < 160"
  shows "insert_nodes (\<lambda>n. n) ns (NewRoutingTable self)
    = \<lparr>rt_self = self, rt_buckets = map (\<lambda>i. in_bucket_of self i ns) [0..<160]\<rparr>"
  using assms(2-)
proof (induction ns rule: rev_induct)
  case Nil
  then show ?case by (simp add: NewRoutingTable_def NewBucket_def in_bucket_of_def map_replicate_const)
next
  case (snoc n ns)
  let ?i = "PrefixLen self (ID n)"
  have le: "length (in_bucket_of self i ns) \<le> K" for i
    using snoc.prems(2) [of i] by (simp add: in_bucket_of_def split: if_splits)
  have IH: "insert_nodes (\<lambda>n. n) ns (NewRoutingTable self)
      = \<lparr>rt_self = self, rt_buckets = map (\<lambda>i. in_bucket_of self i ns) [0..<160]\<rparr>"
    using snoc.prems by (intro snoc.IH) (auto simp: le)
  have lt: "length (in_bucket_of self ?i ns) < K"
    using snoc.prems(2) [of ?i] by (simp add: in_bucket_of_def)
  have "find_index (\<lambda>m. ID m = ID n) (in_bucket_of self ?i ns) = None"
  proof -
    have "ID n \<notin> ID ` set ns" using snoc.prems(1) by simp
    then have "\<forall>m \<in> set ns. ID m \<noteq> ID n" by (metis imageI)
    then show ?thesis unfolding find_index_None by (simp add: in_bucket_of_def)
  qed
  then have "Bucket_Insert (in_bucket_of self ?i ns) n = (in_bucket_of self ?i ns @ [n], None, True)"
    using lt by (simp add: Bucket_Insert_def)
  moreover have "(map (\<lambda>i. in_bucket_of self i ns) [0..<160])[?i := in_bucket_of self ?i ns @ [n]]
      = map (\<lambda>i. in_bucket_of self i (ns @ [n])) [0..<160]"
    by (rule nth_equalityI) (simp_all add: nth_list_update in_bucket_of_def)
  moreover have "insert_nodes (\<lambda>n. n) (ns @ [n]) rt = fst (Table_Insert (insert_nodes (\<lambda>n. n) ns rt) n)" for rt
    by (simp add: insert_nodes_def)
  ultimately show ?case using snoc.prems(3) by (simp add: IH Table_Insert_def Let_def)
qed

lemma Snapshot_bucket:
  assumes "table_ok rt" "i < 160"
  shows "in_bucket_of (rt_self rt) i (Snapshot rt) = rt_buckets rt ! i"
proof -
  have l: "length (rt_buckets rt) = 160" using assms(1) by (simp add: table_ok_def)
  have "in_bucket_of (rt_self rt) i (Snapshot rt)
      = concat (map (\<lambda>j. filter (\<lambda>n. PrefixLen (rt_self rt) (ID n) = i) (rt_buckets rt ! j)) [0..<160])"
    unfolding in_bucket_of_def Snapshot_def
    by (subst (1) map_nth [of "rt_buckets rt", symmetric, unfolded l]) (simp add: filter_concat comp_def)
  also have "\<dots> = concat (map (\<lambda>j. if j = i then rt_buckets rt ! i else []) [0..<160])"
    using in_bucket [OF assms(1)] by (intro arg_cong [where f = concat] map_cong refl) (auto intro!: filter_True filter_False)
  also have "\<dots> = rt_buckets rt ! i"
  proof -
    have "concat (map (\<lambda>j. if j = i then b else []) [m..<n]) = (if m \<le> i \<and> i < n then b else [])" for b :: "node list" and m n
      by (induction n) auto
    then show ?thesis using assms(2) by simp
  qed
  finally show ?thesis .
qed

lemma concat_buckets:
  assumes "table_ok rt"
  shows "Snapshot \<lparr>rt_self = s, rt_buckets = map (\<lambda>i. map f (rt_buckets rt ! i)) [0..<160]\<rparr> = map f (Snapshot rt)"
proof -
  have "rt_buckets rt = map (\<lambda>i. rt_buckets rt ! i) [0..<160]"
    using assms map_nth [of "rt_buckets rt"] by (simp add: table_ok_def)
  then have "map (map f) (rt_buckets rt) = map (map f) (map (\<lambda>i. rt_buckets rt ! i) [0..<160])"
    by (rule arg_cong)
  then have "map (\<lambda>i. map f (rt_buckets rt ! i)) [0..<160] = map (map f) (rt_buckets rt)"
    by (simp add: comp_def)
  then show ?thesis by (simp add: Snapshot_def map_concat)
qed

text \<open>A table rebuilt from the nodes of a table holds the same nodes in the same buckets.\<close>

lemma rebuild_table:
  assumes t: "table_ok rt" and f: "\<And>n. ID (f n) = ID n"
  shows "insert_nodes (\<lambda>n. n) (map f (Snapshot rt)) (NewRoutingTable (rt_self rt))
    = \<lparr>rt_self = rt_self rt, rt_buckets = map (\<lambda>i. map f (rt_buckets rt ! i)) [0..<160]\<rparr>"
proof -
  have b: "in_bucket_of (rt_self rt) i (map f (Snapshot rt)) = map f (in_bucket_of (rt_self rt) i (Snapshot rt))" for i
    by (simp add: in_bucket_of_def filter_map comp_def f)
  have ids: "ID \<circ> f = ID" by (auto simp: f)
  have p: "PrefixLen (rt_self rt) (ID n) < 160" if "n \<in> set (Snapshot rt)" for n
    using has_node_own [OF t, of n] that by (simp add: has_node_def)
  have "length (in_bucket_of (rt_self rt) i (Snapshot rt)) \<le> K" for i
  proof (cases "i < 160")
    case True
    then show ?thesis using table_ok_bucket [OF t] by (simp add: Snapshot_bucket [OF t] bucket_ok_def)
  next
    case False
    then have "in_bucket_of (rt_self rt) i (Snapshot rt) = []"
      using p by (auto simp: in_bucket_of_def filter_empty_conv)
    then show ?thesis by simp
  qed
  then have "insert_nodes (\<lambda>n. n) (map f (Snapshot rt)) (NewRoutingTable (rt_self rt))
    = \<lparr>rt_self = rt_self rt, rt_buckets = map (\<lambda>i. in_bucket_of (rt_self rt) i (map f (Snapshot rt))) [0..<160]\<rparr>"
    using t ids Snapshot_distinct [OF t] p
    by (intro insert_fresh_nodes) (auto simp: table_ok_def b f)
  then show ?thesis using Snapshot_bucket [OF t] by (simp add: b)
qed

lemma Save_load:
  assumes d: "dht_ok d"
  obtains data where "Save d = Some (Inr data)"
    "loadRoutingTable now data = Inr \<lparr>s_id = d_id d, s_nodes = map (node_wire now) (Snapshot (d_table d)),
       s_externalIP = (if IsValid (d_externalIP d) then IPv4 (the (As4 (d_externalIP d))) else NoAddr)\<rparr>"
proof -
  note t = dht_okD [OF d]
  have w: "list_all wire_node (Snapshot (d_table d))"
    using t(3) has_node_ok [OF t(1)] by (auto simp: list_all_iff wire_node_def has_node_def node_ok_def)
  obtain ns where ns: "compactNodes (Snapshot (d_table d)) = Some ns" "length ns = length (Snapshot (d_table d)) * 26"
    using compactNodes_total [OF w] node26.length_encs [OF w] by auto
  have "length (Snapshot (d_table d)) \<le> 160 * K" using NumNodes_bound [OF t(1)] by (simp add: NumNodes_Snapshot)
  then have l: "in_int64 (int (length ns))" using ns(2) by (simp add: in_int64_def int64_min_def int64_max_def K_def)
  have parse: "parseCompactNodes now (Some (norm (BString ns))) = map (node_wire now) (Snapshot (d_table d))"
    using w ns(1) by (rule parse_compact_nodes) (simp add: any_bytes_def)
  have own: "any_bytes (own_id d) = Some (id_bytes (d_id d))" by (simp add: own_id_def any_bytes_def)
  have own_wf: "wf_bval (own_id d)" using t(6) by (simp add: own_id_def valid_id_def)
  define ext where "ext = (if IsValid (d_externalIP d) then [(key ''external_ip'', BString (the (As4 (d_externalIP d))))] else [])"
  define v where "v = BDict (ext @ [(key ''id'', own_id d), (key ''nodes'', BString ns)])"
  have ip: "IsValid (d_externalIP d) \<Longrightarrow> \<exists>b. As4 (d_externalIP d) = Some b \<and> length b = 4"
    using d by (simp add: dht_ok_def)
  have save: "Save d = Some (Encode v)"
    using ip by (auto simp: Save_def ns(1) v_def ext_def key_bytes2 Let_def)
  have "wf_bval v"
    using ip own_wf l by (auto simp: v_def ext_def sorted_dict_def key_bytes2)
  moreover have "height v \<le> maxDecodeDepth"
    by (simp add: v_def ext_def own_id_def maxDecodeDepth_def)
  ultimately obtain data where data: "Encode v = Inr data" "Decode data = Inr (norm v)"
    by (rule Encode_then_Decode)
  define dict where "dict = map (\<lambda>e. (fst e, norm (snd e))) (ext @ [(key ''id'', own_id d), (key ''nodes'', BString ns)])"
  have nv: "norm v = BDict dict" by (simp add: v_def dict_def)
  have look: "map_of dict (key ''id'') = Some (norm (own_id d))" "map_of dict (key ''nodes'') = Some (norm (BString ns))"
    "Option.bind (map_of dict (key ''external_ip'')) any_bytes
      = (if IsValid (d_externalIP d) then As4 (d_externalIP d) else None)"
    unfolding dict_def map_of_norm using ip by (auto simp: ext_def any_bytes_def)
  have "bytesFromArgs dict (key ''id'') = Inr (d_id d)"
    using t(6) by (simp add: bytesFromArgs_def look(1) own FromBytes_def valid_id_def)
  then have "loadRoutingTable now data = Inr \<lparr>s_id = d_id d, s_nodes = map (node_wire now) (Snapshot (d_table d)),
       s_externalIP = (if IsValid (d_externalIP d) then IPv4 (the (As4 (d_externalIP d))) else NoAddr)\<rparr>"
    using ip parse by (auto simp: loadRoutingTable_def data(2) nv look simp del: norm.simps)
  with save data(1) show thesis by (intro that) simp_all
qed

section \<open>Properties of the node's state\<close>

text \<open>The external address is decided by majority of at least three: a vote returns an address
  exactly when some address has three votes or more, and then one with the most votes, in
  whatever order Go iterates over the map.\<close>

theorem vote_consensus:
  assumes "d_ipVotes d = []" "int (length (vs @ [v])) < 2 ^ 63" "\<forall>m. set (iter m) = set m"
    and "r = snd (voteExternalIP iter (votes_after iter d vs) v)"
  shows "(r = None \<longleftrightarrow> (\<forall>ip. count_list (vs @ [v]) ip < 3))
    \<and> (\<forall>ip. r = Some ip \<longrightarrow> 3 \<le> count_list (vs @ [v]) ip
        \<and> (\<forall>j. count_list (vs @ [v]) j \<le> count_list (vs @ [v]) ip))"
proof -
  let ?d = "votes_after iter d vs"
  let ?m = "d_ipVotes (votes_after iter d (vs @ [v]))"
  have m: "?m = d_ipVotes (fst (voteExternalIP iter ?d v))" by (simp add: votes_after_def)
  obtain b c where b: "best_vote (iter ?m) (NoAddr, 0) = (b, c)" by (cases "best_vote (iter ?m) (NoAddr, 0)")
  have r: "r = (if c \<ge> 3 then Some b else None)"
    using b assms(4) unfolding m vote_votes by (simp add: voteExternalIP_def Let_def)
  note cnt = votes_after_count [OF assms(1,2), of iter]
  have set: "set (iter ?m) = set ?m" using assms(3) by blast
  have entry: "(j, k) \<in> set ?m \<longleftrightarrow> map_of ?m j = Some k" for j k
    using cnt [of j] by (auto simp: sorted_dict_distinct)
  note best = best_vote_spec [OF b, unfolded set]
  have le: "int (count_list (vs @ [v]) j) \<le> c" for j
  proof (cases "map_of ?m j")
    case None
    then show ?thesis using cnt [of j] best by simp
  next
    case (Some k)
    then have "(j, k) \<in> set ?m" by (simp only: entry)
    then have "k \<le> c" using best by fastforce
    then show ?thesis using cnt [of j] Some by simp
  qed
  have "int (count_list (vs @ [v]) b) = c" if "c \<ge> 3"
  proof -
    have "(b, c) \<in> set ?m" using best that by auto
    then have "map_of ?m b = Some c" by (simp only: entry)
    then show ?thesis using cnt [of b] by simp
  qed
  moreover have "c < 3 \<Longrightarrow> count_list (vs @ [v]) j < 3" for j using le [of j] by linarith
  moreover have "count_list (vs @ [v]) j \<le> count_list (vs @ [v]) b" if "c \<ge> 3" for j
    using le [of j] calculation(1) [OF that] by linarith
  moreover have "3 \<le> count_list (vs @ [v]) b" if "c \<ge> 3"
    using calculation(1) [OF that] that by linarith
  ultimately show ?thesis unfolding r
    by (cases "c \<ge> 3") (auto simp del: count_list_append simp: not_less intro!: exI [of _ b])
qed

theorem vote_consensus_witness:
  "snd (voteExternalIP (\<lambda>m. m) (votes_after (\<lambda>m. m) (fresh_dht BEP42Log) [IPv4 [1,1,1,1], IPv4 [2,2,2,2], IPv4 [2,2,2,2]]) (IPv4 [2,2,2,2])) \<noteq> None"
  using vote_consensus [of "fresh_dht BEP42Log" "[IPv4 [1,1,1,1], IPv4 [2,2,2,2], IPv4 [2,2,2,2]]" "IPv4 [2,2,2,2]" "\<lambda>m. m", OF _ _ _ refl]
  by (auto simp: fresh_dht_def dest: spec [of _ "IPv4 [2,2,2,2]"])

text \<open>Regenerating the identifier for an external IPv4 address gives an identifier that is
  compliant with it and a table that satisfies the invariant for the new identifier, holds only
  nodes of the old one and, with BEP 42 on, has each of them marked by its own compliance.\<close>

theorem regenerate_compliant:
  assumes "dht_ok d" "valid_addr ip" "Unmap ip = IPv4 ip4" "length rnd = 20" "d' = regenerateCompliantID (Some rnd) d ip"
  shows "dht_ok d' \<and> ValidateNodeID (d_id d') ip \<and> d_externalIP d' = ip
    \<and> list_all (\<lambda>m. \<exists>n \<in> set (Snapshot (d_table d)). ID n = ID m \<and> Addr n = Addr m) (Snapshot (d_table d'))
    \<and> (d_mode d \<noteq> BEP42Off \<longrightarrow>
        list_all (\<lambda>m. Compliant m = ValidateNodeID (ID m) (ap_addr (Addr m))) (Snapshot (d_table d')))"
proof -
  obtain i where i: "GenerateCompliantID ip (Some rnd) = Inr i" using assms(3) by (simp add: GenerateCompliantID_def Let_def)
  have v: "valid_id i" "ValidateNodeID i ip" using GenerateCompliantID_cases [OF i _ assms(2)] assms(4) by auto
  have n: "\<forall>n \<in> set (Snapshot (d_table d)). node_ok n"
    using has_node_ok [OF dht_okD(1) [OF assms(1)]] by (simp add: has_node_def)
  note r = reinsert_ok(3) [OF v(1) n]
  have d': "d_table d' = reinsert (d_mode d) (Snapshot (d_table d)) (NewRoutingTable i)" "d_id d' = i" "d_externalIP d' = ip"
    using i by (simp_all add: assms(5) regenerateCompliantID_def Let_def)
  have "\<forall>m \<in> set (Snapshot (d_table d')). \<exists>n \<in> set (Snapshot (d_table d)). ID n = ID m \<and> Addr n = Addr m"
    unfolding d' by (rule r) auto
  moreover have "\<forall>m \<in> set (Snapshot (d_table d')). Compliant m = ValidateNodeID (ID m) (ap_addr (Addr m))" if "d_mode d \<noteq> BEP42Off"
    unfolding d' by (rule r) (simp add: marked_compliant [OF that])
  moreover have "dht_ok d'" using regenerate_ok [OF assms(1,2)] assms(4,5) by simp
  ultimately show ?thesis using v(2) d' by (simp add: list_all_iff)
qed

theorem regenerate_compliant_witness:
  "ValidateNodeID (d_id (regenerateCompliantID (Some (replicate 20 9)) (fresh_dht BEP42Log) (IPv4 [1, 2, 3, 4]))) (IPv4 [1, 2, 3, 4])"
  using regenerate_compliant [OF fresh_dht_ok, of "IPv4 [1, 2, 3, 4]" "[1, 2, 3, 4]" "replicate 20 9" _ BEP42Log, OF _ _ _ refl] by simp

text \<open>A restart keeps the node's identity and routing table: the file that \<open>Save\<close> writes is read
  back as the identifier, the nodes in order and the external address, and a node started from
  it has every node in its old bucket (as seen on the wire, with its failure count reset).\<close>

theorem restart_keeps_table:
  assumes "dht_ok d" "Snapshot (d_table d) \<noteq> []"
  shows "\<exists>data state. Save d = Some (Inr data) \<and> loadRoutingTable now data = Inr state
    \<and> d_id (New_dht rnd crnd secret config (Some state)) = d_id d
    \<and> Snapshot (d_table (New_dht rnd crnd secret config (Some state))) = map (node_wire now) (Snapshot (d_table d))
    \<and> (IsValid (d_externalIP d) \<longrightarrow> As4 (d_externalIP (New_dht rnd crnd secret config (Some state))) = As4 (d_externalIP d))"
proof -
  note t = dht_okD [OF assms(1)]
  from Save_load [OF assms(1), of now] obtain data where
    data: "Save d = Some (Inr data)"
    "loadRoutingTable now data = Inr \<lparr>s_id = d_id d, s_nodes = map (node_wire now) (Snapshot (d_table d)),
       s_externalIP = (if IsValid (d_externalIP d) then IPv4 (the (As4 (d_externalIP d))) else NoAddr)\<rparr>" (is "_ = Inr ?s") .
  have "fold (\<lambda>n rt. fst (Table_Insert rt n)) (map (node_wire now) (Snapshot (d_table d))) (NewRoutingTable (d_id d))
      = \<lparr>rt_self = d_id d, rt_buckets = map (\<lambda>i. map (node_wire now) (rt_buckets (d_table d) ! i)) [0..<160]\<rparr>"
    using rebuild_table [OF t(1), of "node_wire now"] by (simp add: insert_nodes_def t(2) node_wire_def)
  then have "d_table (New_dht rnd crnd secret config (Some ?s))
      = \<lparr>rt_self = d_id d, rt_buckets = map (\<lambda>i. map (node_wire now) (rt_buckets (d_table d) ! i)) [0..<160]\<rparr>"
    using assms(2) by (simp add: New_dht_def)
  then have "Snapshot (d_table (New_dht rnd crnd secret config (Some ?s))) = map (node_wire now) (Snapshot (d_table d))"
    using concat_buckets [OF t(1), of "d_id d" "node_wire now"] by simp
  moreover have "IsValid (d_externalIP d) \<Longrightarrow> \<exists>b. As4 (d_externalIP d) = Some b" using assms(1) by (auto simp: dht_ok_def)
  ultimately show ?thesis using data assms(2) by (intro exI conjI) (auto simp: New_dht_def)
qed

theorem restart_keeps_table_witness:
  "\<exists>data. Save ((fresh_dht BEP42Off)\<lparr>d_table := insert_all (NewRoutingTable zero_id) [sample_node 1 2 False]\<rparr>) = Some (Inr data)"
proof -
  let ?t = "insert_all (NewRoutingTable zero_id) [sample_node 1 2 False]"
  have t: "table_ok ?t" "rt_self ?t = zero_id"
    using table_reachable_ok [OF insert_all_reachable [OF zero_table_reachable, of "[sample_node 1 2 False]"]]
    by (simp_all add: node_ok_sample)
  have s: "Snapshot ?t = [sample_node 1 2 False]" by code_simp
  have "dht_ok ((fresh_dht BEP42Off)\<lparr>d_table := ?t\<rparr>)"
  proof (rule dht_ok_table [OF fresh_dht_ok t(1)])
    show "rt_self ?t = d_id (fresh_dht BEP42Off)" by (simp add: t(2) fresh_dht_def)
    show "\<forall>n \<in> set (Snapshot ?t). has4 (Addr n)" unfolding s by (simp add: sample_node_def has4_def)
  qed
  from restart_keeps_table [OF this] s show ?thesis by simp blast
qed

section \<open>Every reachable state of the node\<close>

definition votes_ok :: "dht \<Rightarrow> bool" where
  "votes_ok d \<longleftrightarrow> (\<forall>e \<in> set (d_ipVotes d). valid_addr (fst e))"

text \<open>One event of the node: a query, a tick of one of the maintenance loops, the end of a
  \<open>replaceIfDead\<close>, or the answer of a bootstrap node.\<close>

inductive dht_step :: "dht \<Rightarrow> dht \<Rightarrow> bool" where
  query: "has4 a \<Longrightarrow> in_int64 (int (length (TransactionID msg))) \<Longrightarrow> handleQuery now d msg a = Some (d', es)
    \<Longrightarrow> dht_step d d'"
| replace: "node_ok new \<Longrightarrow> has4 (Addr new) \<Longrightarrow> dht_step d (replaceIfDead now alive d old new)"
| rotate: "dht_step d (d\<lparr>d_tokens := Rotate rnd (d_tokens d)\<rparr>)"
| expire: "dht_step d (d\<lparr>d_peers := fst (Expire now (d_peers d))\<rparr>)"
| sweep: "dht_step d (sweepStaleNodes now alive d)"
| cleanup: "dht_step d (d\<lparr>d_limiter := map_option (\<lambda>rl. fst (Cleanup now rl)) (d_limiter d)\<rparr>)"
| bootstrap: "has4 a \<Longrightarrow> \<forall>b. rnd = Some b \<longrightarrow> length b = 20 \<Longrightarrow> \<forall>m. set (iter m) = set m
    \<Longrightarrow> dht_step d (bootstrap_node iter rnd now a resp d)"

inductive dht_reachable :: "dht \<Rightarrow> dht \<Rightarrow> bool" for d0 where
  start: "dht_reachable d0 d0"
| step: "dht_reachable d0 d \<Longrightarrow> dht_step d d' \<Longrightarrow> dht_reachable d0 d'"

lemma handleQuery_votes:
  assumes "handleQuery now d msg a = Some (d', es)"
  shows "d_ipVotes d' = d_ipVotes d"
proof -
  have c: "d_ipVotes (counted f x) = d_ipVotes x" for f x by (simp add: counted_def)
  have l: "limited now d a = (d1, ok) \<Longrightarrow> d_ipVotes d1 = d_ipVotes d" for d1 ok
    by (auto simp: limited_def split: option.splits prod.splits)
  have k: "check_compliant d1 i a = (d2, cc, g) \<Longrightarrow> d_ipVotes d2 = d_ipVotes d1" for d1 i d2 cc g
    by (auto simp: check_compliant_def Let_def c split: if_splits)
  have s: "insert_sender now d2 i a cc = (d3, sp) \<Longrightarrow> d_ipVotes d3 = d_ipVotes d2" for d2 i cc d3 sp
    by (auto simp: insert_sender_def Let_def split: if_splits prod.splits)
  have r: "dispatch now d4 msg a = Some (d', es') \<Longrightarrow> d_ipVotes d' = d_ipVotes d4" for d4 d' es'
    unfolding dispatch_def handlePing_def handleFindNode_def handleGetPeers_def handleAnnouncePeer_def
    by (auto simp: Let_def c split: if_splits option.splits sum.splits bool.splits)
  show ?thesis using assms l k s r
    by (fastforce simp: handleQuery_stages Let_def c split: prod.splits bool.splits sum.splits if_splits)
qed

lemma Expire_has4: "store_ok ps \<Longrightarrow> all_has4 ps \<Longrightarrow> all_has4 (fst (Expire now ps))"
  by (auto simp: all_has4_def announced_Expire split: option.splits if_splits)

lemma vote_frame:
  "voteExternalIP iter d ip = (d', r) \<Longrightarrow> dht_ok d' = dht_ok d \<and> d_table d' = d_table d \<and> d_externalIP d' = d_externalIP d"
  by (auto simp: voteExternalIP_def dht_ok_def Let_def split: prod.splits)

lemma vote_valid:
  assumes "voteExternalIP iter d ip = (d', r)" "votes_ok d" "valid_addr ip" "\<forall>m. set (iter m) = set m"
  shows "votes_ok d' \<and> (\<forall>c. r = Some c \<longrightarrow> valid_addr c)"
proof -
  have v: "votes_ok d'"
    using assms(1-3) keys_dict_put [of ip _ "d_ipVotes d"]
    by (auto simp: voteExternalIP_def votes_ok_def Let_def split: prod.splits)
      (metis (no_types, lifting) fst_conv image_eqI imageE insertE)
  obtain b c where b: "best_vote (iter (d_ipVotes d')) (NoAddr, 0) = (b, c)"
    by (cases "best_vote (iter (d_ipVotes d')) (NoAddr, 0)")
  have r: "r = (if c \<ge> 3 then Some b else None)"
    using assms(1) b by (auto simp: voteExternalIP_def Let_def split: prod.splits)
  have "valid_addr b" using best_vote_spec [OF b] v assms(4) by (auto simp: votes_ok_def)
  with v r show ?thesis by simp
qed

lemma parseCompactAddr_valid: "parseCompactAddr data = Some a \<Longrightarrow> valid_addr (ap_addr a)"
  by (auto simp: parseCompactAddr_def of_endpoint6_def split: if_splits)

lemma regenerate_votes [simp]: "d_ipVotes (regenerateCompliantID rnd d ip) = d_ipVotes d"
  by (simp add: regenerateCompliantID_def Let_def split: sum.split)

definition bootstrap_vote :: "((addr, int) dict \<Rightarrow> (addr \<times> int) list) \<Rightarrow> bytes option \<Rightarrow> message \<Rightarrow> dht \<Rightarrow> dht" where
  "bootstrap_vote iter rnd resp d =
     (case (d_mode d \<noteq> BEP42Off, Option.bind (IP resp) parseCompactAddr) of
        (True, Some extAddr) \<Rightarrow>
          (case voteExternalIP iter d (ap_addr extAddr) of
             (d, Some consensus) \<Rightarrow>
               if \<not> IsValid (d_externalIP d) then regenerateCompliantID rnd d consensus else d
           | (d, None) \<Rightarrow> d)
      | _ \<Rightarrow> d)"

lemma bootstrap_vote_ok:
  assumes "dht_ok d" "votes_ok d" "\<forall>b. rnd = Some b \<longrightarrow> length b = 20" "\<forall>m. set (iter m) = set m"
  shows "dht_ok (bootstrap_vote iter rnd resp d) \<and> votes_ok (bootstrap_vote iter rnd resp d)"
proof (cases "Option.bind (IP resp) parseCompactAddr")
  case (Some e)
  then have v: "valid_addr (ap_addr e)" using parseCompactAddr_valid by (cases "IP resp") auto
  obtain d' r where d': "voteExternalIP iter d (ap_addr e) = (d', r)" by (cases "voteExternalIP iter d (ap_addr e)")
  note f = vote_frame [OF d'] and vv = vote_valid [OF d' assms(2) v assms(4)]
  have "dht_ok (regenerateCompliantID rnd d' c)" if "r = Some c" for c
    using regenerate_ok [OF _ _ assms(3)] f vv assms(1) that by blast
  then show ?thesis using f vv assms(1,2) d' Some
    by (auto simp: bootstrap_vote_def votes_ok_def split: option.split bool.split)
qed (simp add: bootstrap_vote_def assms split: bool.split)

lemma dht_ok_insert:
  assumes "dht_ok d" "node_ok n" "has4 (Addr n)"
  shows "dht_ok (d\<lparr>d_table := fst (Table_Insert (d_table d) n)\<rparr>)"
proof (rule dht_ok_table [OF assms(1)])
  note t = dht_okD [OF assms(1)]
  show "\<forall>m \<in> set (Snapshot (fst (Table_Insert (d_table d) n))). has4 (Addr m)"
    by (rule Table_Insert_all [OF t(1) assms(3) t(3)])
  show "table_ok (fst (Table_Insert (d_table d) n))" by (rule Table_Insert_ok [OF t(1) assms(2)])
  show "rt_self (fst (Table_Insert (d_table d) n)) = d_id d" by (simp add: t(2))
qed

lemma dht_ok_inserts:
  "dht_ok d \<Longrightarrow> \<forall>n \<in> set ns. node_ok n \<and> has4 (Addr n)
    \<Longrightarrow> dht_ok (d\<lparr>d_table := fold (\<lambda>n rt. fst (Table_Insert rt n)) ns (d_table d)\<rparr>)"
proof (induction ns arbitrary: d)
  case (Cons n ns)
  have "dht_ok (d\<lparr>d_table := fst (Table_Insert (d_table d) n)\<rparr>)"
    using Cons.prems by (intro dht_ok_insert) auto
  from Cons.IH [OF this] Cons.prems(2) show ?case by simp
qed simp

lemma bootstrap_node_ok:
  assumes "dht_ok d" "votes_ok d" "has4 a" "\<forall>b. rnd = Some b \<longrightarrow> length b = 20" "\<forall>m. set (iter m) = set m"
  shows "dht_ok (bootstrap_node iter rnd now a resp d) \<and> votes_ok (bootstrap_node iter rnd now a resp d)"
proof (cases resp)
  case (Some m)
  let ?d = "bootstrap_vote iter rnd m d"
  let ?d2 = "case nodeIDFromArgs (Response m) of Inl _ \<Rightarrow> ?d
      | Inr respID \<Rightarrow> ?d\<lparr>d_table := fst (Table_Insert (d_table ?d)
          \<lparr>ID = respID, Addr = a, LastSeen = now, Compliant = False, FailCount = 0\<rparr>)\<rparr>"
  note v = bootstrap_vote_ok [OF assms(1,2,4,5), of m]
  have i: "valid_id i" if "nodeIDFromArgs (Response m) = Inr i" for i
    using that bytesFromArgs_valid by (simp add: nodeIDFromArgs_def)
  have d2: "dht_ok ?d2 \<and> votes_ok ?d2"
    using v assms(3) i by (auto simp: votes_ok_def node_ok_def MaxFailures_def intro!: dht_ok_insert split: sum.split)
  have ns: "\<forall>n \<in> set (parseCompactNodes now raw). node_ok n \<and> has4 (Addr n)" for raw
    using parseCompactNodes_ok v4_has4 by blast
  have "bootstrap_node iter rnd now a resp d = ?d2\<lparr>d_table := fold (\<lambda>n rt. fst (Table_Insert rt n))
      (parseCompactNodes now (map_of (Response m) (key ''nodes''))) (d_table ?d2)\<rparr>"
    unfolding bootstrap_node_def bootstrap_vote_def Some by (simp only: option.case Let_def)
  then show ?thesis using dht_ok_inserts [OF conjunct1 [OF d2] ns] d2 by (simp add: votes_ok_def)
qed (simp add: bootstrap_node_def assms)

lemma step_ok: "dht_step d d' \<Longrightarrow> dht_ok d \<Longrightarrow> votes_ok d \<Longrightarrow> dht_ok d' \<and> votes_ok d'"
proof (induction rule: dht_step.induct)
  case (query a msg now d d' es)
  then show ?case using handleQuery_good [of d a msg now] handleQuery_votes [of now d msg a]
    by (auto simp: good_def votes_ok_def)
next
  case (replace new d now alive old)
  then show ?case using replaceIfDead_ok by (simp add: votes_ok_def replaceIfDead_def)
next
  case (sweep d now alive)
  have "d_ipVotes (fold (sweep_node now alive) ns d) = d_ipVotes d" for ns
    by (induction ns arbitrary: d) (simp_all add: sweep_node_def)
  then show ?case using sweep sweepStaleNodes_ok by (simp add: votes_ok_def sweepStaleNodes_def)
next
  case (cleanup d now)
  then show ?case by (auto simp: dht_ok_def votes_ok_def Cleanup_def cleanup_ok)
next
  case (expire d now)
  then show ?case by (simp add: dht_ok_def votes_ok_def Expire_ok Expire_has4)
next
  case (rotate d rnd)
  then show ?case by (simp add: dht_ok_def votes_ok_def)
next
  case (bootstrap a rnd iter d now resp)
  then show ?case using bootstrap_node_ok by blast
qed

text \<open>The state the node starts from, whatever the file held.\<close>

lemma New_dht_ok:
  assumes "length rnd = 20" "\<forall>b. crnd = Some b \<longrightarrow> length b = 20" "valid_addr (c_ExternalIP config)"
    and "saved = None \<or> loadRoutingTable now data = Inr (the saved)"
  shows "dht_ok (New_dht rnd crnd secret config saved) \<and> votes_ok (New_dht rnd crnd secret config saved)"
proof -
  define i0 where "i0 = (case saved of Some s \<Rightarrow> s_id s | None \<Rightarrow> NodeID rnd)"
  define ns where "ns = (case saved of Some s \<Rightarrow> s_nodes s | None \<Rightarrow> [])"
  define e0 where "e0 = (case saved of Some s \<Rightarrow> s_externalIP s | None \<Rightarrow> NoAddr)"
  have saved: "valid_id i0 \<and> (\<forall>n \<in> set ns. node_ok n \<and> has4 (Addr n)) \<and> (IsValid e0 \<longrightarrow> (\<exists>b. As4 e0 = Some b \<and> length b = 4))"
  proof (cases saved)
    case (Some s)
    then have "loadRoutingTable now data = Inr s" using assms(4) by simp
    then show ?thesis
      using parseCompactNodes_ok v4_has4 bytesFromArgs_valid
      by (fastforce simp: Some i0_def ns_def e0_def loadRoutingTable_def IsValid_def
          split: sum.splits bval.splits option.splits if_splits)
  qed (simp add: i0_def ns_def e0_def valid_id_def assms(1) IsValid_def)
  obtain i e where ie: "(i, e) = (if ns = [] \<and> c_BEP42 config \<noteq> BEP42Off \<and> IsValid (c_ExternalIP config) then
        (case GenerateCompliantID (c_ExternalIP config) crnd of Inr c \<Rightarrow> (c, c_ExternalIP config) | Inl _ \<Rightarrow> (i0, e0))
      else (i0, e0))" by (metis surj_pair)
  have ok: "valid_id i" "IsValid e \<longrightarrow> (\<exists>b. As4 e = Some b \<and> length b = 4)"
    using ie saved GenerateCompliantID_cases [OF _ assms(2,3)] by (auto split: if_splits sum.splits)
  define d0 where "d0 = \<lparr>d_id = i, d_table = NewRoutingTable i,
          d_tokens = Token.New secret, d_peers = NewPeerStore (c_PeerTTL config), d_mode = c_BEP42 config,
          d_limiter = (if c_RateLimit config > 0
             then Some (NewRateLimiter (c_RateLimit config) (c_RateLimitWin config) 100000) else None),
          d_externalIP = e, d_ipVotes = [],
          d_metrics = (if c_metrics config then Some NewMetrics else None)\<rparr>"
  have "dht_ok d0" using ok
    by (simp add: d0_def dht_ok_def NewRoutingTable_ok New_ok New_limiter all_has4_def announced_def stored_def)
      (simp add: NewRoutingTable_def NewPeerStore_def)
  moreover have "New_dht rnd crnd secret config saved
      = d0\<lparr>d_table := fold (\<lambda>n rt. fst (Table_Insert rt n)) ns (d_table d0)\<rparr>"
    using ie by (cases saved) (auto simp: New_dht_def d0_def i0_def ns_def e0_def Let_def split: prod.splits if_splits sum.splits)
  moreover have "dht_ok (d0\<lparr>d_table := fold (\<lambda>n rt. fst (Table_Insert rt n)) ns (d_table d0)\<rparr>)"
    using calculation(1) saved by (intro dht_ok_inserts) auto
  moreover have "votes_ok (d0\<lparr>d_table := fold (\<lambda>n rt. fst (Table_Insert rt n)) ns (d_table d0)\<rparr>)"
    by (simp add: d0_def votes_ok_def)
  ultimately show ?thesis by simp
qed


definition default_config :: dht_config where
  "default_config = \<lparr>c_ExternalIP = NoAddr, c_PeerTTL = 30 * 60 * second, c_BEP42 = BEP42Off, c_RateLimit = 50,
     c_RateLimitWin = 60 * second, c_metrics = False\<rparr>"


end
