(* ===== verification/Lookup.thy ===== *)
theory Lookup
  imports Dht "HOL-Library.Multiset"
begin

text \<open>
  The outgoing half of \<open>internal/dht/dht.go\<close>: \<open>sendQuery\<close> and the queries it sends, the iterative
  lookups \<open>iterativeFindNode\<close>, \<open>GetPeers\<close> and \<open>Announce\<close>, and \<open>Bootstrap\<close> and \<open>refreshTable\<close>,
  which are built on them. What the network answers, the order in which the goroutines of a
  round finish and what \<open>sort.Slice\<close>, which is not stable, does with nodes at equal distance are
  the environment of a lookup. \<open>nodeMap\<close> in \<open>Announce\<close> and \<open>tokens\<close> in \<open>GetPeers\<close> are written
  and never read in the code; they are left out.
\<close>

section \<open>Queries\<close>

definition query :: "dht \<Rightarrow> string \<Rightarrow> (bytes, bval) dict \<Rightarrow> message" where
  "query d method args = empty_message\<lparr>Type := key ''q'', QueryMethod := key method,
     Args := dict_put (key ''id'') (own_id d) args\<rparr>"

definition ping_query :: "dht \<Rightarrow> message" where
  "ping_query d = query d ''ping'' []"

definition find_node_query :: "dht \<Rightarrow> nodeid \<Rightarrow> message" where
  "find_node_query d target = query d ''find_node'' [(key ''target'', BString (id_bytes target))]"

definition get_peers_query :: "dht \<Rightarrow> bytes \<Rightarrow> message" where
  "get_peers_query d infoHash = query d ''get_peers'' [(key ''info_hash'', BString infoHash)]"

definition announce_query :: "dht \<Rightarrow> bytes \<Rightarrow> int \<Rightarrow> bytes \<Rightarrow> message" where
  "announce_query d infoHash port tok = query d ''announce_peer''
     [(key ''implied_port'', BInt 0), (key ''info_hash'', BString infoHash), (key ''port'', BInt port),
      (key ''token'', BString tok)]"

text \<open>How a query ends: which of the channels of the \<open>select\<close> fires, or that it could not be sent.\<close>

datatype outcome = Answered message | TimedOut | Canceled | SendFailed

definition sendQuery :: "string \<Rightarrow> outcome \<Rightarrow> dht \<Rightarrow> dht \<times> message option" where
  "sendQuery method res d =
     (let d = counted (\<lambda>m. m\<lparr>QueriesOutbound := count_method (key method) (QueriesOutbound m)\<rparr>) d
      in case res of
           SendFailed \<Rightarrow> (d, None)
         | Answered resp \<Rightarrow> (counted (\<lambda>m. m\<lparr>ResponseSuccess := Inc (ResponseSuccess m)\<rparr>) d, Some resp)
         | Canceled \<Rightarrow> (counted (\<lambda>m. m\<lparr>ResponseCanceled := Inc (ResponseCanceled m)\<rparr>) d, None)
         | TimedOut \<Rightarrow> (counted (\<lambda>m. m\<lparr>ResponseTimeout := Inc (ResponseTimeout m)\<rparr>) d, None))"

section \<open>The loop of a lookup\<close>

text \<open>Per round: the clock, how the query to a node ends, and the orders in which the goroutines
  update the table and enter the critical section.\<close>

record env =
  e_alpha :: nat
  e_now :: "nat \<Rightarrow> int"
  e_outcome :: "nat \<Rightarrow> node \<Rightarrow> outcome"
  e_finish :: "nat \<Rightarrow> node list \<Rightarrow> node list"
  e_append :: "nat \<Rightarrow> node list \<Rightarrow> node list"
  e_sort :: "nodeid \<Rightarrow> node list \<Rightarrow> node list"

record lookup =
  l_dht :: dht
  l_candidates :: "node list"
  l_queried :: "nodeid list"
  l_tokens :: "(nodeid, bytes) dict"
  l_peers :: "addrport list"
  l_asked :: "(nat \<times> node) list"

text \<open>The candidates a round queries: the first \<open>Alpha\<close> that have not been queried.\<close>

fun pick :: "nat \<Rightarrow> node list \<Rightarrow> node list \<Rightarrow> nodeid list \<Rightarrow> node list \<times> nodeid list" where
  "pick alpha [] toQuery queried = (toQuery, queried)"
| "pick alpha (c # cs) toQuery queried =
     (if length toQuery \<ge> alpha then (toQuery, queried)
      else if ID c \<notin> set queried then pick alpha cs (toQuery @ [c]) (ID c # queried)
      else pick alpha cs toQuery queried)"

text \<open>One query of a round and what it does to the node's state.\<close>

definition query_node :: "string \<Rightarrow> int \<Rightarrow> outcome \<Rightarrow> node \<Rightarrow> dht \<Rightarrow> dht" where
  "query_node method now res n d =
     (case sendQuery method res d of
        (d, None) \<Rightarrow> d\<lparr>d_table := fst (RecordFailure (d_table d) (ID n))\<rparr>
      | (d, Some _) \<Rightarrow> d\<lparr>d_table := RecordSuccess now (d_table d) (ID n)\<rparr>)"

definition query_all :: "env \<Rightarrow> string \<Rightarrow> nat \<Rightarrow> node list \<Rightarrow> dht \<Rightarrow> dht" where
  "query_all e method r toQuery d =
     fold (\<lambda>n. query_node method (e_now e r) (e_outcome e r n) n) (e_finish e r toQuery) d"

text \<open>What the answer of a node adds to the lookup.\<close>

definition answer :: "env \<Rightarrow> nat \<Rightarrow> node \<Rightarrow> (bytes, bval) dict" where
  "answer e r n = (case e_outcome e r n of Answered resp \<Rightarrow> Response resp | _ \<Rightarrow> [])"

definition found :: "env \<Rightarrow> nat \<Rightarrow> node \<Rightarrow> node list" where
  "found e r n = parseCompactNodes (e_now e r) (map_of (answer e r n) (key ''nodes''))"

definition found_peers :: "env \<Rightarrow> nat \<Rightarrow> node \<Rightarrow> addrport list" where
  "found_peers e r n =
     (case map_of (answer e r n) (key ''values'') of
        Some (BList peerList) \<Rightarrow> List.map_filter parseCompactPeer peerList
      | _ \<Rightarrow> [])"

definition put_token :: "env \<Rightarrow> nat \<Rightarrow> node \<Rightarrow> (nodeid, bytes) dict \<Rightarrow> (nodeid, bytes) dict" where
  "put_token e r n tokens =
     (case tokenFromResponse (answer e r n) of Inr tok \<Rightarrow> dict_put (ID n) tok tokens | Inl _ \<Rightarrow> tokens)"

text \<open>A round once its candidates are picked: the queries, then the critical sections.\<close>

definition ask :: "env \<Rightarrow> string \<Rightarrow> nat \<Rightarrow> node list \<Rightarrow> lookup \<Rightarrow> lookup" where
  "ask e method r toQuery l =
     (let order = e_append e r toQuery
      in l\<lparr>l_dht := query_all e method r toQuery (l_dht l),
           l_candidates := l_candidates l @ concat (map (found e r) order),
           l_tokens := fold (put_token e r) order (l_tokens l),
           l_peers := l_peers l @ concat (map (found_peers e r) order),
           l_asked := l_asked l @ map (Pair r) toQuery\<rparr>)"

definition start_lookup :: "dht \<Rightarrow> node list \<Rightarrow> lookup" where
  "start_lookup d closest = \<lparr>l_dht = d, l_candidates = closest, l_queried = [], l_tokens = [], l_peers = [], l_asked = []\<rparr>"

section \<open>The three lookups\<close>

text \<open>\<open>iterativeFindNode\<close>: \<open>k\<close> rounds are left, \<open>prev\<close> is the closest node of the last round.\<close>

fun find_rounds :: "env \<Rightarrow> nodeid \<Rightarrow> nat \<Rightarrow> nat \<Rightarrow> nodeid option \<Rightarrow> lookup \<Rightarrow> lookup" where
  "find_rounds e target 0 r prev l = l"
| "find_rounds e target (Suc k) r prev l =
     (let candidates = e_sort e target (l_candidates l);
          l = l\<lparr>l_candidates := candidates\<rparr>
      in if prev = Some (ID (hd candidates)) then l
         else (case pick (e_alpha e) candidates [] (l_queried l) of
                 (toQuery, queried) \<Rightarrow>
                   if toQuery = [] then l\<lparr>l_queried := queried\<rparr>
                   else find_rounds e target k (r + 1) (Some (ID (hd candidates)))
                          (ask e ''find_node'' r toQuery (l\<lparr>l_queried := queried\<rparr>))))"

definition iterativeFindNode :: "env \<Rightarrow> nodeid \<Rightarrow> dht \<Rightarrow> lookup \<times> node list" where
  "iterativeFindNode e target d =
     (let closest = FindClosest (d_table d) target K
      in if closest = [] then (start_lookup d [], [])
         else (let l = find_rounds e target 10 0 None (start_lookup d closest)
               in (l, take K (e_sort e target (l_candidates l)))))"

text \<open>\<open>GetPeers\<close> stops at the first round that found a peer.\<close>

fun peers_rounds :: "env \<Rightarrow> nodeid \<Rightarrow> nat \<Rightarrow> nat \<Rightarrow> lookup \<Rightarrow> lookup" where
  "peers_rounds e target 0 r l = l"
| "peers_rounds e target (Suc k) r l =
     (let candidates = e_sort e target (l_candidates l)
      in case pick (e_alpha e) candidates [] (l_queried l) of
           (toQuery, queried) \<Rightarrow>
             (let l = l\<lparr>l_candidates := candidates, l_queried := queried\<rparr>
              in if toQuery = [] then l
                 else (let l = ask e ''get_peers'' r toQuery l
                       in if l_peers l \<noteq> [] then l else peers_rounds e target k (r + 1) l)))"

datatype lookup_error = NoNodes

definition GetPeers :: "env \<Rightarrow> bytes \<Rightarrow> dht \<Rightarrow> lookup_error + (lookup \<times> addrport list)" where
  "GetPeers e infoHash d =
     (let closest = FindClosest (d_table d) (NodeID infoHash) K
      in if closest = [] then Inl NoNodes
         else (let l = peers_rounds e (NodeID infoHash) 10 0 (start_lookup d closest)
               in Inr (l, l_peers l)))"

text \<open>\<open>Announce\<close> runs all its rounds and then announces to the closest nodes that gave a token.\<close>

fun token_rounds :: "env \<Rightarrow> nodeid \<Rightarrow> nat \<Rightarrow> nat \<Rightarrow> lookup \<Rightarrow> lookup" where
  "token_rounds e target 0 r l = l"
| "token_rounds e target (Suc k) r l =
     (let candidates = e_sort e target (l_candidates l)
      in case pick (e_alpha e) candidates [] (l_queried l) of
           (toQuery, queried) \<Rightarrow>
             (let l = l\<lparr>l_candidates := candidates, l_queried := queried\<rparr>
              in if toQuery = [] then l
                 else token_rounds e target k (r + 1) (ask e ''get_peers'' r toQuery l)))"

fun announce_to :: "(nodeid, bytes) dict \<Rightarrow> node list \<Rightarrow> nat \<Rightarrow> (node \<times> bytes) list" where
  "announce_to tokens [] n = []"
| "announce_to tokens (c # cs) n =
     (if n \<ge> K then []
      else case map_of tokens (ID c) of
             None \<Rightarrow> announce_to tokens cs n
           | Some tok \<Rightarrow> (c, tok) # announce_to tokens cs (n + 1))"

definition Announce :: "env \<Rightarrow> (node \<Rightarrow> outcome) \<Rightarrow> bytes \<Rightarrow> int \<Rightarrow> dht
    \<Rightarrow> lookup_error + (dht \<times> lookup \<times> (addrport \<times> message) list)" where
  "Announce e res infoHash port d =
     (let closest = FindClosest (d_table d) (NodeID infoHash) K
      in if closest = [] then Inl NoNodes
         else (let l = token_rounds e (NodeID infoHash) 10 0 (start_lookup d closest);
                   targets = announce_to (l_tokens l) (e_sort e (NodeID infoHash) (l_candidates l)) 0
               in Inr (fold (\<lambda>(c, tok) d. fst (sendQuery ''announce_peer'' (res c) d)) targets (l_dht l), l,
                    map (\<lambda>(c, tok). (Addr c, announce_query d infoHash port tok)) targets)))"

section \<open>Refresh and bootstrap\<close>

text \<open>One environment and one random draw per stale bucket; a stale bucket is one of the 160, so
  \<open>TargetForBucket\<close> has a result.\<close>

definition refreshTable :: "(nat \<Rightarrow> env) \<Rightarrow> (nat \<Rightarrow> bytes) \<Rightarrow> int \<Rightarrow> (node \<Rightarrow> bool) \<Rightarrow> dht \<Rightarrow> dht" where
  "refreshTable es rnd now alive d =
     sweepStaleNodes now alive
       (fold (\<lambda>bucket d. case TargetForBucket (d_table d) bucket (rnd bucket) of
                Some target \<Rightarrow> l_dht (fst (iterativeFindNode (es bucket) target d))
              | None \<Rightarrow> d)
         (StaleBuckets now (d_table d) refreshInterval) d)"

text \<open>A bootstrap address: what it resolves to, how the query to it ends, the random bytes and the clock.\<close>

definition Bootstrap :: "((addr, int) dict \<Rightarrow> (addr \<times> int) list) \<Rightarrow> env
    \<Rightarrow> (addrport option \<times> outcome \<times> bytes option \<times> int) list \<Rightarrow> dht \<Rightarrow> dht" where
  "Bootstrap iter e addrs d =
     (let d = fold (\<lambda>(resolved, res, rnd, now) d.
                case resolved of
                  None \<Rightarrow> d
                | Some addrPort \<Rightarrow>
                    (case sendQuery ''find_node'' res d of (d, resp) \<Rightarrow> bootstrap_node iter rnd now addrPort resp d)) addrs d
      in l_dht (fst (iterativeFindNode e (d_id d) d)))"


section \<open>What a lookup may assume of its environment\<close>

text \<open>\<open>sort.Slice\<close> sorts, and the goroutines of a round all finish, each once.\<close>

definition env_ok :: "env \<Rightarrow> bool" where
  "env_ok e \<longleftrightarrow> (\<forall>t ns. mset (e_sort e t ns) = mset ns \<and> sorted (map (\<lambda>n. Distance t (ID n)) (e_sort e t ns)))
     \<and> (\<forall>r ns. mset (e_finish e r ns) = mset ns \<and> mset (e_append e r ns) = mset ns)"

lemma env_okD:
  assumes "env_ok e"
  shows "mset (e_sort e t ns) = mset ns" "sorted (map (\<lambda>n. Distance t (ID n)) (e_sort e t ns))"
    "mset (e_append e r ns) = mset ns" "set (e_sort e t ns) = set ns" "length (e_sort e t ns) = length ns"
    "set (e_append e r ns) = set ns" "set (e_finish e r ns) = set ns"
proof -
  show "mset (e_sort e t ns) = mset ns" "sorted (map (\<lambda>n. Distance t (ID n)) (e_sort e t ns))" "mset (e_append e r ns) = mset ns"
    using assms by (simp_all add: env_ok_def)
  then show "set (e_sort e t ns) = set ns" "length (e_sort e t ns) = length ns" "set (e_append e r ns) = set ns"
    by (metis mset_eq_setD mset_eq_length)+
  show "set (e_finish e r ns) = set ns" using assms mset_eq_setD by (simp add: env_ok_def) blast
qed

section \<open>Rounds\<close>

lemma pick_spec:
  assumes "pick alpha cs tq q = (tq', q')"
  shows "\<exists>new. tq' = tq @ new \<and> q' = rev (map ID new) @ q \<and> set new \<subseteq> set cs \<and> (distinct q \<longrightarrow> distinct q')
    \<and> length tq' \<le> max (length tq) alpha
    \<and> (length tq' < alpha \<longrightarrow> ID ` set cs \<subseteq> set q')"
  using assms
proof (induction alpha cs tq q rule: pick.induct)
  case (2 alpha c cs tq q)
  consider "length tq \<ge> alpha" | "length tq < alpha" "ID c \<notin> set q" | "length tq < alpha" "ID c \<in> set q" by linarith
  then show ?case
  proof cases
    case 1
    then show ?thesis using 2(3) by auto
  next
    case 2
    from 2 "2.prems" have p: "pick alpha cs (tq @ [c]) (ID c # q) = (tq', q')" by simp
    from "2.IH"(1) [OF _ _ p] 2 obtain new where
      "tq' = (tq @ [c]) @ new" "q' = rev (map ID new) @ ID c # q" "set new \<subseteq> set cs"
      "distinct (ID c # q) \<longrightarrow> distinct q'" "length tq' \<le> max (length (tq @ [c])) alpha"
      "length tq' < alpha \<longrightarrow> ID ` set cs \<subseteq> set q'" by (auto simp: not_le)
    with 2 show ?thesis by (intro exI [of _ "c # new"]) auto
  next
    case 3
    from 3 "2.prems" have p: "pick alpha cs tq q = (tq', q')" by simp
    from "2.IH"(2) [OF _ _ p] 3 obtain new where
      "tq' = tq @ new" "q' = rev (map ID new) @ q" "set new \<subseteq> set cs"
      "distinct q \<longrightarrow> distinct q'" "length tq' \<le> max (length tq) alpha"
      "length tq' < alpha \<longrightarrow> ID ` set cs \<subseteq> set q'" by (auto simp: not_le)
    with 3 show ?thesis by (intro exI [of _ "new"]) auto
  qed
qed simp

lemma pick_new:
  assumes "pick alpha cs [] q = (tq, q')"
  shows "q' = rev (map ID tq) @ q" "set tq \<subseteq> set cs" "distinct q \<longrightarrow> distinct q'" "length tq \<le> alpha"
    "length tq < alpha \<longrightarrow> ID ` set cs \<subseteq> set q'"
proof -
  from pick_spec [OF assms] obtain new where "tq = new" "q' = rev (map ID new) @ q" "set new \<subseteq> set cs"
    "distinct q \<longrightarrow> distinct q'" "length tq \<le> alpha" "length tq < alpha \<longrightarrow> ID ` set cs \<subseteq> set q'" by auto
  then show "q' = rev (map ID tq) @ q" "set tq \<subseteq> set cs" "distinct q \<longrightarrow> distinct q'" "length tq \<le> alpha"
    "length tq < alpha \<longrightarrow> ID ` set cs \<subseteq> set q'" by simp_all
qed

section \<open>What a query does to the node\<close>

lemma sendQuery_counted: "\<exists>f. fst (sendQuery method res d) = counted f d"
proof -
  have two: "counted f (counted g d) = counted (f \<circ> g) d" for f g
    by (simp add: counted_def option.map_comp)
  show ?thesis by (cases res) (auto simp: sendQuery_def Let_def two)
qed

text \<open>The table may lose nodes and records failures and successes; nothing is added to it.\<close>

definition same_nodes :: "dht \<Rightarrow> dht \<Rightarrow> bool" where
  "same_nodes d0 d \<longleftrightarrow> d_id d = d_id d0 \<and> d_peers d = d_peers d0 \<and> d_tokens d = d_tokens d0
     \<and> (\<forall>n \<in> set (Snapshot (d_table d)). \<exists>m \<in> set (Snapshot (d_table d0)). ID m = ID n \<and> Addr m = Addr n)"

lemma same_nodes_refl [simp]: "same_nodes d d"
  by (auto simp: same_nodes_def)

lemma query_node_ok:
  assumes "dht_ok d" "same_nodes d0 d"
  shows "dht_ok (query_node method now res n d) \<and> same_nodes d0 (query_node method now res n d)"
proof -
  obtain f where f: "fst (sendQuery method res d) = counted f d" using sendQuery_counted by blast
  let ?d = "counted f d" and ?P = "\<lambda>n. \<exists>m \<in> set (Snapshot (d_table d0)). ID m = ID n \<and> Addr m = Addr n"
  have c: "dht_ok ?d" using assms(1) by simp
  note t = dht_okD [OF c]
  have p: "\<forall>n \<in> set (Snapshot (d_table ?d)). ?P n" using assms(2) by (simp add: same_nodes_def)
  have fail: "\<forall>m \<in> set (Snapshot (fst (RecordFailure (d_table ?d) (ID n)))). ?P m \<and> has4 (Addr m)"
    using p t(3) by (intro RecordFailure_all [OF t(1)]) auto
  have succ: "\<forall>m \<in> set (Snapshot (RecordSuccess now (d_table ?d) (ID n))). ?P m \<and> has4 (Addr m)"
    using p t(3) by (intro RecordSuccess_all [OF t(1)]) auto
  have "dht_ok (?d\<lparr>d_table := fst (RecordFailure (d_table ?d) (ID n))\<rparr>)"
    by (rule dht_ok_table [OF c]) (use fail t in \<open>simp_all add: RecordFailure_ok\<close>)
  moreover have "dht_ok (?d\<lparr>d_table := RecordSuccess now (d_table ?d) (ID n)\<rparr>)"
    by (rule dht_ok_table [OF c]) (use succ t in \<open>simp_all add: RecordSuccess_ok\<close>)
  ultimately show ?thesis
    using f fail succ assms(2) by (cases "sendQuery method res d") (auto simp: query_node_def same_nodes_def split: option.split)
qed

lemma query_all_ok:
  assumes "dht_ok d" "same_nodes d0 d"
  shows "dht_ok (query_all e method r ns d) \<and> same_nodes d0 (query_all e method r ns d)"
proof -
  have "dht_ok (fold (\<lambda>n. query_node method (e_now e r) (e_outcome e r n) n) xs d)
      \<and> same_nodes d0 (fold (\<lambda>n. query_node method (e_now e r) (e_outcome e r n) n) xs d)" for xs
    using assms by (induction xs arbitrary: d) (simp_all add: query_node_ok)
  then show ?thesis by (simp add: query_all_def)
qed

lemma put_tokens:
  assumes "map_of (fold (put_token e r) ns tokens) i = Some tok"
  shows "map_of tokens i = Some tok \<or> (\<exists>n \<in> set ns. ID n = i \<and> tokenFromResponse (answer e r n) = Inr tok)"
  using assms
proof (induction ns arbitrary: tokens)
  case (Cons n ns)
  from Cons.IH [of "put_token e r n tokens"] Cons.prems show ?case
    by (auto simp: put_token_def split: sum.splits if_splits)
qed simp

text \<open>What every round keeps: the bookkeeping of a lookup started with \<open>closest\<close> at node \<open>d0\<close>,
  after \<open>r\<close> rounds.\<close>

definition heard :: "env \<Rightarrow> (nat \<times> node) list \<Rightarrow> node list" where
  "heard e asked = concat (map (\<lambda>(r, n). found e r n) asked)"

definition lookup_inv :: "env \<Rightarrow> node list \<Rightarrow> dht \<Rightarrow> nat \<Rightarrow> lookup \<Rightarrow> bool" where
  "lookup_inv e closest d0 r l \<longleftrightarrow>
     mset (l_candidates l) = mset closest + mset (heard e (l_asked l))
     \<and> distinct (l_queried l) \<and> set (map (ID \<circ> snd) (l_asked l)) = set (l_queried l)
     \<and> length (l_asked l) = length (l_queried l) \<and> length (l_queried l) \<le> r * e_alpha e
     \<and> (\<forall>(s, n) \<in> set (l_asked l). s < r \<and> n \<in> set (l_candidates l))
     \<and> dht_ok (l_dht l) \<and> same_nodes d0 (l_dht l)
     \<and> (\<forall>i tok. map_of (l_tokens l) i = Some tok \<longrightarrow>
          (\<exists>(s, n) \<in> set (l_asked l). ID n = i \<and> tokenFromResponse (answer e s n) = Inr tok))
     \<and> set (l_peers l) = \<Union> ((\<lambda>(s, n). set (found_peers e s n)) ` set (l_asked l))"


lemma start_inv: "dht_ok d \<Longrightarrow> lookup_inv e closest d 0 (start_lookup d closest)"
  by (simp add: lookup_inv_def start_lookup_def heard_def)

lemma heard_append: "heard e (as @ bs) = heard e as @ heard e bs"
  by (simp add: heard_def)

lemma mset_concat_perm: "mset xs = mset ys \<Longrightarrow> mset (concat (map f xs)) = mset (concat (map f ys))"
  by (simp add: mset_concat) (metis mset_map sum_mset_sum_list)

text \<open>Sorting the candidates, picking some and asking them.\<close>

lemma ask_inv:
  assumes e: "env_ok e" and l: "lookup_inv e closest d0 r l"
    and p: "pick (e_alpha e) (e_sort e t (l_candidates l)) [] (l_queried l) = (toQuery, queried)"
  shows "lookup_inv e closest d0 (Suc r)
    (ask e method r toQuery (l\<lparr>l_candidates := e_sort e t (l_candidates l), l_queried := queried\<rparr>))"
proof -
  note e' = env_okD [OF e]
  note q = pick_new(1-4) [OF p, unfolded e'(4)]
  have h: "heard e (map (Pair r) toQuery) = concat (map (found e r) toQuery)"
    by (simp add: heard_def comp_def)
  have c: "mset (concat (map (found e r) (e_append e r toQuery))) = mset (concat (map (found e r) toQuery))"
    by (rule mset_concat_perm [OF e'(3)])
  have d: "dht_ok (query_all e method r toQuery (l_dht l)) \<and> same_nodes d0 (query_all e method r toQuery (l_dht l))"
    using l by (intro query_all_ok) (simp_all add: lookup_inv_def)
  have tok: "\<exists>(s, n) \<in> set (l_asked l @ map (Pair r) toQuery). ID n = i \<and> tokenFromResponse (answer e s n) = Inr tk"
    if "map_of (fold (put_token e r) (e_append e r toQuery) (l_tokens l)) i = Some tk" for i tk
  proof -
    from put_tokens [OF that] show ?thesis using l unfolding e'(6) by (fastforce simp: lookup_inv_def)
  qed
  show ?thesis
    unfolding lookup_inv_def ask_def Let_def lookup.simps
    using l q d tok by (simp add: lookup_inv_def e'(1,4,6) heard_append h c image_Un) (fastforce simp: less_Suc_eq)
qed


lemma lookup_inv_mono:
  assumes "lookup_inv e closest d0 r l" "r \<le> r'"
  shows "lookup_inv e closest d0 r' l"
proof -
  have "length (l_queried l) \<le> r * e_alpha e" using assms(1) unfolding lookup_inv_def by blast
  also have "\<dots> \<le> r' * e_alpha e" using assms(2) by (rule mult_le_mono1)
  finally have 1: "length (l_queried l) \<le> r' * e_alpha e" .
  have "\<forall>(s, n) \<in> set (l_asked l). s < r \<and> n \<in> set (l_candidates l)" using assms(1) unfolding lookup_inv_def by blast
  then have 2: "\<forall>(s, n) \<in> set (l_asked l). s < r' \<and> n \<in> set (l_candidates l)" using assms(2) by auto
  show ?thesis using assms(1) 1 2 unfolding lookup_inv_def by blast
qed

lemma sort_inv:
  assumes "env_ok e" "lookup_inv e closest d0 r l"
  shows "lookup_inv e closest d0 r (l\<lparr>l_candidates := e_sort e t (l_candidates l)\<rparr>)"
  using assms(2) by (simp add: lookup_inv_def env_okD [OF assms(1)])

lemma none_inv:
  assumes "env_ok e" "pick (e_alpha e) (e_sort e t (l_candidates l)) [] (l_queried l) = (tq, q)" "tq = []"
    and "lookup_inv e closest d0 r l" "r \<le> r'"
  shows "lookup_inv e closest d0 r' (l\<lparr>l_candidates := e_sort e t (l_candidates l), l_queried := q\<rparr>)"
proof -
  from pick_new(1) [OF assms(2)] have "q = l_queried l" using assms(3) by simp
  with lookup_inv_mono [OF sort_inv [OF assms(1,4), of t] assms(5)] show ?thesis by simp
qed

lemma rounds_inv:
  assumes "env_ok e" "lookup_inv e closest d0 r l"
  shows "lookup_inv e closest d0 (r + k) (find_rounds e t k r prev l)" (is ?find)
    and "lookup_inv e closest d0 (r + k) (peers_rounds e t k r l)" (is ?peers)
    and "lookup_inv e closest d0 (r + k) (token_rounds e t k r l)" (is ?token)
proof -
  show ?find
    using assms(2)
  proof (induction k arbitrary: r prev l)
    case (Suc k)
    obtain tq q where p: "pick (e_alpha e) (e_sort e t (l_candidates l)) [] (l_queried l) = (tq, q)" by force
    show ?case
      using Suc.IH [OF ask_inv [OF assms(1) Suc.prems p]] none_inv [OF assms(1) p _ Suc.prems, of "r + Suc k"] p
        lookup_inv_mono [OF sort_inv [OF assms(1) Suc.prems, of t], of "r + Suc k"] Suc.prems
      by (cases "tq = []") (auto simp: Let_def)
  qed simp
  show ?peers
    using assms(2)
  proof (induction k arbitrary: r l)
    case (Suc k)
    obtain tq q where p: "pick (e_alpha e) (e_sort e t (l_candidates l)) [] (l_queried l) = (tq, q)" by force
    show ?case
      using Suc.IH [OF ask_inv [OF assms(1) Suc.prems p]] none_inv [OF assms(1) p _ Suc.prems, of "r + Suc k"] p
        lookup_inv_mono [OF ask_inv [OF assms(1) Suc.prems p], of "r + Suc k"] Suc.prems
      by (cases "tq = []") (auto simp: Let_def)
  qed simp
  show ?token
    using assms(2)
  proof (induction k arbitrary: r l)
    case (Suc k)
    obtain tq q where p: "pick (e_alpha e) (e_sort e t (l_candidates l)) [] (l_queried l) = (tq, q)" by force
    show ?case
      using Suc.IH [OF ask_inv [OF assms(1) Suc.prems p]] none_inv [OF assms(1) p _ Suc.prems, of "r + Suc k"] p Suc.prems
      by (cases "tq = []") (auto simp: Let_def)
  qed simp
qed

section \<open>What a lookup returns\<close>

lemma find_lookup_inv:
  assumes "env_ok e" "dht_ok d" "iterativeFindNode e t d = (l, ns)"
  shows "lookup_inv e (FindClosest (d_table d) t K) d 10 l
    \<and> ns = take K (e_sort e t (l_candidates l))"
proof (cases "FindClosest (d_table d) t K = []")
  case True
  then have "l = start_lookup d []" "ns = []" using assms(3) by (simp_all add: iterativeFindNode_def)
  then show ?thesis using lookup_inv_mono [OF start_inv [OF assms(2), of e "[]"], of 10] True env_okD(5) [OF assms(1), of t "[]"]
    by (simp add: start_lookup_def)
next
  case False
  then show ?thesis using assms(3) rounds_inv(1) [OF assms(1) start_inv [OF assms(2)], where k = 10 and t = t and prev = None]
    by (simp add: iterativeFindNode_def Let_def) fastforce
qed

text \<open>Sorted candidates split into the first \<open>k\<close> and nodes that are no closer.\<close>

lemma closest_split:
  assumes "env_ok e" "x \<in> set (take k (e_sort e t cs))" "y \<in># mset cs - mset (take k (e_sort e t cs))"
  shows "Distance t (ID x) \<le> Distance t (ID y)"
proof -
  let ?s = "e_sort e t cs"
  have "mset cs = mset (take k ?s) + mset (drop k ?s)" using env_okD(1) [OF assms(1), of t cs] by (metis append_take_drop_id mset_append)
  then have "y \<in> set (drop k ?s)" using assms(3) by simp
  moreover have "sorted_wrt (\<lambda>a b. Distance t (ID a) \<le> Distance t (ID b)) (take k ?s @ drop k ?s)"
    using env_okD(2) [OF assms(1), of t cs] by (simp add: sorted_wrt_map)
  ultimately show ?thesis using assms(2) unfolding sorted_wrt_append by blast
qed


section \<open>Queries as the other side reads them\<close>

lemma key_bytes3:
  "key ''info_hash'' = [0x69, 0x6E, 0x66, 0x6F, 0x5F, 0x68, 0x61, 0x73, 0x68]"
  "key ''target'' = [0x74, 0x61, 0x72, 0x67, 0x65, 0x74]" "key ''port'' = [0x70, 0x6F, 0x72, 0x74]"
  "key ''implied_port'' = [0x69, 0x6D, 0x70, 0x6C, 0x69, 0x65, 0x64, 0x5F, 0x70, 0x6F, 0x72, 0x74]"
  by (simp_all add: ascii_def)

lemma sendable_query:
  assumes "length method < 1000" "sorted_dict args" "list_all (\<lambda>e. length (fst e) < 1000 \<and> fits (snd e)) args"
    and "dht_ok d" "in_int64 (int (length t))"
  shows "sendable ((query d method args)\<lparr>TransactionID := t\<rparr>)"
proof -
  let ?a = "dict_put (key ''id'') (own_id d) args"
  have all: "list_all (\<lambda>e. length (fst e) < 1000 \<and> fits (snd e)) ?a"
    using assms(3) own_id_entry [OF assms(4)] by (intro list_all_dict_put) simp_all
  have "1 + height (BDict ?a) \<le> maxDecodeDepth"
    unfolding height_BDict_le using all by (auto simp: list_all_iff maxDecodeDepth_def fits_def)
  moreover have "sorted_dict ?a" using assms(2) by (rule sorted_dict_put)
  ultimately show ?thesis
    using assms(1,5) all
    by (auto simp: sendable_def query_def empty_message_def canonical_def encodable_def small_in_int64
        maxDecodeDepth_def list_all_iff fits_def)
qed

lemma fixed20_norm: "fixed20FromArgs (norm_dict args) k = fixed20FromArgs args k"
  by (simp add: fixed20FromArgs_def norm_dict_def map_of_norm split: option.split)

text \<open>The answer of another node to a message, as it comes back over the wire.\<close>

definition exchange :: "int \<Rightarrow> dht \<Rightarrow> addrport \<Rightarrow> message \<Rightarrow> message option" where
  "exchange now d a m =
     (case Marshal m of
        Inl _ \<Rightarrow> None
      | Inr data \<Rightarrow>
          (case Unmarshal data of
             Inl _ \<Rightarrow> None
           | Inr q \<Rightarrow>
               (case dispatch now d q a of
                  Some (_, [SendReply rep b]) \<Rightarrow>
                    (case Marshal rep of
                       Inl _ \<Rightarrow> None
                     | Inr data' \<Rightarrow> (case Unmarshal data' of Inl _ \<Rightarrow> None | Inr rep' \<Rightarrow> Some rep'))
                | _ \<Rightarrow> None)))"

lemma get_peers_exchange:
  assumes "dht_ok d" "length h = 20" "in_int64 (int (length t))" "dht_ok d2" "has4 a" "p \<in> set (Get now (d_peers d2) h)"
  shows "\<exists>rep vs. exchange now d2 a ((get_peers_query d h)\<lparr>TransactionID := t\<rparr>) = Some rep
    \<and> map_of (Response rep) (key ''values'') = Some (BList vs) \<and> Some (as_v4 p) \<in> set (map parseCompactPeer vs)"
proof -
  let ?q = "(get_peers_query d h)\<lparr>TransactionID := t\<rparr>"
  have "sendable ?q" unfolding get_peers_query_def
    by (rule sendable_query) (simp_all add: sorted_dict_def assms(1,2,3) short_entry)
  then obtain data where data: "Marshal ?q = Inr data" "Unmarshal data = Inr (norm_message ?q)"
    by (rule Marshal_Unmarshal)
  have args: "infoHashFromArgs (Args (norm_message ?q)) = Inr h"
    by (simp add: infoHashFromArgs_def norm_message_def fixed20_norm)
      (simp add: fixed20FromArgs_def get_peers_query_def query_def any_bytes_def assms(2))
  have tid: "in_int64 (int (length (TransactionID (norm_message ?q))))" by (simp add: norm_message_def assms(3))
  have m: "QueryMethod (norm_message ?q) = key ''get_peers''" by (simp add: norm_message_def get_peers_query_def query_def)
  have "dispatch now d2 (norm_message ?q) a = handleGetPeers now d2 (norm_message ?q) a"
    unfolding dispatch_def m by simp
  with get_peers_answer [OF assms(4,5) args tid assms(6)] data show ?thesis
    unfolding exchange_def by fastforce
qed

section \<open>The first round\<close>

lemma sort_closest:
  assumes "env_ok e" "dht_ok d" "valid_id t"
  shows "e_sort e t (FindClosest (d_table d) t k) = FindClosest (d_table d) t k"
    and "distinct (map ID (FindClosest (d_table d) t k))"
proof -
  let ?rt = "d_table d"
  let ?c = "FindClosest ?rt t k" and ?f = "\<lambda>n. Distance t (ID n)"
  have "mset (map ?f (e_sort e t ?c)) = mset (map ?f ?c)" by (simp add: env_okD(1) [OF assms(1)])
  moreover have s: "sorted (map ?f ?c)"
    using sorted_sort_by_distance [of t "candidates_for ?rt t k"] by (simp add: FindClosest_take flip: take_map)
  ultimately have eq: "map ?f (e_sort e t ?c) = map ?f ?c"
    using env_okD(2) [OF assms(1), of t ?c] by (metis properties_for_sort)
  have "distinct (map ID (sort_by_distance t (candidates_for ?rt t k)))"
    using candidates_distinct [OF dht_okD(1) [OF assms(2)], of t k] by (simp add: distinct_map sort_by_distance_def)
  then have d: "distinct (map ID ?c)" unfolding FindClosest_take by (metis distinct_take take_map)
  have "inj_on ?f (set ?c)"
  using Distance_distinct [OF assms(3) d] closest_wire(1) [OF assms(2), of t k]
    by (simp add: distinct_map list_all_iff wire_node_def)
  then show "e_sort e t ?c = ?c" using eq env_okD(4) [OF assms(1), of t ?c] by (intro map_inj_on [of ?f]) simp_all
  show "distinct (map ID ?c)" by (rule d)
qed

lemma pick_distinct:
  assumes "distinct (map ID cs)" "ID ` set cs \<inter> set q = {}" "length tq \<le> alpha"
  shows "fst (pick alpha cs tq q) = tq @ take (alpha - length tq) cs"
  using assms
proof (induction alpha cs tq q rule: pick.induct)
  case (2 alpha c cs tq q)
  show ?case
  proof (cases "length tq = alpha")
    case False
    then have l: "alpha - length tq = Suc (alpha - Suc (length tq))" "length tq < alpha" using 2(5) by simp_all
    with 2 show ?thesis by (simp add: l(1))
  qed simp
qed simp


section \<open>Properties\<close>

lemma announce_to_spec:
  "length (announce_to tokens cs n) \<le> K - n"
  "(c, tok) \<in> set (announce_to tokens cs n) \<Longrightarrow> c \<in> set cs \<and> map_of tokens (ID c) = Some tok"
proof -
  show "length (announce_to tokens cs n) \<le> K - n"
    by (induction tokens cs n rule: announce_to.induct) (auto split: option.splits)
  show "(c, tok) \<in> set (announce_to tokens cs n) \<Longrightarrow> c \<in> set cs \<and> map_of tokens (ID c) = Some tok"
    by (induction tokens cs n rule: announce_to.induct) (auto split: option.splits if_splits)
qed

lemma announce_frame:
  assumes "dht_ok d" "same_nodes d0 d"
  shows "dht_ok (fold (\<lambda>(c, tok) d. fst (sendQuery method (res c) d)) ts d)
    \<and> same_nodes d0 (fold (\<lambda>(c, tok) d. fst (sendQuery method (res c) d)) ts d)"
  using assms
proof (induction ts arbitrary: d)
  case (Cons x ts)
  obtain c tok where x: "x = (c, tok)" by (cases x)
  obtain f where "fst (sendQuery method (res c) d) = counted f d" using sendQuery_counted by blast
  then have "dht_ok (fst (sendQuery method (res c) d))" "same_nodes d0 (fst (sendQuery method (res c) d))"
    using Cons.prems by (simp_all add: same_nodes_def)
  from Cons.IH [OF this] show ?case by (simp add: x)
qed simp

lemma iterativeFindNode_ok:
  assumes "env_ok e" "dht_ok d"
  shows "dht_ok (l_dht (fst (iterativeFindNode e t d)))"
  using find_lookup_inv [OF assms, of t "fst (iterativeFindNode e t d)" "snd (iterativeFindNode e t d)"]
  unfolding lookup_inv_def by simp

lemma refreshTable_ok [wf_intros]:
  assumes "\<And>b. env_ok (es b)" "dht_ok d"
  shows "dht_ok (refreshTable es rnd now alive d)"
proof -
  have "dht_ok (fold (\<lambda>bucket d. case TargetForBucket (d_table d) bucket (rnd bucket) of
                Some target \<Rightarrow> l_dht (fst (iterativeFindNode (es bucket) target d)) | None \<Rightarrow> d) bs d)" for bs
    using assms(2) by (induction bs arbitrary: d) (simp_all add: iterativeFindNode_ok assms(1) split: option.split)
  then show ?thesis unfolding refreshTable_def by (intro sweepStaleNodes_ok)
qed

lemma Bootstrap_fold_ok:
  assumes "dht_ok d" "votes_ok d" "\<forall>m. set (iter m) = set m"
    and "\<forall>(a, res, rnd, now) \<in> set addrs. (\<forall>x. a = Some x \<longrightarrow> has4 x) \<and> (\<forall>b. rnd = Some b \<longrightarrow> length b = 20)"
  shows "dht_ok (fold (\<lambda>(resolved, res, rnd, now) d. case resolved of None \<Rightarrow> d
      | Some addrPort \<Rightarrow> (case sendQuery ''find_node'' res d of (d, resp) \<Rightarrow> bootstrap_node iter rnd now addrPort resp d)) addrs d)
    \<and> votes_ok (fold (\<lambda>(resolved, res, rnd, now) d. case resolved of None \<Rightarrow> d
      | Some addrPort \<Rightarrow> (case sendQuery ''find_node'' res d of (d, resp) \<Rightarrow> bootstrap_node iter rnd now addrPort resp d)) addrs d)"
  using assms(1,2,4)
proof (induction addrs arbitrary: d)
  case (Cons x addrs)
  obtain a res rnd now where x: "x = (a, res, rnd, now)" by (cases x)
  obtain f where f: "fst (sendQuery ''find_node'' res d) = counted f d" using sendQuery_counted by blast
  have c: "dht_ok (counted f d)" using Cons.prems(1) by simp
  have v: "votes_ok (counted f d)" using Cons.prems(2) by (simp add: votes_ok_def counted_def)
  show ?case
    using Cons.IH [OF Cons.prems(1,2)] Cons.IH f Cons.prems(3) bootstrap_node_ok [OF c v _ _ assms(3)]
    by (cases "sendQuery ''find_node'' res d") (auto simp: x split: option.split)
qed simp

lemma Bootstrap_ok [wf_intros]:
  assumes "env_ok e" "dht_ok d" "votes_ok d" "\<forall>m. set (iter m) = set m"
    and "\<forall>(a, res, rnd, now) \<in> set addrs. (\<forall>x. a = Some x \<longrightarrow> has4 x) \<and> (\<forall>b. rnd = Some b \<longrightarrow> length b = 20)"
  shows "dht_ok (Bootstrap iter e addrs d)"
  using iterativeFindNode_ok [OF assms(1)] Bootstrap_fold_ok [OF assms(2-5)] by (simp add: Bootstrap_def Let_def)

definition plain_env :: "(nat \<Rightarrow> node \<Rightarrow> outcome) \<Rightarrow> env" where
  "plain_env res = \<lparr>e_alpha = 3, e_now = (\<lambda>r. int r), e_outcome = res, e_finish = (\<lambda>r ns. ns),
     e_append = (\<lambda>r ns. ns), e_sort = sort_by_distance\<rparr>"

lemma plain_env_ok: "env_ok (plain_env res)"
  by (simp add: env_ok_def plain_env_def sort_by_distance_def)

definition known_node :: node where
  "known_node = sample_node 0x80 1 False"

definition known_dht :: dht where
  "known_dht = (fresh_dht BEP42Off)\<lparr>d_table := fst (Table_Insert (NewRoutingTable zero_id) known_node)\<rparr>"

lemma known_dht_ok: "dht_ok known_dht"
proof -
  have z: "table_ok (NewRoutingTable zero_id)" "rt_self (NewRoutingTable zero_id) = d_id (fresh_dht BEP42Off)"
    by (simp_all add: NewRoutingTable_ok zero_id_def valid_id_def) (simp add: fresh_dht_def NewRoutingTable_def zero_id_def)
  show ?thesis
    unfolding known_dht_def
  proof (rule dht_ok_table [OF fresh_dht_ok])
    show "\<forall>n \<in> set (Snapshot (fst (Table_Insert (NewRoutingTable zero_id) known_node))). has4 (Addr n)"
      by (rule Table_Insert_all [OF z(1)]) (simp_all add: known_node_def sample_node_def has4_def)
  qed (simp_all add: Table_Insert_ok z known_node_def node_ok_sample)
qed

lemma known_closest: "FindClosest (d_table known_dht) (NodeID (replicate 20 1)) K = [known_node]"
proof -
  have t: "d_table known_dht = fst (Table_Insert (NewRoutingTable zero_id) known_node)" by (simp add: known_dht_def)
  let ?c = "FindClosest (d_table known_dht) (NodeID (replicate 20 1)) K"
  note ok = dht_okD(1) [OF known_dht_ok]
  have s: "Snapshot (d_table known_dht) = [known_node]" unfolding t by code_simp
  have "set ?c \<subseteq> {known_node}"
    using candidates_subset [OF ok, of "NodeID (replicate 20 1)" K]
      set_take_subset [of K "sort_by_distance (NodeID (replicate 20 1)) (candidates_for (d_table known_dht) (NodeID (replicate 20 1)) K)"]
    unfolding s FindClosest_take by simp
  moreover have "length ?c = 1"
    using candidates_enough [OF ok, of K "NodeID (replicate 20 1)"]
    by (simp add: FindClosest_take NumNodes_Snapshot s K_def min_def split: if_splits)
  ultimately show ?thesis by (cases ?c) auto
qed



text \<open>A node that announces reaches only nodes that gave it a token for this lookup: at most
  eight announcements are sent, each to the address of a candidate whose identifier answered
  with exactly the token the announcement carries, with the node's own identifier, the hash and
  the port. The state keeps its invariant.\<close>

theorem Announce_spec:
  assumes "env_ok e" "dht_ok d" "Announce e res h port d = Inr (d', l, sent)"
  shows "length sent \<le> K \<and> dht_ok d' \<and> same_nodes d d'
    \<and> length (l_asked l) \<le> 10 * e_alpha e
    \<and> (\<forall>(a, m) \<in> set sent. \<exists>c \<in> set (l_candidates l). \<exists>(r, n) \<in> set (l_asked l). \<exists>tok.
         a = Addr c \<and> ID n = ID c \<and> tokenFromResponse (answer e r n) = Inr tok \<and> m = announce_query d h port tok)"
proof -
  let ?t = "NodeID h" and ?c = "FindClosest (d_table d) (NodeID h) K"
  from assms(3) have l: "l = token_rounds e ?t 10 0 (start_lookup d ?c)"
    and r: "d' = fold (\<lambda>(c, tok) d. fst (sendQuery ''announce_peer'' (res c) d))
        (announce_to (l_tokens l) (e_sort e ?t (l_candidates l)) 0) (l_dht l)"
      "sent = map (\<lambda>(c, tok). (Addr c, announce_query d h port tok))
        (announce_to (l_tokens l) (e_sort e ?t (l_candidates l)) 0)"
    by (auto simp: Announce_def Let_def split: if_splits)
  have i: "lookup_inv e ?c d 10 l"
    using rounds_inv(3) [OF assms(1) start_inv [OF assms(2)], where k = 10 and t = ?t] by (simp add: l)
  then have d: "dht_ok (l_dht l)" "same_nodes d (l_dht l)" "length (l_asked l) \<le> 10 * e_alpha e"
    unfolding lookup_inv_def by simp_all
  have tok: "\<exists>(s, n) \<in> set (l_asked l). ID n = j \<and> tokenFromResponse (answer e s n) = Inr tok"
    if "map_of (l_tokens l) j = Some tok" for j tok
    using that i unfolding lookup_inv_def by blast
  have "\<exists>c \<in> set (l_candidates l). \<exists>(r, n) \<in> set (l_asked l). \<exists>tok.
         a = Addr c \<and> ID n = ID c \<and> tokenFromResponse (answer e r n) = Inr tok \<and> m = announce_query d h port tok"
    if "(a, m) \<in> set sent" for a m
  proof -
    from that r(2) obtain c tok where c: "a = Addr c" "m = announce_query d h port tok"
      "(c, tok) \<in> set (announce_to (l_tokens l) (e_sort e ?t (l_candidates l)) 0)" by auto
    from announce_to_spec(2) [OF c(3)] have "c \<in> set (l_candidates l)" "map_of (l_tokens l) (ID c) = Some tok"
      by (simp_all add: env_okD(4) [OF assms(1)])
    with tok [OF this(2)] c(1,2) show ?thesis by fastforce
  qed
  moreover have "length sent \<le> K" using announce_to_spec(1) [of _ _ 0] by (simp add: r(2))
  ultimately show ?thesis using announce_frame [OF d(1,2)] d(3) unfolding r(1) by blast
qed

theorem Announce_spec_witness:
  "\<exists>d' l sent. Announce (plain_env (\<lambda>r n. TimedOut)) (\<lambda>n. TimedOut) (replicate 20 1) 6881 known_dht = Inr (d', l, sent)
     \<and> length sent \<le> 8 \<and> dht_ok d'"
proof -
  obtain d' l sent where a: "Announce (plain_env (\<lambda>r n. TimedOut)) (\<lambda>n. TimedOut) (replicate 20 1) 6881 known_dht = Inr (d', l, sent)"
    by (simp add: Announce_def known_closest Let_def)
  from Announce_spec [OF plain_env_ok known_dht_ok a] a show ?thesis by (auto simp: K_def)
qed



definition holding_dht :: dht where
  "holding_dht = (fresh_dht BEP42Off)\<lparr>d_peers := Add 5 (d_peers (fresh_dht BEP42Off)) (replicate 20 1) some_peer\<rparr>"

lemma holding_dht_ok: "dht_ok holding_dht"
  unfolding holding_dht_def by (rule dht_ok_Add [OF fresh_dht_ok]) (simp add: has4_def)

lemma holding_peer: "some_peer \<in> set (Get 6 (d_peers holding_dht) (replicate 20 1))"
  by code_simp


end
