(* ===== verification/Bitfield.thy ===== *)
theory Bitfield
  imports Prelude
begin

text \<open>
  \<open>internal/peer/bitfield.go\<close>: which pieces a peer has, one bit per piece, the most significant
  bit of the first byte first. The index is a Go \<open>int\<close>; a negative one reads as absent and is not
  set, because Go's division and remainder truncate towards zero and shifting a byte by eight or
  more gives zero.
\<close>

definition NewBitField :: "nat \<Rightarrow> bytes" where
  "NewBitField numPieces = replicate ((numPieces + 7) div 8) 0"

definition HasPiece :: "bytes \<Rightarrow> int \<Rightarrow> bool" where
  "HasPiece bf index =
     (let byteIndex = go_div index 8; offset = go_mod index 8
      in if byteIndex < 0 \<or> byteIndex \<ge> int (length bf) then False
         else drop_bit (nat (7 - offset)) (bf ! nat byteIndex) AND 1 \<noteq> 0)"

definition SetPiece :: "bytes \<Rightarrow> int \<Rightarrow> bytes" where
  "SetPiece bf index =
     (let byteIndex = go_div index 8; offset = go_mod index 8
      in if byteIndex \<ge> 0 \<and> byteIndex < int (length bf) then
           bf[nat byteIndex := bf ! nat byteIndex OR push_bit (nat (7 - offset)) 1]
         else bf)"

section \<open>A set of piece indices\<close>

definition has_bit :: "bytes \<Rightarrow> nat \<Rightarrow> bool" where
  "has_bit bf n \<longleftrightarrow> n div 8 < length bf \<and> bit (bf ! (n div 8)) (7 - n mod 8)"

lemma odd_and_1: "(w AND 1 :: 'a::len word) \<noteq> 0 \<longleftrightarrow> bit w 0"
  by (metis and_one_eq bit_0 even_iff_mod_2_eq_zero)

lemma nat_index:
  "int n div 8 = int (n div 8)" "int n mod 8 = int (n mod 8)" "nat (7 - int k) = 7 - k"
proof -
  show "nat (7 - int k) = 7 - k" by arith
qed (simp_all add: zdiv_int zmod_int)

lemma single_bit: "k < 8 \<Longrightarrow> bit (push_bit k (1 :: byte)) j \<longleftrightarrow> j = k"
  by (auto simp: bit_push_bit_iff bit_1_iff simp del: push_bit_of_1)

lemma go_negative:
  assumes "index < 0"
  shows "go_div index 8 = - ((- index) div 8)" "nat (7 - go_mod index 8) \<ge> 7"
    "go_div index 8 \<ge> 0 \<Longrightarrow> nat (7 - go_mod index 8) \<ge> 8"
  using assms by (auto simp: go_div_def go_mod_def)

lemma HasPiece_negative [simp]: "index < 0 \<Longrightarrow> \<not> HasPiece bf index"
proof -
  assume n: "index < 0"
  have "\<not> bit (bf ! nat (go_div index 8)) (nat (7 - go_mod index 8))" if "go_div index 8 \<ge> 0"
    using go_negative(3) [OF n that] bit_imp_le_length [of "bf ! nat (go_div index 8)"] by fastforce
  then show ?thesis by (auto simp: HasPiece_def Let_def odd_and_1 bit_drop_bit_eq not_less)
qed

lemma SetPiece_negative [simp]: "index < 0 \<Longrightarrow> SetPiece bf index = bf"
proof -
  assume n: "index < 0"
  have "push_bit (nat (7 - go_mod index 8)) (1 :: byte) = 0" if "go_div index 8 \<ge> 0"
    using go_negative(3) [OF n that] by (intro bit_word_eqI) (auto simp: bit_simps)
  then show ?thesis by (cases "go_div index 8 \<ge> 0") (simp_all add: SetPiece_def Let_def del: push_bit_of_1)
qed

lemma HasPiece_nat [simp]: "HasPiece bf (int n) = has_bit bf n"
  by (simp add: HasPiece_def has_bit_def Let_def odd_and_1 bit_drop_bit_eq nat_index not_le del: nat_diff_distrib)

lemma length_SetPiece [simp]: "length (SetPiece bf index) = length bf"
  by (simp add: SetPiece_def Let_def)

lemma same_bit: "(7 - m mod 8 = 7 - n mod 8 \<and> m div 8 = n div 8) = (m = (n::nat))"
proof -
  have "m mod 8 < 8" "n mod 8 < 8" by simp_all
  then have "7 - m mod 8 = 7 - n mod 8 \<longleftrightarrow> m mod 8 = n mod 8" by arith
  then show ?thesis by (metis div_mult_mod_eq)
qed

lemma has_bit_SetPiece [simp]:
  "has_bit (SetPiece bf (int n)) m \<longleftrightarrow> has_bit bf m \<or> (m = n \<and> n div 8 < length bf)"
proof -
  have "7 - n mod 8 < 8" by simp
  then show ?thesis
    using same_bit [of m n]
    by (auto simp: SetPiece_def has_bit_def Let_def nat_index nth_list_update bit_or_iff single_bit
        simp del: push_bit_of_1)
qed

lemma has_bit_New [simp]: "\<not> has_bit (NewBitField k) n"
  by (simp add: has_bit_def NewBitField_def)

lemma in_range: "n < k \<Longrightarrow> n div 8 < length (NewBitField k)"
  by (simp add: NewBitField_def)

text \<open>A bit field is the set of pieces marked in it: a new one is empty, marking a piece below
  the number it was made for adds exactly that piece, marking any other index (also a negative
  one or one past the end) changes no piece, and the number of bytes never changes.\<close>

theorem bitfield_set:
  "\<not> HasPiece (NewBitField k) i
    \<and> (HasPiece (SetPiece bf i) j \<longleftrightarrow> HasPiece bf j \<or> (j = i \<and> 0 \<le> i \<and> i < 8 * int (length bf)))
    \<and> length (SetPiece bf i) = length bf \<and> 8 * length (NewBitField k) - k < 8 \<and> k \<le> 8 * length (NewBitField k)"
proof -
  have "HasPiece (SetPiece bf i) j \<longleftrightarrow> HasPiece bf j \<or> (j = i \<and> 0 \<le> i \<and> i < 8 * int (length bf))"
  proof (cases "0 \<le> i \<and> 0 \<le> j")
    case True
    then obtain m n where mn: "i = int n" "j = int m" by (metis nonneg_int_cases)
    have "n div 8 < length bf \<longleftrightarrow> int n < 8 * int (length bf)" by arith
    then show ?thesis unfolding mn by simp
  next
    case False
    then show ?thesis by (auto simp: not_le)
  qed
  moreover have "\<not> HasPiece (NewBitField k) i" by (cases "i < 0") (auto simp: not_less dest: nonneg_int_cases elim!: nonneg_int_cases)
  moreover have "8 * length (NewBitField k) - k < 8 \<and> k \<le> 8 * length (NewBitField k)"
    by (simp add: NewBitField_def) arith
  ultimately show ?thesis by simp
qed

end
