(* ===== verification/Pex.thy ===== *)
theory Pex
  imports Compact
begin

text \<open>
  The PEX messages of \<open>internal/peer/pex.go\<close> (BEP 11). \<open>CompactPeers\<close> panics on an address
  without a four-byte form, like the writers of \<^theory_text>\<open>Compact\<close>.
\<close>

record pex_message =
  Added :: "addrport list"
  AddedF :: bytes
  Dropped :: "addrport list"

definition CompactPeers :: "addrport list \<Rightarrow> bytes option" where
  "CompactPeers addrs = map_option concat (those (map endpoint6 addrs))"

definition ParseCompactPeers :: "bytes \<Rightarrow> addrport list" where
  "ParseCompactPeers data = map (\<lambda>i. the (of_endpoint6 (take 6 (drop (i * 6) data)))) [0..<length data div 6]"

definition EncodePEXMessage :: "pex_message \<Rightarrow> (enc_error + bytes) option" where
  "EncodePEXMessage msg =
     (case (CompactPeers (Added msg), CompactPeers (Dropped msg)) of
        (Some added, Some dropped) \<Rightarrow>
          Some (Encode (BDict [(ascii ''added'', BString added), (ascii ''added.f'', BString (AddedF msg)),
            (ascii ''dropped'', BString dropped)]))
      | _ \<Rightarrow> None)"

definition extractBytes :: "(bytes, bval) dict \<Rightarrow> string \<Rightarrow> bytes option" where
  "extractBytes dict k = Option.bind (map_of dict (ascii k)) any_bytes"

datatype pex_error = PexDecode dec_error | PexNotADict

definition ParsePEXMessage :: "bytes \<Rightarrow> pex_error + pex_message" where
  "ParsePEXMessage data =
     (case Decode data of
        Inl e \<Rightarrow> Inl (PexDecode e)
      | Inr (BDict dict) \<Rightarrow>
          Inr \<lparr>Added = (case extractBytes dict ''added'' of Some b \<Rightarrow> ParseCompactPeers b | None \<Rightarrow> []),
            AddedF = (case extractBytes dict ''added.f'' of Some b \<Rightarrow> b | None \<Rightarrow> []),
            Dropped = (case extractBytes dict ''dropped'' of Some b \<Rightarrow> ParseCompactPeers b | None \<Rightarrow> [])\<rparr>
      | Inr _ \<Rightarrow> Inl PexNotADict)"

section \<open>Round trip\<close>

lemma CompactPeers_total:
  assumes "list_all has4 as"
  obtains b where "CompactPeers as = Some b" "length b = 6 * length as" "ParseCompactPeers b = map as_v4 as"
proof -
  let ?vs = "map as_v4 as"
  let ?b = "concat (map (\<lambda>a. the (endpoint6 a)) ?vs)"
  have v: "list_all v4_endpoint ?vs" "map endpoint6 as = map endpoint6 ?vs" "\<forall>x \<in> set ?vs. endpoint6 x \<noteq> None"
    using assms as_v4_endpoint by (auto simp: list_all_iff)
  have "those (map endpoint6 ?vs) = Some (map (\<lambda>a. the (endpoint6 a)) ?vs)"
    by (rule those_all) (use v(3) in auto)
  then have c: "CompactPeers as = Some ?b" by (simp add: CompactPeers_def v(2))
  have l: "length ?b = 6 * length as" using endpoint.length_encs [OF v(1)] by simp
  have n: "length ?b div 6 = length as" unfolding l by simp
  have p: "ParseCompactPeers ?b = ?vs"
  proof (rule nth_equalityI)
    fix i assume "i < length (ParseCompactPeers ?b)"
    then have i: "i < length ?vs" unfolding ParseCompactPeers_def n by simp
    then have "v4_endpoint (?vs ! i)" using v(1) by (simp add: list_all_length)
    then show "ParseCompactPeers ?b ! i = ?vs ! i"
      using endpoint.chunk_encs [OF v(1) i, of "[]"] endpoint.dec_enc i
      unfolding ParseCompactPeers_def n by simp
  qed (unfold ParseCompactPeers_def n, simp)
  show thesis by (rule that [OF c l p])
qed

lemma ascii_bytes_pex:
  "ascii ''added'' = [0x61, 0x64, 0x64, 0x65, 0x64]" "ascii ''added.f'' = [0x61, 0x64, 0x64, 0x65, 0x64, 0x2E, 0x66]"
  "ascii ''dropped'' = [0x64, 0x72, 0x6F, 0x70, 0x70, 0x65, 0x64]"
  by (simp_all add: ascii_def)

text \<open>A PEX message sent to a peer is understood: what \<open>EncodePEXMessage\<close> writes parses to the
  same added and dropped endpoints, as IPv4, in order, with the same flags.\<close>

theorem ParsePEX_EncodePEX:
  assumes "list_all has4 (Added msg)" "list_all has4 (Dropped msg)"
    and "int (6 * length (Added msg)) < 2 ^ 62" "int (6 * length (Dropped msg)) < 2 ^ 62" "int (length (AddedF msg)) < 2 ^ 62"
  shows "\<exists>b. EncodePEXMessage msg = Some (Inr b)
    \<and> ParsePEXMessage b = Inr \<lparr>Added = map as_v4 (Added msg), AddedF = AddedF msg, Dropped = map as_v4 (Dropped msg)\<rparr>"
proof -
  obtain a where a: "CompactPeers (Added msg) = Some a" "length a = 6 * length (Added msg)"
    "ParseCompactPeers a = map as_v4 (Added msg)" by (rule CompactPeers_total [OF assms(1)])
  obtain d where d: "CompactPeers (Dropped msg) = Some d" "length d = 6 * length (Dropped msg)"
    "ParseCompactPeers d = map as_v4 (Dropped msg)" by (rule CompactPeers_total [OF assms(2)])
  let ?v = "BDict [(ascii ''added'', BString a), (ascii ''added.f'', BString (AddedF msg)), (ascii ''dropped'', BString d)]"
  have "wf_bval ?v" using assms(3-5) a(2) d(2)
    by (simp add: sorted_dict_def ascii_bytes_pex in_int64_def int64_min_def int64_max_def)
  moreover have "height ?v \<le> maxDecodeDepth" by (simp add: maxDecodeDepth_def)
  ultimately obtain b where b: "Encode ?v = Inr b" "Decode b = Inr (norm ?v)"
    using Encode_then_Decode by metis
  have "ParsePEXMessage b = Inr \<lparr>Added = map as_v4 (Added msg), AddedF = AddedF msg, Dropped = map as_v4 (Dropped msg)\<rparr>"
    using b(2) a(3) d(3) by (simp add: ParsePEXMessage_def extractBytes_def any_bytes_def)
  with b(1) a(1) d(1) show ?thesis by (auto simp: EncodePEXMessage_def)
qed

theorem ParsePEX_EncodePEX_witness:
  "\<exists>b. EncodePEXMessage \<lparr>Added = [AddrPort (IPv4 [10, 0, 0, 1]) 6881], AddedF = [0], Dropped = []\<rparr> = Some (Inr b)
     \<and> ParsePEXMessage b = Inr \<lparr>Added = [AddrPort (IPv4 [10, 0, 0, 1]) 6881], AddedF = [0], Dropped = []\<rparr>"
  using ParsePEX_EncodePEX [of "\<lparr>Added = [AddrPort (IPv4 [10, 0, 0, 1]) 6881], AddedF = [0], Dropped = []\<rparr>"]
  by (simp add: has4_def as_v4_def)

end
