(* ===== verification/PeerWire.thy ===== *)
theory PeerWire
  imports Bitfield Pex Crypto
begin

text \<open>
  The peer wire protocol of \<open>internal/peer/peer.go\<close> and \<open>internal/peer/handshake.go\<close>. A connection
  is the bytes that still arrive, the writes made so far and the number of writes that will still
  succeed; reading past the end of the stream is the error of a closed connection. \<^const>\<open>None\<close> is
  a panic. Messages that \<open>OnPEX\<close> receives are kept in order.
\<close>

section \<open>Connections and messages\<close>

record conn =
  c_in :: bytes
  c_out :: "bytes list"
  c_writes :: nat

definition conn_write :: "bytes \<Rightarrow> conn \<Rightarrow> bool \<times> conn" where
  "conn_write b c =
     (if c_writes c = 0 then (False, c)
      else (True, c\<lparr>c_out := c_out c @ [b], c_writes := c_writes c - 1\<rparr>))"

text \<open>\<open>io.ReadFull\<close>.\<close>

definition read_full :: "nat \<Rightarrow> conn \<Rightarrow> bytes option \<times> conn" where
  "read_full n c =
     (if length (c_in c) < n then (None, c\<lparr>c_in := []\<rparr>)
      else (Some (take n (c_in c)), c\<lparr>c_in := drop n (c_in c)\<rparr>))"

record peer_message =
  m_Length :: u32
  m_ID :: byte
  m_Payload :: bytes

datatype peer_error = ReadLengthError | ReadBodyError | WriteError | ExpectedBitfield byte | ExpectedExtension byte
  | UnchokeWait peer_error | PiecePayloadTooShort | ErrChoked | ErrPieceCancelled | InvalidPieceHash
  | HandshakeRead | HandshakeInvalid | HandshakeHash | NoExtensionSupport | ExtensionDecode dec_error | ExtensionNotADict
  | PexEncode

definition IsKeepAlive :: "peer_message \<Rightarrow> bool" where
  "IsKeepAlive m \<longleftrightarrow> m_Length m = 0"

definition ReadMessage :: "conn \<Rightarrow> (peer_error + peer_message) \<times> conn" where
  "ReadMessage c =
     (case read_full 4 c of
        (None, c) \<Rightarrow> (Inl ReadLengthError, c)
      | (Some lenBytes, c) \<Rightarrow>
          (let length = the (get32 lenBytes)
           in if length = 0 then (Inr \<lparr>m_Length = 0, m_ID = 0, m_Payload = []\<rparr>, c)
              else (case read_full (unat length) c of
                      (None, c) \<Rightarrow> (Inl ReadBodyError, c)
                    | (Some buf, c) \<Rightarrow> (Inr \<lparr>m_Length = length, m_ID = hd buf, m_Payload = tl buf\<rparr>, c))))"

text \<open>The message \<open>sendOnly\<close> and \<open>SendMessage\<close> build. The length is computed in 32 bits; past
  \<open>2 ^ 32 - 6\<close> bytes the buffer would be too short and the slice expressions panic.\<close>

definition frame :: "byte \<Rightarrow> bytes \<Rightarrow> bytes option" where
  "frame messageID payload =
     (let length = of_nat (length payload + 1) :: u32; n = unat (4 + length)
      in if n < 5 then None else Some (take n (be32 length @ messageID # payload)))"

section \<open>The peer\<close>

record peer_state =
  p_AddrPort :: addrport
  p_ID :: bytes
  p_Conn :: conn
  p_Choked :: bool
  p_BitField :: bytes
  p_BlockServer :: "(int \<Rightarrow> u32 \<Rightarrow> u32 \<Rightarrow> bytes option option) option"
  p_AmChoking :: bool
  p_UtPexID :: int
  p_OnPEX :: bool
  p_pex_received :: "pex_message list"

definition read_message :: "peer_state \<Rightarrow> (peer_error + peer_message) \<times> peer_state" where
  "read_message p = (case ReadMessage (p_Conn p) of (r, c) \<Rightarrow> (r, p\<lparr>p_Conn := c\<rparr>))"

definition write_bytes :: "bytes \<Rightarrow> peer_state \<Rightarrow> bool \<times> peer_state" where
  "write_bytes b p = (case conn_write b (p_Conn p) of (ok, c) \<Rightarrow> (ok, p\<lparr>p_Conn := c\<rparr>))"

definition SendOnly :: "byte \<Rightarrow> bytes \<Rightarrow> peer_state \<Rightarrow> (bool \<times> peer_state) option" where
  "SendOnly messageID payload p = map_option (\<lambda>message. write_bytes message p) (frame messageID payload)"

definition SendMessage :: "byte \<Rightarrow> bytes \<Rightarrow> peer_state \<Rightarrow> ((peer_error + peer_message) \<times> peer_state) option" where
  "SendMessage messageID payload p =
     map_option (\<lambda>message. case write_bytes message p of (False, p) \<Rightarrow> (Inl WriteError, p) | (True, p) \<Rightarrow> read_message p)
       (frame messageID payload)"

definition SendInterested :: "peer_state \<Rightarrow> (bool \<times> peer_state) option" where
  "SendInterested = SendOnly 2 []"

definition SendNotInterested :: "peer_state \<Rightarrow> (bool \<times> peer_state) option" where
  "SendNotInterested = SendOnly 3 []"

definition SendBitfield :: "bytes \<Rightarrow> peer_state \<Rightarrow> (bool \<times> peer_state) option" where
  "SendBitfield bf = SendOnly 5 bf"

definition SendChoke :: "peer_state \<Rightarrow> (bool \<times> peer_state) option" where
  "SendChoke = SendOnly 0 []"

definition SendUnchoke :: "peer_state \<Rightarrow> (bool \<times> peer_state) option" where
  "SendUnchoke = SendOnly 1 []"

definition SendHave :: "u32 \<Rightarrow> peer_state \<Rightarrow> (bool \<times> peer_state) option" where
  "SendHave index = SendOnly 4 (be32 index)"

definition SendKeepAlive :: "peer_state \<Rightarrow> bool \<times> peer_state" where
  "SendKeepAlive = write_bytes [0, 0, 0, 0]"

definition ReadBitfield :: "peer_state \<Rightarrow> (peer_error + peer_message) \<times> peer_state" where
  "ReadBitfield p =
     (case read_message p of
        (Inl e, p) \<Rightarrow> (Inl e, p)
      | (Inr msg, p) \<Rightarrow>
          if m_ID msg \<noteq> 5 then (Inl (ExpectedBitfield (m_ID msg)), p)
          else (Inr msg, p\<lparr>p_BitField := m_Payload msg\<rparr>))"

definition ParseBitfield :: "peer_message \<Rightarrow> peer_state \<Rightarrow> (peer_error + unit) \<times> peer_state" where
  "ParseBitfield msg p =
     (if m_ID msg \<noteq> 5 then (Inl (ExpectedBitfield (m_ID msg)), p) else (Inr (), p\<lparr>p_BitField := m_Payload msg\<rparr>))"

section \<open>Serving requests\<close>

definition HandleRequest :: "bytes \<Rightarrow> peer_state \<Rightarrow> (bool \<times> peer_state) option" where
  "HandleRequest payload p =
     (case p_BlockServer p of
        None \<Rightarrow> Some (True, p)
      | Some GetBlock \<Rightarrow>
          if p_AmChoking p \<or> length payload < 12 then Some (True, p)
          else (let index = the (get32 payload); begin = the (get32 (drop 4 payload)); len = the (get32 (drop 8 payload))
                in if len > 131072 then Some (True, p)
                   else (case GetBlock (uint index) begin len of
                           None \<Rightarrow> None
                         | Some None \<Rightarrow> Some (True, p)
                         | Some (Some block) \<Rightarrow> SendOnly 7 (be32 index @ be32 begin @ block) p)))"

definition SendPEX :: "pex_message \<Rightarrow> peer_state \<Rightarrow> ((peer_error + unit) \<times> peer_state) option" where
  "SendPEX msg p =
     (if p_UtPexID p = 0 then Some (Inr (), p)
      else case EncodePEXMessage msg of
             None \<Rightarrow> None
           | Some (Inl _) \<Rightarrow> Some (Inl PexEncode, p)
           | Some (Inr encoded) \<Rightarrow>
               map_option (\<lambda>(ok, p). (if ok then Inr () else Inl WriteError, p))
                 (SendOnly 20 (word_of_int (p_UtPexID p) # encoded) p))"

definition HandleExtension :: "bytes \<Rightarrow> peer_state \<Rightarrow> peer_state" where
  "HandleExtension payload p =
     (if length payload < 2 then p
      else if hd payload = 2 \<and> p_OnPEX p then
        (case ParsePEXMessage (tl payload) of
           Inl _ \<Rightarrow> p
         | Inr msg \<Rightarrow> p\<lparr>p_pex_received := p_pex_received p @ [msg]\<rparr>)
      else p)"

definition on_have :: "bytes \<Rightarrow> peer_state \<Rightarrow> peer_state" where
  "on_have payload p =
     (if length payload \<ge> 4 then p\<lparr>p_BitField := SetPiece (p_BitField p) (uint (the (get32 payload)))\<rparr> else p)"

section \<open>What reading and writing leave alone\<close>

lemma get32_total: "4 \<le> length b \<Longrightarrow> \<exists>v. get32 b = Some v"
  by (cases b rule: get32.cases) auto

lemma read_full_in: "read_full n c = (r, c') \<Longrightarrow> length (c_in c') \<le> length (c_in c)
    \<and> (r \<noteq> None \<longrightarrow> length (c_in c') + n = length (c_in c))"
  by (auto simp: read_full_def split: if_splits)

lemma ReadMessage_less: "ReadMessage c = (Inr m, c') \<Longrightarrow> length (c_in c') < length (c_in c)"
  by (auto simp: ReadMessage_def Let_def split: prod.splits option.splits if_splits dest!: read_full_in)

lemma read_message_less [simp]: "read_message p = (Inr m, p') \<Longrightarrow> length (c_in (p_Conn p')) < length (c_in (p_Conn p))"
  by (auto simp: read_message_def split: prod.splits dest: ReadMessage_less)

lemma write_bytes_in [simp]: "write_bytes b p = (ok, p') \<Longrightarrow> c_in (p_Conn p') = c_in (p_Conn p)"
  by (auto simp: write_bytes_def conn_write_def split: if_splits)

lemma SendOnly_in [simp]: "SendOnly i b p = Some (ok, p') \<Longrightarrow> c_in (p_Conn p') = c_in (p_Conn p)"
  by (auto simp: SendOnly_def)

lemma HandleRequest_in [simp]: "HandleRequest b p = Some (ok, p') \<Longrightarrow> c_in (p_Conn p') = c_in (p_Conn p)"
  by (auto simp: HandleRequest_def Let_def split: option.splits if_splits)

lemma HandleExtension_conn [simp]: "p_Conn (HandleExtension b p) = p_Conn p"
  by (simp add: HandleExtension_def split: sum.split)

lemma on_have_conn [simp]: "p_Conn (on_have b p) = p_Conn p"
  by (simp add: on_have_def)

section \<open>Waiting for an unchoke\<close>

function WaitForUnchoke :: "peer_state \<Rightarrow> ((peer_error + unit) \<times> peer_state) option" where
  "WaitForUnchoke p =
     (case read_message p of
        (Inl e, p) \<Rightarrow> Some (Inl (UnchokeWait e), p)
      | (Inr msg, p) \<Rightarrow>
          if IsKeepAlive msg then WaitForUnchoke p
          else if m_ID msg = 1 then Some (Inr (), p\<lparr>p_Choked := False\<rparr>)
          else if m_ID msg = 0 then WaitForUnchoke (p\<lparr>p_Choked := True\<rparr>)
          else if m_ID msg = 4 then WaitForUnchoke (on_have (m_Payload msg) p)
          else if m_ID msg = 5 then WaitForUnchoke (p\<lparr>p_BitField := m_Payload msg\<rparr>)
          else if m_ID msg = 6 then
            (case HandleRequest (m_Payload msg) p of None \<Rightarrow> None | Some (_, p) \<Rightarrow> WaitForUnchoke p)
          else if m_ID msg = 20 then WaitForUnchoke (HandleExtension (m_Payload msg) p)
          else WaitForUnchoke p)"
  by pat_completeness auto

termination WaitForUnchoke
  by (relation "measure (\<lambda>p. length (c_in (p_Conn p)))") (auto dest!: sym [of _ "read_message _"])

end
