(* ===== verification/BlockTransfer.thy ===== *)
theory BlockTransfer
  imports PeerWire
begin

text \<open>
  Downloading a piece from a peer (\<open>getBlocks\<close>, \<open>cancelInFlight\<close> and \<open>GetPiece\<close> of
  \<open>internal/peer/peer.go\<close>) and what the peer at the other end does with the requests.
  \<open>cancel k\<close> is whether the cancel channel is found closed in the \<open>k\<close>-th iteration of the loop.
\<close>

record BlockRequest =
  br_Index :: u32
  br_Begin :: u32
  br_Length :: u32

definition BlockSize :: u32 where "BlockSize = 16384"
definition MaxPipelineRequests :: nat where "MaxPipelineRequests = 5"

definition request_payload :: "BlockRequest \<Rightarrow> bytes" where
  "request_payload r = be32 (br_Index r) @ be32 (br_Begin r) @ be32 (br_Length r)"

definition constructPieceRequest :: "BlockRequest \<Rightarrow> bytes" where
  "constructPieceRequest r = be32 13 @ 6 # request_payload r"

definition SendRequest :: "BlockRequest \<Rightarrow> peer_state \<Rightarrow> ((peer_error + peer_message) \<times> peer_state) option" where
  "SendRequest r = SendMessage 6 (request_payload r)"

definition SendCancel :: "BlockRequest \<Rightarrow> peer_state \<Rightarrow> (bool \<times> peer_state) option" where
  "SendCancel r = SendOnly 8 (request_payload r)"

fun cancelInFlight :: "BlockRequest list \<Rightarrow> peer_state \<Rightarrow> peer_state option" where
  "cancelInFlight [] p = Some p"
| "cancelInFlight (r # rs) p =
     (case SendCancel r p of
        None \<Rightarrow> None
      | Some (False, p) \<Rightarrow> Some p
      | Some (True, p) \<Rightarrow> cancelInFlight rs p)"

text \<open>The inner loop: \<open>rs\<close> are the requests not sent yet, \<open>inflight\<close> those sent and not answered.\<close>

fun send_requests :: "BlockRequest list \<Rightarrow> nat \<Rightarrow> peer_state \<Rightarrow> (peer_error + nat) \<times> peer_state" where
  "send_requests [] inflight p = (Inr 0, p)"
| "send_requests (r # rs) inflight p =
     (if inflight < MaxPipelineRequests then
        (case write_bytes (constructPieceRequest r) p of
           (False, p) \<Rightarrow> (Inl WriteError, p)
         | (True, p) \<Rightarrow>
             (case send_requests rs (inflight + 1) p of
                (Inl e, p) \<Rightarrow> (Inl e, p)
              | (Inr n, p) \<Rightarrow> (Inr (n + 1), p)))
      else (Inr 0, p))"

lemma send_requests_in: "send_requests rs i p = (r, p') \<Longrightarrow> c_in (p_Conn p') = c_in (p_Conn p)"
  by (induction rs i p arbitrary: r p' rule: send_requests.induct)
    (auto split: if_splits prod.splits bool.splits sum.splits)

text \<open>The outer loop; \<open>blocks\<close> are the blocks received, so \<open>length blocks\<close> is \<open>received\<close>.\<close>

function get_blocks :: "BlockRequest list \<Rightarrow> (nat \<Rightarrow> bool) \<Rightarrow> nat \<Rightarrow> nat \<Rightarrow> bytes list \<Rightarrow> peer_state
    \<Rightarrow> ((peer_error + bytes list) \<times> peer_state) option" where
  "get_blocks requests cancel k requested blocks p =
     (if length blocks \<ge> length requests then Some (Inr blocks, p)
      else if cancel k then
        map_option (\<lambda>p. (Inl ErrPieceCancelled, p)) (cancelInFlight (drop (length blocks) (take requested requests)) p)
      else
        (case send_requests (drop requested requests) (requested - length blocks) p of
           (Inl e, p) \<Rightarrow> Some (Inl e, p)
         | (Inr n, p) \<Rightarrow>
             (case read_message p of
                (Inl e, p) \<Rightarrow> Some (Inl e, p)
              | (Inr msg, p) \<Rightarrow>
                  if IsKeepAlive msg then get_blocks requests cancel (k + 1) (requested + n) blocks p
                  else if m_ID msg = 7 then
                    (if length (m_Payload msg) < 8 then Some (Inl PiecePayloadTooShort, p)
                     else get_blocks requests cancel (k + 1) (requested + n) (blocks @ [drop 8 (m_Payload msg)]) p)
                  else if m_ID msg = 0 then Some (Inl ErrChoked, p\<lparr>p_Choked := True\<rparr>)
                  else if m_ID msg = 1 then get_blocks requests cancel (k + 1) (requested + n) blocks (p\<lparr>p_Choked := False\<rparr>)
                  else if m_ID msg = 4 then get_blocks requests cancel (k + 1) (requested + n) blocks (on_have (m_Payload msg) p)
                  else if m_ID msg = 6 then
                    (case HandleRequest (m_Payload msg) p of
                       None \<Rightarrow> None
                     | Some (_, p) \<Rightarrow> get_blocks requests cancel (k + 1) (requested + n) blocks p)
                  else if m_ID msg = 20 then
                    get_blocks requests cancel (k + 1) (requested + n) blocks (HandleExtension (m_Payload msg) p)
                  else get_blocks requests cancel (k + 1) (requested + n) blocks p)))"
  by pat_completeness auto

lemma read_after_send:
  "send_requests rs i p = (Inr n, p1) \<Longrightarrow> read_message p1 = (Inr m, p2) \<Longrightarrow> length (c_in (p_Conn p2)) < length (c_in (p_Conn p))"
  using read_message_less send_requests_in by metis

termination get_blocks
  by (relation "measure (\<lambda>(requests, cancel, k, requested, blocks, p). length (c_in (p_Conn p)))")
    (auto dest!: sym [of _ "read_message _"] sym [of _ "send_requests _ _ _"] dest: read_after_send)

declare get_blocks.simps [simp del]

definition getBlocks :: "BlockRequest list \<Rightarrow> (nat \<Rightarrow> bool) \<Rightarrow> peer_state \<Rightarrow> ((peer_error + bytes list) \<times> peer_state) option" where
  "getBlocks requests cancel p = get_blocks requests cancel 0 0 [] p"

text \<open>The requests of a piece, in Go's 32-bit arithmetic.\<close>

function block_requests :: "u32 \<Rightarrow> u32 \<Rightarrow> u32 \<Rightarrow> BlockRequest list" where
  "block_requests pieceIndex begin remaining =
     (if remaining > 0 then
        (let blockLen = (if remaining < BlockSize then remaining else BlockSize)
         in \<lparr>br_Index = pieceIndex, br_Begin = begin, br_Length = blockLen\<rparr>
              # block_requests pieceIndex (begin + blockLen) (remaining - blockLen))
      else [])"
  by pat_completeness auto

termination block_requests
proof (relation "measure (\<lambda>(i, b, r). unat r)")
  fix r :: u32 and x :: u32
  assume r: "0 < r" "x = (if r < BlockSize then r else BlockSize)"
  then have x: "x \<le> r" "unat x \<noteq> 0" "unat r \<noteq> 0" by (auto simp: BlockSize_def unat_eq_zero)
  then show "((i, b + x, r - x), (i, b, r)) \<in> measure (\<lambda>(i, b, r). unat r)" for i b :: u32
    by (simp add: unat_sub)
qed simp

declare block_requests.simps [simp del]

definition HashPiece :: "bytes \<Rightarrow> bytes" where
  "HashPiece piece = sha1 piece"

definition GetPiece :: "bytes \<Rightarrow> u32 \<Rightarrow> u32 \<Rightarrow> (nat \<Rightarrow> bool) \<Rightarrow> peer_state
    \<Rightarrow> ((peer_error + bytes) \<times> peer_state) option" where
  "GetPiece pieceHash pieceLength pieceIndex cancel p =
     (case getBlocks (block_requests pieceIndex 0 pieceLength) cancel p of
        None \<Rightarrow> None
      | Some (Inl e, p) \<Rightarrow> Some (Inl e, p)
      | Some (Inr blocks, p) \<Rightarrow>
          (let piece = concat blocks
           in Some (if HashPiece piece \<noteq> pieceHash then Inl InvalidPieceHash else Inr piece, p)))"

section \<open>Framing\<close>

definition small :: "bytes \<Rightarrow> bool" where
  "small payload \<longleftrightarrow> int (length payload) < 2 ^ 32 - 5"

lemma unat_small: "n < 2 ^ 32 \<Longrightarrow> unat (of_nat n :: u32) = n"
  by (simp add: unat_of_nat take_bit_nat_eq_self)

lemma frame_small:
  assumes "small payload"
  shows "frame i payload = Some (be32 (of_nat (length payload + 1)) @ i # payload)"
proof -
  let ?l = "of_nat (length payload + 1) :: u32"
  have l: "length payload + 1 < 2 ^ 32" "4 + (length payload + 1) < 2 ^ 32" using assms by (simp_all add: small_def)
  have u: "unat ?l = length payload + 1" using l(1) by (rule unat_small)
  have "unat (4 + ?l) = 4 + (length payload + 1)"
    using l(2) u by (subst unat_add_lem [THEN iffD1]) simp_all
  then show ?thesis by (simp add: frame_def Let_def)
qed

lemma read_full_append: "length a = n \<Longrightarrow> read_full n (c\<lparr>c_in := a @ b\<rparr>) = (Some a, c\<lparr>c_in := b\<rparr>)"
  by (simp add: read_full_def)

lemma read_full_append': "c_in c = a @ b \<Longrightarrow> length a = n \<Longrightarrow> read_full n c = (Some a, c\<lparr>c_in := b\<rparr>)"
  by (simp add: read_full_def)

lemma ReadMessage_frame:
  assumes "frame i payload = Some f" "small payload" "c_in c = f @ rest"
  shows "ReadMessage c = (Inr \<lparr>m_Length = of_nat (length payload + 1), m_ID = i, m_Payload = payload\<rparr>, c\<lparr>c_in := rest\<rparr>)"
    and "(of_nat (length payload + 1) :: u32) \<noteq> 0"
proof -
  let ?l = "of_nat (length payload + 1) :: u32"
  have l: "length payload + 1 < 2 ^ 32" using assms(2) by (simp add: small_def)
  have u: "unat ?l = length payload + 1" using l by (rule unat_small)
  show z: "?l \<noteq> 0" using u by (metis Suc_eq_plus1 nat.distinct(1) unat_0)
  have c: "c_in c = be32 ?l @ (i # payload) @ rest" using assms frame_small [OF assms(2), of i] by simp
  have r1: "read_full 4 c = (Some (be32 ?l), c\<lparr>c_in := (i # payload) @ rest\<rparr>)"
    by (rule read_full_append' [OF c]) simp
  have r2: "read_full (unat ?l) (c\<lparr>c_in := (i # payload) @ rest\<rparr>) = (Some (i # payload), c\<lparr>c_in := rest\<rparr>)"
    unfolding u by (rule read_full_append) simp
  have g: "the (get32 (be32 ?l)) = ?l" using get32_be32 [of ?l "[]"] by simp
  show "ReadMessage c = (Inr \<lparr>m_Length = ?l, m_ID = i, m_Payload = payload\<rparr>, c\<lparr>c_in := rest\<rparr>)"
    unfolding ReadMessage_def r1 prod.case option.case Let_def g r2 using z by simp
qed

lemma read_message_frame:
  assumes "frame i payload = Some f" "small payload" "c_in (p_Conn p) = f @ rest"
  shows "read_message p = (Inr \<lparr>m_Length = of_nat (length payload + 1), m_ID = i, m_Payload = payload\<rparr>,
      p\<lparr>p_Conn := p_Conn p\<lparr>c_in := rest\<rparr>\<rparr>)"
  unfolding read_message_def ReadMessage_frame(1) [OF assms] by simp

lemma constructPieceRequest_frame: "frame 6 (request_payload r) = Some (constructPieceRequest r)" "small (request_payload r)"
proof -
  show s: "small (request_payload r)" by (simp add: small_def request_payload_def)
  show "frame 6 (request_payload r) = Some (constructPieceRequest r)"
    unfolding frame_small [OF s] by (simp add: constructPieceRequest_def request_payload_def)
qed

section \<open>A peer that answers\<close>

text \<open>Messages on their way: their frames one after the other, and the blocks among them.\<close>

definition stream :: "(byte \<times> bytes) list \<Rightarrow> bytes" where
  "stream ms = concat (map (\<lambda>(i, b). the (frame i b)) ms)"

fun blocks_of :: "(byte \<times> bytes) list \<Rightarrow> bytes list" where
  "blocks_of [] = []"
| "blocks_of ((i, b) # ms) = (if i = 7 then drop 8 b # blocks_of ms else blocks_of ms)"

text \<open>No choke, no request and no truncated piece message.\<close>

definition harmless :: "byte \<times> bytes \<Rightarrow> bool" where
  "harmless m \<longleftrightarrow> small (snd m) \<and> fst m \<noteq> 0 \<and> fst m \<noteq> 6 \<and> (fst m = 7 \<longrightarrow> 8 \<le> length (snd m))"

definition wrote :: "bytes list \<Rightarrow> conn \<Rightarrow> conn" where
  "wrote fs c = c\<lparr>c_out := c_out c @ fs, c_writes := c_writes c - length fs\<rparr>"

lemma wrote_simps [simp]:
  "c_in (wrote fs c) = c_in c" "c_out (wrote fs c) = c_out c @ fs" "c_writes (wrote fs c) = c_writes c - length fs"
  "wrote [] c = c" "wrote fs (wrote gs c) = wrote (gs @ fs) c"
  by (simp_all add: wrote_def)

lemma write_bytes_ok: "0 < c_writes (p_Conn p) \<Longrightarrow> write_bytes b p = (True, p\<lparr>p_Conn := wrote [b] (p_Conn p)\<rparr>)"
  by (simp add: write_bytes_def conn_write_def wrote_def)

lemma send_requests_ok:
  assumes "min (length rs) (MaxPipelineRequests - i) \<le> c_writes (p_Conn p)"
  shows "send_requests rs i p = (Inr (min (length rs) (MaxPipelineRequests - i)),
    p\<lparr>p_Conn := wrote (map constructPieceRequest (take (MaxPipelineRequests - i) rs)) (p_Conn p)\<rparr>)"
  using assms
proof (induction rs i p rule: send_requests.induct)
  case (2 r rs i p)
  show ?case
  proof (cases "i < MaxPipelineRequests")
    case True
    then have m: "MaxPipelineRequests - i = Suc (MaxPipelineRequests - Suc i)" by simp
    with 2(2) have w: "write_bytes (constructPieceRequest r) p = (True, p\<lparr>p_Conn := wrote [constructPieceRequest r] (p_Conn p)\<rparr>)"
      by (intro write_bytes_ok) simp
    have "min (length rs) (MaxPipelineRequests - Suc i) \<le> c_writes (p_Conn (p\<lparr>p_Conn := wrote [constructPieceRequest r] (p_Conn p)\<rparr>))"
      using 2(2) m by auto
    with 2(1) [OF True w [symmetric]] True w m show ?thesis by simp
  qed simp
qed simp

lemma get_blocks_stream:
  assumes "c_in (p_Conn p) = stream ms @ rest" "list_all harmless ms"
    and "length blocks + length (blocks_of ms) = length requests" "length blocks \<le> requested" "requested \<le> length requests"
    and "length requests - requested \<le> c_writes (p_Conn p)"
  shows "\<exists>p'. get_blocks requests (\<lambda>_. False) k requested blocks p = Some (Inr (blocks @ blocks_of ms), p')
    \<and> c_out (p_Conn p') = c_out (p_Conn p) @ map constructPieceRequest (drop requested requests)"
  using assms
proof (induction ms arbitrary: k requested blocks p)
  case Nil
  then show ?case by (subst get_blocks.simps) simp
next
  case (Cons m ms)
  obtain i b where m: "m = (i, b)" by (cases m)
  show ?case
  proof (cases "length blocks = length requests")
    case True
    with Cons.prems show ?thesis by (subst get_blocks.simps) auto
  next
    case False
    let ?n = "min (length requests - requested) (MaxPipelineRequests - (requested - length blocks))"
    let ?fs = "map constructPieceRequest (take (MaxPipelineRequests - (requested - length blocks)) (drop requested requests))"
    let ?p1 = "p\<lparr>p_Conn := wrote ?fs (p_Conn p)\<rparr>"
    let ?p2 = "p\<lparr>p_Conn := (wrote ?fs (p_Conn p))\<lparr>c_in := stream ms @ rest\<rparr>\<rparr>"
    let ?msg = "\<lparr>m_Length = of_nat (length b + 1), m_ID = i, m_Payload = b\<rparr>"
    have h: "harmless (i, b)" "list_all harmless ms" using Cons.prems(2) by (simp_all add: m)
    have less: "length blocks < length requests" using False Cons.prems(3) by simp
    have s: "send_requests (drop requested requests) (requested - length blocks) p = (Inr ?n, ?p1)"
      using send_requests_ok [of "drop requested requests" "requested - length blocks" p] Cons.prems(6) by simp
    have sb: "small b" using h(1) by (simp add: harmless_def)
    have f: "frame i b = Some (the (frame i b))" using frame_small [OF sb, of i] by simp
    have "read_message ?p1 = (Inr ?msg, ?p2)"
      using read_message_frame [OF f sb, of ?p1 "stream ms @ rest"] Cons.prems(1) by (simp add: m stream_def)
    moreover have "\<not> IsKeepAlive ?msg"
      using ReadMessage_frame(2) [OF f sb, of "p_Conn p\<lparr>c_in := the (frame i b) @ []\<rparr>" "[]"] by (simp add: IsKeepAlive_def)
    ultimately obtain msg where r: "read_message ?p1 = (Inr msg, ?p2)" "m_ID msg = i" "m_Payload msg = b" and ka: "\<not> IsKeepAlive msg"
      by fastforce
    have out: "?fs @ map constructPieceRequest (drop (requested + ?n) requests) = map constructPieceRequest (drop requested requests)"
    proof -
      have "take (MaxPipelineRequests - (requested - length blocks)) (drop requested requests) = take ?n (drop requested requests)"
        by (simp add: min_def)
      moreover have "take ?n (drop requested requests) @ drop (requested + ?n) requests = drop requested requests"
        by (metis add.commute append_take_drop_id drop_drop)
      ultimately show ?thesis by (metis map_append)
    qed
    have q: "length blocks < requested + ?n" "requested + ?n \<le> length requests"
      using less Cons.prems(4,5) by (auto simp: MaxPipelineRequests_def min_def)
    have w: "length requests - (requested + ?n) \<le> c_writes (p_Conn ?p2)"
      using Cons.prems(6) by (simp add: min_def) arith
    have step: "\<exists>p'. get_blocks requests (\<lambda>_. False) (k + 1) (requested + ?n) bl p3 = Some (Inr (bl @ blocks_of ms), p')
        \<and> c_out (p_Conn p') = c_out (p_Conn p) @ map constructPieceRequest (drop requested requests)"
      if "p_Conn p3 = p_Conn ?p2" "length bl + length (blocks_of ms) = length requests" "length bl \<le> requested + ?n" for bl p3
    proof -
      have "c_in (p_Conn p3) = stream ms @ rest" "length requests - (requested + ?n) \<le> c_writes (p_Conn p3)"
        and c: "c_out (p_Conn p3) = c_out (p_Conn p) @ ?fs" using w by (simp_all add: that(1))
      from Cons.IH [OF this(1) h(2) that(2,3) q(2) this(2), of "k + 1"] show ?thesis
        unfolding c append_assoc out .
    qed
    show ?thesis
    proof (cases "i = 7")
      case True
      then have "get_blocks requests (\<lambda>_. False) k requested blocks p
          = get_blocks requests (\<lambda>_. False) (k + 1) (requested + ?n) (blocks @ [drop 8 b]) ?p2"
        using less h(1) by (subst get_blocks.simps) (simp add: s r ka harmless_def)
      with step [of ?p2 "blocks @ [drop 8 b]"] True Cons.prems(3) q(1) show ?thesis by (simp add: m)
    next
      case False
      define p3 where "p3 = (if i = 1 then ?p2\<lparr>p_Choked := False\<rparr> else if i = 4 then on_have b ?p2
        else if i = 20 then HandleExtension b ?p2 else ?p2)"
      have p3: "p_Conn p3 = p_Conn ?p2" "get_blocks requests (\<lambda>_. False) k requested blocks p
          = get_blocks requests (\<lambda>_. False) (k + 1) (requested + ?n) blocks p3"
        using less h(1) False by (simp add: p3_def, subst get_blocks.simps) (simp add: s r ka harmless_def p3_def)
      show ?thesis unfolding p3(2) using step [OF p3(1), of blocks] False Cons.prems(3) q(1) by (simp add: m)
    qed
  qed
qed

section \<open>The blocks of a piece\<close>

definition block_of :: "bytes \<Rightarrow> BlockRequest \<Rightarrow> bytes" where
  "block_of data r = take (unat (br_Length r)) (drop (unat (br_Begin r)) data)"

text \<open>The requests cut the rest of the piece into blocks of at most 16 KiB that join up.\<close>

lemma block_requests_cover:
  assumes "unat off + unat remaining = length data" "length data < 2 ^ 32"
  shows "concat (map (block_of data) (block_requests i off remaining)) = drop (unat off) data
    \<and> list_all (\<lambda>r. br_Index r = i \<and> 0 < unat (br_Length r) \<and> unat (br_Length r) \<le> 16384
         \<and> unat (br_Begin r) + unat (br_Length r) \<le> length data) (block_requests i off remaining)"
  using assms
proof (induction i off remaining rule: block_requests.induct)
  case (1 i off remaining)
  show ?case
  proof (cases "remaining = 0")
    case True
    with 1(2) show ?thesis by (simp add: block_requests.simps)
  next
    case False
    define x where "x = (if remaining < BlockSize then remaining else BlockSize)"
    have x: "unat x = min (unat remaining) 16384" "0 < unat x"
      using False by (auto simp: x_def BlockSize_def word_less_nat_alt unat_gt_0 min_def unat_eq_zero)
    then have le: "x \<le> remaining" by (simp add: word_le_nat_alt)
    have b: "unat (off + x) = unat off + unat x"
      using 1(2,3) x by (subst unat_add_lem [THEN iffD1]) simp_all
    have r: "unat (remaining - x) = unat remaining - unat x" using le by (simp add: unat_sub)
    have ih: "concat (map (block_of data) (block_requests i (off + x) (remaining - x))) = drop (unat (off + x)) data
      \<and> list_all (\<lambda>r. br_Index r = i \<and> 0 < unat (br_Length r) \<and> unat (br_Length r) \<le> 16384
         \<and> unat (br_Begin r) + unat (br_Length r) \<le> length data) (block_requests i (off + x) (remaining - x))"
      using 1(1) [OF _ x_def] False 1(2,3) b r x by (simp add: word_gt_0)
    have "take (unat x) (drop (unat off) data) @ drop (unat off + unat x) data = drop (unat off) data"
      by (metis add.commute append_take_drop_id drop_drop)
    then show ?thesis
      using ih b x 1(2) False
      by (subst (1 2) block_requests.simps) (simp add: Let_def x_def [symmetric] block_of_def word_gt_0)
  qed
qed

lemma blocks_of_pieces:
  "blocks_of (map (\<lambda>r. (7, be32 (br_Index r) @ be32 (br_Begin r) @ block_of data r)) rs) = map (block_of data) rs"
  by (induction rs) simp_all

section \<open>Nothing a peer sends makes the download panic\<close>

text \<open>A block server that never panics on a request of the size \<open>HandleRequest\<close> lets through.\<close>

definition safe_server :: "peer_state \<Rightarrow> bool" where
  "safe_server p \<longleftrightarrow> (\<forall>gb. p_BlockServer p = Some gb \<longrightarrow>
     (\<forall>i b l. \<not> l > 131072 \<longrightarrow> (\<exists>r. gb i b l = Some r \<and> (\<forall>x. r = Some x \<longrightarrow> length x \<le> unat l))))"

lemma server_frame [simp]:
  "read_message p = (r, p') \<Longrightarrow> p_BlockServer p' = p_BlockServer p"
  "write_bytes b p = (ok, p') \<Longrightarrow> p_BlockServer p' = p_BlockServer p"
  "p_BlockServer (on_have b p) = p_BlockServer p" "p_BlockServer (HandleExtension b p) = p_BlockServer p"
  by (auto simp: read_message_def write_bytes_def on_have_def HandleExtension_def split: prod.splits sum.splits)

lemma safe_server_frame:
  "safe_server p \<Longrightarrow> read_message p = (r, p') \<Longrightarrow> safe_server p'"
  "safe_server p \<Longrightarrow> safe_server (on_have b p)" "safe_server p \<Longrightarrow> safe_server (HandleExtension b p)"
  "safe_server p \<Longrightarrow> safe_server (p\<lparr>p_Choked := c\<rparr>)"
  by (simp_all add: safe_server_def)

lemma SendOnly_total: "small b \<Longrightarrow> \<exists>ok p'. SendOnly i b p = Some (ok, p') \<and> p_BlockServer p' = p_BlockServer p"
  by (cases "write_bytes (be32 (of_nat (length b + 1)) @ i # b) p") (simp add: SendOnly_def frame_small)

lemma send_requests_server: "send_requests rs i p = (r, p') \<Longrightarrow> p_BlockServer p' = p_BlockServer p"
  by (induction rs i p arbitrary: r p' rule: send_requests.induct)
    (auto split: if_splits prod.splits bool.splits sum.splits)

lemma HandleRequest_total:
  assumes "safe_server p"
  shows "\<exists>ok p'. HandleRequest b p = Some (ok, p') \<and> safe_server p'"
proof (cases "p_BlockServer p")
  case (Some gb)
  let ?i = "the (get32 b)" and ?b = "the (get32 (drop 4 b))" and ?l = "the (get32 (drop 8 b))"
  show ?thesis
  proof (cases "p_AmChoking p \<or> length b < 12 \<or> ?l > 131072")
    case False
    have "\<exists>r. gb (uint ?i) ?b ?l = Some r \<and> (\<forall>x. r = Some x \<longrightarrow> length x \<le> unat ?l)"
      using assms Some False unfolding safe_server_def by blast
    then obtain r where r: "gb (uint ?i) ?b ?l = Some r" "\<forall>x. r = Some x \<longrightarrow> length x \<le> unat ?l" by blast
    have h: "HandleRequest b p = (case r of None \<Rightarrow> Some (True, p) | Some x \<Rightarrow> SendOnly 7 (be32 ?i @ be32 ?b @ x) p)"
      unfolding HandleRequest_def Some option.case Let_def using False r(1) by (simp split: option.split)
    show ?thesis
    proof (cases r)
      case None
      with h have "HandleRequest b p = Some (True, p)" by simp
      with assms show ?thesis by blast
    next
      case x: (Some x)
      have "unat ?l \<le> 131072" using False by (simp add: not_less word_le_nat_alt)
      then have "small (be32 ?i @ be32 ?b @ x)" using r(2) x by (simp add: small_def)
      then obtain ok p' where p': "SendOnly 7 (be32 ?i @ be32 ?b @ x) p = Some (ok, p')" "p_BlockServer p' = p_BlockServer p"
        using SendOnly_total by blast
      have "HandleRequest b p = Some (ok, p')" unfolding h x by (simp add: p'(1))
      moreover have "safe_server p'" using assms p'(2) unfolding safe_server_def by simp
      ultimately show ?thesis by blast
    qed
  qed (use assms Some in \<open>auto simp: HandleRequest_def Let_def intro: exI [of _ True]\<close>)
qed (auto simp: HandleRequest_def assms intro: exI [of _ True])

lemma cancelInFlight_total: "\<exists>p'. cancelInFlight rs p = Some p'"
proof (induction rs arbitrary: p)
  case (Cons r rs)
  obtain ok p' where "SendCancel r p = Some (ok, p')"
    using SendOnly_total [of "request_payload r" 8 p] by (auto simp: SendCancel_def small_def request_payload_def)
  with Cons.IH [of p'] show ?case by (cases ok) simp_all
qed simp

lemma get_blocks_total:
  assumes "safe_server p" "length blocks \<le> length requests"
  shows "\<exists>r p'. get_blocks requests cancel k requested blocks p = Some (r, p')
    \<and> (\<forall>bs. r = Inr bs \<longrightarrow> length bs = length requests)"
  using assms
proof (induction "length (c_in (p_Conn p))" arbitrary: k requested blocks p rule: less_induct)
  case less
  show ?case
  proof (cases "length blocks \<ge> length requests \<or> cancel k")
    case True
    then show ?thesis using less.prems cancelInFlight_total [of "drop (length blocks) (take requested requests)" p]
      by (subst get_blocks.simps) auto
  next
    case False
    then have f: "length blocks < length requests" "\<not> cancel k" by simp_all
    obtain r1 p1 where s: "send_requests (drop requested requests) (requested - length blocks) p = (r1, p1)" by force
    have s1: "safe_server p1" using send_requests_server [OF s] less.prems(1) by (simp add: safe_server_def)
    obtain r2 p2 where r: "read_message p1 = (r2, p2)" by force
    have s2: "safe_server p2" using safe_server_frame(1) [OF s1 r] .
    show ?thesis
    proof (cases r1)
      case n: (Inr n)
      show ?thesis
      proof (cases r2)
        case msg: (Inr msg)
        have l: "length (c_in (p_Conn p2)) < length (c_in (p_Conn p))"
          using read_after_send [of "drop requested requests" _ p n p1 msg p2] s r n msg by simp
        obtain ok p3 where h: "HandleRequest (m_Payload msg) p2 = Some (ok, p3)" "safe_server p3"
          using HandleRequest_total [OF s2] by blast
        have ih: "\<exists>r p'. get_blocks requests cancel (k + 1) (requested + n) bl q = Some (r, p')
            \<and> (\<forall>bs. r = Inr bs \<longrightarrow> length bs = length requests)"
          if "c_in (p_Conn q) = c_in (p_Conn p2)" "safe_server q" "length bl \<le> length requests" for bl q
          using less.hyps [of q bl] that l by simp
        show ?thesis
          using f n msg ih [of p2 blocks] ih [of p2 "blocks @ [drop 8 (m_Payload msg)]"] ih [of p3 blocks]
            ih [of "p2\<lparr>p_Choked := False\<rparr>" blocks] ih [of "on_have (m_Payload msg) p2" blocks]
            ih [of "HandleExtension (m_Payload msg) p2" blocks] h HandleRequest_in [OF h(1)]
            safe_server_frame(2-4) [OF s2] s2
          by (subst get_blocks.simps) (simp add: s r)
      qed (use f s r n in \<open>simp add: get_blocks.simps [of requests]\<close>)
    qed (use f s in \<open>simp add: get_blocks.simps [of requests]\<close>)
  qed
qed

section \<open>Properties\<close>

lemma GetPiece_total:
  assumes "safe_server p"
  shows "\<exists>r p'. GetPiece hash len idx cancel p = Some (r, p')
    \<and> (\<forall>piece. r = Inr piece \<longrightarrow> HashPiece piece = hash
        \<and> (\<exists>blocks. length blocks = length (block_requests idx 0 len) \<and> piece = concat blocks))"
proof -
  obtain r p' where g: "getBlocks (block_requests idx 0 len) cancel p = Some (r, p')"
    "\<forall>bs. r = Inr bs \<longrightarrow> length bs = length (block_requests idx 0 len)"
    using get_blocks_total [OF assms, of "[]"] unfolding getBlocks_def by fastforce
  then show ?thesis by (cases r) (auto simp: GetPiece_def Let_def)
qed


definition sample_peer :: "bytes \<Rightarrow> peer_state" where
  "sample_peer input = \<lparr>p_AddrPort = AddrPort (IPv4 [10, 0, 0, 2]) 6881, p_ID = replicate 20 0,
     p_Conn = \<lparr>c_in = input, c_out = [], c_writes = 100\<rparr>, p_Choked = False, p_BitField = [255],
     p_BlockServer = None, p_AmChoking = True, p_UtPexID = 0, p_OnPEX = False, p_pex_received = []\<rparr>"


text \<open>C11: A piece arrives. When a peer answers the requests of a piece in order, with any other
  harmless messages in between, \<open>GetPiece\<close> returns exactly the piece, and it has written exactly the
  requests that cut it into blocks of at most 16 KiB, each once and in order.\<close>

theorem GetPiece_receives:
  assumes "c_in (p_Conn p) = stream ms @ rest" "list_all harmless ms"
    and "blocks_of ms = map (block_of data) (block_requests idx 0 (of_nat (length data)))"
    and "length data < 2 ^ 32" "length (block_requests idx 0 (of_nat (length data))) \<le> c_writes (p_Conn p)"
  shows "\<exists>p'. GetPiece (HashPiece data) (of_nat (length data)) idx (\<lambda>_. False) p = Some (Inr data, p')
    \<and> c_out (p_Conn p') = c_out (p_Conn p) @ map constructPieceRequest (block_requests idx 0 (of_nat (length data)))"
proof -
  let ?rs = "block_requests idx 0 (of_nat (length data))"
  have l: "unat (of_nat (length data) :: u32) = length data" by (rule unat_small [OF assms(4)])
  have "concat (map (block_of data) ?rs) = data"
    using block_requests_cover [of 0 "of_nat (length data)" data idx] l assms(4) by simp
  moreover obtain p' where "getBlocks ?rs (\<lambda>_. False) p = Some (Inr (blocks_of ms), p')"
    "c_out (p_Conn p') = c_out (p_Conn p) @ map constructPieceRequest ?rs"
    using get_blocks_stream [OF assms(1,2), of "[]" ?rs 0 0] assms(3,5) unfolding getBlocks_def by auto
  ultimately show ?thesis by (simp add: GetPiece_def Let_def assms(3))
qed

theorem GetPiece_receives_witness:
  "\<exists>p'. GetPiece (HashPiece [1, 2, 3]) 3 0 (\<lambda>_. False)
      (sample_peer (stream [(4, [0, 0, 0, 1]), (7, replicate 8 0 @ [1, 2, 3])])) = Some (Inr [1, 2, 3], p')"
proof -
  have r: "block_requests 0 0 3 = [\<lparr>br_Index = 0, br_Begin = 0, br_Length = 3\<rparr>]"
    by (simp add: block_requests.simps BlockSize_def)
  let ?ms = "[(4, [0, 0, 0, 1]), (7, replicate 8 0 @ [1, 2, 3])] :: (byte \<times> bytes) list"
  have "\<exists>p'. GetPiece (HashPiece [1, 2, 3]) (of_nat (length [1, 2, 3 :: byte])) 0 (\<lambda>_. False) (sample_peer (stream ?ms)) = Some (Inr [1, 2, 3], p')
      \<and> c_out (p_Conn p') = c_out (p_Conn (sample_peer (stream ?ms))) @ map constructPieceRequest (block_requests 0 0 (of_nat (length [1, 2, 3 :: byte])))"
    by (rule GetPiece_receives [where ms = ?ms and rest = "[]"])
      (simp_all add: r harmless_def small_def block_of_def, simp_all add: sample_peer_def)
  then show ?thesis by auto
qed

end
