(* ===== verification/Handshake.thy ===== *)
theory Handshake
  imports BlockTransfer
begin

text \<open>
  The handshakes of \<open>internal/peer/handshake.go\<close>: the 68-byte opening of a connection on both
  sides and the extension handshake (BEP 10).
\<close>

definition PeerID :: bytes where "PeerID = ascii ''leofeopeoluvsanayeli''"
definition ProtocolString :: bytes where "ProtocolString = ascii ''BitTorrent protocol''"

record handshake =
  h_PstrLen :: byte
  h_Pstr :: bytes
  h_Reserved :: bytes
  h_InfoHash :: bytes
  h_PeerID :: bytes

definition constructHandshakeMessage :: "bytes \<Rightarrow> bool \<Rightarrow> bytes" where
  "constructHandshakeMessage infoHash ext =
     19 # ProtocolString @ (if ext then (replicate 8 0)[5 := 0x10] else replicate 8 0) @ infoHash @ PeerID"

definition constructMagnetHandshakeMessage :: "bytes \<Rightarrow> bytes" where
  "constructMagnetHandshakeMessage infoHash =
     19 # ProtocolString @ (replicate 8 0)[5 := 0x10] @ infoHash @ PeerID"

definition readHandshake :: "conn \<Rightarrow> (peer_error + handshake) \<times> conn" where
  "readHandshake c =
     (case read_full 68 c of
        (None, c) \<Rightarrow> (Inl HandshakeRead, c)
      | (Some buf, c) \<Rightarrow>
          (let h = \<lparr>h_PstrLen = hd buf, h_Pstr = take 19 (drop 1 buf), h_Reserved = take 8 (drop 20 buf),
                 h_InfoHash = take 20 (drop 28 buf), h_PeerID = take 20 (drop 48 buf)\<rparr>
           in if h_PstrLen h \<noteq> 19 \<or> h_Pstr h \<noteq> ProtocolString then (Inl HandshakeInvalid, c)
              else (Inr h, c)))"

definition read_handshake :: "peer_state \<Rightarrow> (peer_error + handshake) \<times> peer_state" where
  "read_handshake p = (case readHandshake (p_Conn p) of (r, c) \<Rightarrow> (r, p\<lparr>p_Conn := c\<rparr>))"

definition client_handshake :: "bytes \<Rightarrow> bool \<Rightarrow> peer_state \<Rightarrow> (peer_error + handshake) \<times> peer_state" where
  "client_handshake infoHash ext p =
     (case write_bytes (constructHandshakeMessage infoHash ext) p of
        (False, p) \<Rightarrow> (Inl WriteError, p)
      | (True, p) \<Rightarrow>
          (case read_handshake p of
             (Inl e, p) \<Rightarrow> (Inl e, p)
           | (Inr h, p) \<Rightarrow>
               if infoHash \<noteq> h_InfoHash h then (Inl HandshakeHash, p)
               else (Inr h, p\<lparr>p_ID := h_PeerID h\<rparr>)))"

definition MagnetHandshake :: "bytes \<Rightarrow> peer_state \<Rightarrow> (peer_error + handshake) \<times> peer_state" where
  "MagnetHandshake infoHash p =
     (case write_bytes (constructMagnetHandshakeMessage infoHash) p of
        (False, p) \<Rightarrow> (Inl WriteError, p)
      | (True, p) \<Rightarrow>
          (case read_handshake p of
             (Inl e, p) \<Rightarrow> (Inl e, p)
           | (Inr h, p) \<Rightarrow>
               if infoHash \<noteq> h_InfoHash h then (Inl HandshakeHash, p)
               else (let p = p\<lparr>p_ID := h_PeerID h\<rparr>
                     in if h_Reserved h ! 5 AND 0x10 = 0 then (Inl NoExtensionSupport, p) else (Inr h, p))))"

text \<open>\<open>ServerHandshake\<close> makes the peer of an accepted connection; \<open>AddrPort\<close> is not set.\<close>

definition accepted_peer :: "conn \<Rightarrow> bytes \<Rightarrow> peer_state" where
  "accepted_peer c i = \<lparr>p_AddrPort = AddrPort NoAddr 0, p_ID = i, p_Conn = c, p_Choked = False, p_BitField = [],
     p_BlockServer = None, p_AmChoking = True, p_UtPexID = 0, p_OnPEX = False, p_pex_received = []\<rparr>"

definition ServerHandshake :: "conn \<Rightarrow> bytes \<Rightarrow> peer_error + (peer_state \<times> handshake)" where
  "ServerHandshake c infoHash =
     (case readHandshake c of
        (Inl e, c) \<Rightarrow> Inl e
      | (Inr h, c) \<Rightarrow>
          if h_InfoHash h \<noteq> infoHash then Inl HandshakeHash
          else (case conn_write (constructHandshakeMessage infoHash True) c of
                  (False, c) \<Rightarrow> Inl WriteError
                | (True, c) \<Rightarrow> Inr (accepted_peer c (h_PeerID h), h)))"

section \<open>The extension handshake\<close>

record ext_response =
  MetadataSize :: int
  UtMetadataID :: int
  UtPexID :: int
  ExtensionMapping :: "(bytes, int) dict"

definition int_entries :: "(bytes, bval) dict \<Rightarrow> (bytes, int) dict" where
  "int_entries m = List.map_filter (\<lambda>(k, v). case v of BInt i \<Rightarrow> Some (k, i) | _ \<Rightarrow> None) m"

definition int_at :: "(bytes, int) dict \<Rightarrow> string \<Rightarrow> int" where
  "int_at m k = (case map_of m (ascii k) of Some i \<Rightarrow> i | None \<Rightarrow> 0)"

text \<open>The payload starts with the sub-identifier; an empty one makes \<open>payload[1:]\<close> panic.\<close>

definition parseExtensionHandshake :: "bytes \<Rightarrow> (peer_error + ext_response) option" where
  "parseExtensionHandshake payload =
     (if payload = [] then None
      else Some (case Decode (tl payload) of
                   Inl e \<Rightarrow> Inl (ExtensionDecode e)
                 | Inr (BDict dict) \<Rightarrow>
                     (let mapping = (case map_of dict (ascii ''m'') of Some (BDict m) \<Rightarrow> int_entries m | _ \<Rightarrow> [])
                      in Inr \<lparr>MetadataSize = (case map_of dict (ascii ''metadata_size'') of Some (BInt n) \<Rightarrow> n | _ \<Rightarrow> 0),
                           UtMetadataID = int_at mapping ''ut_metadata'', UtPexID = int_at mapping ''ut_pex'',
                           ExtensionMapping = mapping\<rparr>)
                 | Inr _ \<Rightarrow> Inl ExtensionNotADict))"

definition extension_payload :: bytes where
  "extension_payload = 0 # ascii ''d1:md11:ut_metadatai1e6:ut_pexi2eee''"

definition ExtensionHandshake :: "peer_state \<Rightarrow> ((peer_error + ext_response) \<times> peer_state) option" where
  "ExtensionHandshake p =
     (case SendMessage 20 extension_payload p of
        None \<Rightarrow> None
      | Some (Inl e, p) \<Rightarrow> Some (Inl e, p)
      | Some (Inr msg, p) \<Rightarrow>
          if m_ID msg \<noteq> 20 then Some (Inl (ExpectedExtension (m_ID msg)), p)
          else map_option (\<lambda>r. (r, p)) (parseExtensionHandshake (m_Payload msg)))"

section \<open>Both sides\<close>

lemma handshake_lengths [simp]:
  "length PeerID = 20" "length ProtocolString = 19"
  "length infoHash = 20 \<Longrightarrow> length (constructHandshakeMessage infoHash ext) = 68"
  by (simp_all add: PeerID_def ProtocolString_def constructHandshakeMessage_def)

lemma magnet_message: "constructMagnetHandshakeMessage h = constructHandshakeMessage h True"
  by (simp add: constructMagnetHandshakeMessage_def constructHandshakeMessage_def)

definition our_handshake :: "bytes \<Rightarrow> bool \<Rightarrow> handshake" where
  "our_handshake infoHash ext = \<lparr>h_PstrLen = 19, h_Pstr = ProtocolString,
     h_Reserved = (if ext then (replicate 8 0)[5 := 0x10] else replicate 8 0), h_InfoHash = infoHash, h_PeerID = PeerID\<rparr>"

lemma readHandshake_ours:
  assumes "length infoHash = 20" "c_in c = constructHandshakeMessage infoHash ext @ rest"
  shows "readHandshake c = (Inr (our_handshake infoHash ext), c\<lparr>c_in := rest\<rparr>)"
proof -
  have r: "read_full 68 c = (Some (constructHandshakeMessage infoHash ext), c\<lparr>c_in := rest\<rparr>)"
    using assms by (intro read_full_append') simp_all
  have "length ((if ext then (replicate 8 0)[5 := 0x10] else replicate 8 0) :: bytes) = 8" by simp
  then show ?thesis
    unfolding readHandshake_def r prod.case option.case Let_def
    using assms(1) by (simp add: constructHandshakeMessage_def our_handshake_def)
qed

text \<open>C21: The handshakes of the two sides fit. What a client of the program sends, with or without
  extensions, is accepted by the server side for the same info hash, which answers; the client
  accepts the answer, learns the server's identifier and sees that it supports extensions; a
  client for any other info hash is turned away. Both sides identify themselves by the same
  constant peer identifier.\<close>

theorem handshakes_fit:
  assumes "length infoHash = 20" "length other = 20" "c_in s = constructHandshakeMessage infoHash ext @ srest" "0 < c_writes s"
    and "c_in (p_Conn p) = constructHandshakeMessage infoHash True @ crest" "0 < c_writes (p_Conn p)"
  shows "(\<exists>q. ServerHandshake s infoHash = Inr (q, our_handshake infoHash ext) \<and> p_ID q = PeerID \<and> p_AmChoking q
        \<and> c_in (p_Conn q) = srest \<and> c_out (p_Conn q) = c_out s @ [constructHandshakeMessage infoHash True])
    \<and> (\<exists>p'. client_handshake infoHash ext p = (Inr (our_handshake infoHash True), p') \<and> p_ID p' = PeerID
        \<and> c_in (p_Conn p') = crest \<and> c_out (p_Conn p') = c_out (p_Conn p) @ [constructHandshakeMessage infoHash ext])
    \<and> (other \<noteq> infoHash \<longrightarrow> ServerHandshake s other = Inl HandshakeHash)
    \<and> h_Reserved (our_handshake infoHash True) ! 5 AND 0x10 \<noteq> 0"
proof -
  have h: "h_InfoHash (our_handshake infoHash e) = infoHash" "h_PeerID (our_handshake infoHash e) = PeerID" for e
    by (simp_all add: our_handshake_def)
  note s = readHandshake_ours [OF assms(1,3)]
  let ?p = "p\<lparr>p_Conn := wrote [constructHandshakeMessage infoHash ext] (p_Conn p)\<rparr>"
  have "c_in (p_Conn ?p) = constructHandshakeMessage infoHash True @ crest" using assms(5) by simp
  note r = readHandshake_ours [OF assms(1) this]
  show ?thesis
    using assms(4) by (simp add: ServerHandshake_def client_handshake_def read_handshake_def s r [simplified]
        write_bytes_ok [OF assms(6)] h conn_write_def accepted_peer_def) (simp add: our_handshake_def)
qed

theorem handshakes_fit_witness:
  "\<exists>q. ServerHandshake \<lparr>c_in = constructHandshakeMessage (replicate 20 1) True, c_out = [], c_writes = 1\<rparr> (replicate 20 1)
     = Inr (q, our_handshake (replicate 20 1) True)"
  using handshakes_fit [of "replicate 20 1" "replicate 20 2" "\<lparr>c_in = constructHandshakeMessage (replicate 20 1) True, c_out = [], c_writes = 1\<rparr>"
      True "[]" "sample_peer (constructHandshakeMessage (replicate 20 1) True)" "[]"]
  by (auto simp: sample_peer_def)

end
