(* ===== verification/DiskStore.thy ===== *)
theory DiskStore
  imports Prelude
begin

text \<open>
  \<open>internal/storage/disk_store.go\<close>: pieces in one file each, and a bit field file with one byte
  per piece that is replaced by renaming a temporary file over it. The files of the store's
  directory are a map; how a write or a rename ends is an argument: a failed write may leave
  anything in its file, a rename happens or not. A crash is a call in which an operation fails
  and whose result is never seen.
\<close>

datatype store_file = PieceFile nat | BitfieldFile | BitfieldTmp

type_synonym files = "store_file \<Rightarrow> bytes option"

record disk_store =
  ds_numPieces :: nat
  ds_pieceLen :: int
  ds_totalLen :: int
  ds_bitfield :: "bool list"
  ds_files :: files

text \<open>\<open>Done\<close>, or \<open>Failed\<close> with what is left in the file.\<close>

datatype io = Done | Failed "bytes option"

record write_io =
  io_piece :: io
  io_tmp :: io
  io_rename :: bool

datatype store_error = PieceOutOfRange | WriteFailed | BitfieldWriteFailed | RenameFailed | PieceNotAvailable | ReadFailed
  | CreateDirFailed

definition write_file :: "store_file \<Rightarrow> bytes \<Rightarrow> io \<Rightarrow> files \<Rightarrow> bool \<times> files" where
  "write_file f data res fs = (case res of Done \<Rightarrow> (True, fs(f \<mapsto> data)) | Failed left \<Rightarrow> (False, fs(f := left)))"

definition loadBitfield :: "disk_store \<Rightarrow> disk_store" where
  "loadBitfield ds =
     (case ds_files ds BitfieldFile of
        None \<Rightarrow> ds
      | Some data \<Rightarrow>
          (let n = min (length data) (ds_numPieces ds)
           in ds\<lparr>ds_bitfield := map (\<lambda>b. b = 1) (take n data) @ drop n (ds_bitfield ds)\<rparr>))"

text \<open>\<open>made\<close>: whether the directory could be created.\<close>

definition NewDiskStore :: "bool \<Rightarrow> files \<Rightarrow> nat \<Rightarrow> int \<Rightarrow> int \<Rightarrow> store_error + disk_store" where
  "NewDiskStore made fs numPieces pieceLen totalLen =
     (if \<not> made then Inl CreateDirFailed
      else Inr (loadBitfield \<lparr>ds_numPieces = numPieces, ds_pieceLen = pieceLen, ds_totalLen = totalLen,
        ds_bitfield = replicate numPieces False, ds_files = fs\<rparr>))"

definition saveBitfield :: "write_io \<Rightarrow> disk_store \<Rightarrow> (store_error + unit) \<times> disk_store" where
  "saveBitfield res ds =
     (let buf = map (\<lambda>has. if has then 1 else 0) (ds_bitfield ds)
      in case write_file BitfieldTmp buf (io_tmp res) (ds_files ds) of
           (False, fs) \<Rightarrow> (Inl BitfieldWriteFailed, ds\<lparr>ds_files := fs\<rparr>)
         | (True, fs) \<Rightarrow>
             if io_rename res then (Inr (), ds\<lparr>ds_files := fs(BitfieldFile := fs BitfieldTmp, BitfieldTmp := None)\<rparr>)
             else (Inl RenameFailed, ds\<lparr>ds_files := fs\<rparr>))"

definition WritePiece :: "write_io \<Rightarrow> int \<Rightarrow> bytes \<Rightarrow> disk_store \<Rightarrow> (store_error + unit) \<times> disk_store" where
  "WritePiece res index data ds =
     (if index < 0 \<or> index \<ge> int (ds_numPieces ds) then (Inl PieceOutOfRange, ds)
      else (case write_file (PieceFile (nat index)) data (io_piece res) (ds_files ds) of
              (False, fs) \<Rightarrow> (Inl WriteFailed, ds\<lparr>ds_files := fs\<rparr>)
            | (True, fs) \<Rightarrow>
                saveBitfield res (ds\<lparr>ds_files := fs, ds_bitfield := (ds_bitfield ds)[nat index := True]\<rparr>)))"

definition ReadPiece :: "int \<Rightarrow> disk_store \<Rightarrow> store_error + bytes" where
  "ReadPiece index ds =
     (if index < 0 \<or> index \<ge> int (ds_numPieces ds) then Inl PieceOutOfRange
      else if \<not> ds_bitfield ds ! nat index then Inl PieceNotAvailable
      else case ds_files ds (PieceFile (nat index)) of None \<Rightarrow> Inl ReadFailed | Some data \<Rightarrow> Inr data)"

definition DiskHasPiece :: "int \<Rightarrow> disk_store \<Rightarrow> bool" where
  "DiskHasPiece index ds \<longleftrightarrow> 0 \<le> index \<and> index < int (ds_numPieces ds) \<and> ds_bitfield ds ! nat index"

definition DiskCompleted :: "disk_store \<Rightarrow> bool list" where
  "DiskCompleted ds = take (ds_numPieces ds) (ds_bitfield ds) @ replicate (ds_numPieces ds - length (ds_bitfield ds)) False"

section \<open>What is on the disk\<close>

text \<open>
  \<open>good i data\<close> says which bytes are good for a piece. Marked pieces have good files, in memory
  and, through the bit field file, after a restart.
\<close>

definition disk_ok :: "(nat \<Rightarrow> bytes \<Rightarrow> bool) \<Rightarrow> disk_store \<Rightarrow> bool" where
  "disk_ok good ds \<longleftrightarrow> length (ds_bitfield ds) = ds_numPieces ds
     \<and> (\<forall>i < ds_numPieces ds. ds_bitfield ds ! i \<longrightarrow> (\<exists>d. ds_files ds (PieceFile i) = Some d \<and> good i d))
     \<and> (\<forall>data i. ds_files ds BitfieldFile = Some data \<longrightarrow> i < length data \<longrightarrow> i < ds_numPieces ds \<longrightarrow> data ! i = 1
          \<longrightarrow> ds_bitfield ds ! i)"

text \<open>The pieces a restart would find.\<close>

definition persisted :: "disk_store \<Rightarrow> nat \<Rightarrow> bool" where
  "persisted ds i \<longleftrightarrow> (\<exists>data. ds_files ds BitfieldFile = Some data \<and> i < length data \<and> i < ds_numPieces ds \<and> data ! i = 1)"

lemma saveBitfield_ok:
  assumes "disk_ok good ds"
  shows "disk_ok good (snd (saveBitfield res ds)) \<and> ds_bitfield (snd (saveBitfield res ds)) = ds_bitfield ds
    \<and> ds_numPieces (snd (saveBitfield res ds)) = ds_numPieces ds
    \<and> (\<forall>i. ds_files (snd (saveBitfield res ds)) (PieceFile i) = ds_files ds (PieceFile i))
    \<and> (fst (saveBitfield res ds) = Inr () \<longrightarrow> (\<forall>i. persisted (snd (saveBitfield res ds)) i \<longleftrightarrow> i < ds_numPieces ds \<and> ds_bitfield ds ! i))
    \<and> (fst (saveBitfield res ds) \<noteq> Inr () \<longrightarrow> (\<forall>i. persisted (snd (saveBitfield res ds)) i \<longleftrightarrow> persisted ds i))"
  using assms by (auto simp: saveBitfield_def write_file_def Let_def disk_ok_def persisted_def split: io.split if_splits)

text \<open>A write on the branch it takes: out of range, the piece's file fails, or the bit is set and saved.\<close>

lemma WritePiece_cases:
  obtains (range) "index < 0 \<or> int (ds_numPieces ds) \<le> index" "WritePiece res index data ds = (Inl PieceOutOfRange, ds)"
  | (failed) left where "0 \<le> index" "index < int (ds_numPieces ds)"
      "WritePiece res index data ds = (Inl WriteFailed, ds\<lparr>ds_files := (ds_files ds)(PieceFile (nat index) := left)\<rparr>)"
  | (written) "0 \<le> index" "index < int (ds_numPieces ds)"
      "WritePiece res index data ds = saveBitfield res (ds\<lparr>ds_files := (ds_files ds)(PieceFile (nat index) \<mapsto> data),
         ds_bitfield := (ds_bitfield ds)[nat index := True]\<rparr>)"
  by (cases "io_piece res"; cases "index < 0 \<or> int (ds_numPieces ds) \<le> index") (auto simp: WritePiece_def write_file_def)

lemma WritePiece_ok:
  assumes "disk_ok good ds" "0 \<le> index \<longrightarrow> good (nat index) data" "\<not> DiskHasPiece index ds"
  shows "disk_ok good (snd (WritePiece res index data ds)) \<and> ds_numPieces (snd (WritePiece res index data ds)) = ds_numPieces ds"
    and "fst (WritePiece res index data ds) = Inr () \<Longrightarrow>
      ds_files (snd (WritePiece res index data ds)) (PieceFile (nat index)) = Some data
      \<and> DiskHasPiece index (snd (WritePiece res index data ds)) \<and> persisted (snd (WritePiece res index data ds)) (nat index)"
    and "DiskHasPiece i ds \<Longrightarrow> DiskHasPiece i (snd (WritePiece res index data ds))
      \<and> ds_files (snd (WritePiece res index data ds)) (PieceFile (nat i)) = ds_files ds (PieceFile (nat i))"
    and "persisted ds k \<Longrightarrow> persisted (snd (WritePiece res index data ds)) k"
proof -
  let ?r = "WritePiece res index data ds"
  let ?ds = "ds\<lparr>ds_files := (ds_files ds)(PieceFile (nat index) \<mapsto> data), ds_bitfield := (ds_bitfield ds)[nat index := True]\<rparr>"
  have "disk_ok good (snd ?r) \<and> ds_numPieces (snd ?r) = ds_numPieces ds
    \<and> (fst ?r = Inr () \<longrightarrow> ds_files (snd ?r) (PieceFile (nat index)) = Some data
        \<and> DiskHasPiece index (snd ?r) \<and> persisted (snd ?r) (nat index))
    \<and> (DiskHasPiece i ds \<longrightarrow> DiskHasPiece i (snd ?r) \<and> ds_files (snd ?r) (PieceFile (nat i)) = ds_files ds (PieceFile (nat i)))
    \<and> (persisted ds k \<longrightarrow> persisted (snd ?r) k)"
  proof (cases rule: WritePiece_cases [of index ds res data, case_names range failed written])
    case range
    then show ?thesis using assms(1) by simp
  next
    case (failed left)
    then have "\<not> ds_bitfield ds ! nat index" using assms(3) by (simp add: DiskHasPiece_def)
    then show ?thesis unfolding failed(3) using assms(1) by (auto simp: disk_ok_def DiskHasPiece_def persisted_def)
  next
    case written
    have ok: "disk_ok good ?ds" using assms(1,2) written(1,2) by (auto simp: disk_ok_def nth_list_update)
    have p: "persisted ?ds k \<longleftrightarrow> persisted ds k" by (simp add: persisted_def)
    have len: "nat index < length (ds_bitfield ds)" using assms(1) written(1,2) by (simp add: disk_ok_def)
    have b: "persisted ds k \<Longrightarrow> k < ds_numPieces ds \<and> ds_bitfield ds ! k"
      using assms(1) by (auto simp: persisted_def disk_ok_def)
    have k: "k < length (ds_bitfield ds) \<Longrightarrow> ds_bitfield ds ! k \<Longrightarrow> (ds_bitfield ds)[nat index := True] ! k" for k
      by (cases "k = nat index") simp_all
    have i: "DiskHasPiece i ds \<Longrightarrow> i \<noteq> index" using assms(3) by auto
    note s = saveBitfield_ok [OF ok, of res]
    show ?thesis
      unfolding written(3)
    proof (intro conjI impI)
      show "persisted (snd (saveBitfield res ?ds)) k" if "persisted ds k"
        using s p b [OF that] that k [of k] assms(1) by (cases "fst (saveBitfield res ?ds) = Inr ()") (auto simp: disk_ok_def)
      show "DiskHasPiece i (snd (saveBitfield res ?ds))" if "DiskHasPiece i ds"
      proof -
        have "nat i < length (ds_bitfield ds)" "ds_bitfield ds ! nat i"
          using that assms(1) by (auto simp: DiskHasPiece_def disk_ok_def)
        then show ?thesis using s that k [of "nat i"] by (simp add: DiskHasPiece_def)
      qed
      show "ds_files (snd (saveBitfield res ?ds)) (PieceFile (nat i)) = ds_files ds (PieceFile (nat i))" if "DiskHasPiece i ds"
        using s that i [OF that] written(1) by (auto simp: DiskHasPiece_def)
    qed (use s written(1,2) len in \<open>auto simp: DiskHasPiece_def\<close>)
  qed
  then show "disk_ok good (snd ?r) \<and> ds_numPieces (snd ?r) = ds_numPieces ds"
    and "fst ?r = Inr () \<Longrightarrow> ds_files (snd ?r) (PieceFile (nat index)) = Some data
      \<and> DiskHasPiece index (snd ?r) \<and> persisted (snd ?r) (nat index)"
    and "DiskHasPiece i ds \<Longrightarrow> DiskHasPiece i (snd ?r) \<and> ds_files (snd ?r) (PieceFile (nat i)) = ds_files ds (PieceFile (nat i))"
    and "persisted ds k \<Longrightarrow> persisted (snd ?r) k" by blast+
qed

lemma saveBitfield_frame:
  "ds_bitfield (snd (saveBitfield res ds)) = ds_bitfield ds" "ds_numPieces (snd (saveBitfield res ds)) = ds_numPieces ds"
  by (auto simp: saveBitfield_def write_file_def Let_def split: io.split)

lemma WritePiece_new:
  assumes "DiskHasPiece j (snd (WritePiece res index data ds))"
  shows "j = index \<or> DiskHasPiece j ds"
proof (cases rule: WritePiece_cases [of index ds res data, case_names range failed written])
  case written
  have "nat j = nat index \<Longrightarrow> 0 \<le> j \<Longrightarrow> j = index" using written(1) by simp
  then show ?thesis using assms unfolding written(3) by (fastforce simp: DiskHasPiece_def saveBitfield_frame nth_list_update)
qed (use assms in \<open>simp_all add: DiskHasPiece_def\<close>)

lemma NewDiskStore_ok:
  assumes "disk_ok good ds" "NewDiskStore True (ds_files ds) (ds_numPieces ds) plen totlen = Inr ds'"
  shows "disk_ok good ds' \<and> ds_files ds' = ds_files ds \<and> ds_numPieces ds' = ds_numPieces ds
    \<and> (DiskHasPiece i ds' \<longleftrightarrow> 0 \<le> i \<and> persisted ds (nat i))"
proof (cases "ds_files ds BitfieldFile")
  case None
  then show ?thesis using assms by (auto simp: NewDiskStore_def loadBitfield_def disk_ok_def DiskHasPiece_def persisted_def)
next
  case (Some data)
  let ?n = "min (length data) (ds_numPieces ds)"
  have b: "(map (\<lambda>b. b = 1) (take ?n data) @ drop ?n (replicate (ds_numPieces ds) False)) ! k \<longleftrightarrow> k < length data \<and> data ! k = 1"
    if "k < ds_numPieces ds" for k
    using that by (auto simp: nth_append)
  have ds': "ds' = \<lparr>ds_numPieces = ds_numPieces ds, ds_pieceLen = plen, ds_totalLen = totlen,
      ds_bitfield = map (\<lambda>b. b = 1) (take ?n data) @ drop ?n (replicate (ds_numPieces ds) False), ds_files = ds_files ds\<rparr>"
    using assms(2) by (simp add: NewDiskStore_def loadBitfield_def Some Let_def)
  show ?thesis
    using assms(1) Some b by (auto simp: ds' disk_ok_def DiskHasPiece_def persisted_def)
qed

lemma ReadPiece_good:
  assumes "disk_ok good ds" "DiskHasPiece i ds"
  shows "\<exists>d. ReadPiece i ds = Inr d \<and> good (nat i) d"
proof -
  have b: "0 \<le> i" "nat i < ds_numPieces ds" "ds_bitfield ds ! nat i" using assms(2) by (auto simp: DiskHasPiece_def)
  with assms(1) obtain d where "ds_files ds (PieceFile (nat i)) = Some d" "good (nat i) d" unfolding disk_ok_def by blast
  with b show ?thesis by (simp add: ReadPiece_def)
qed

section \<open>A crash at any time\<close>

text \<open>
  Calls of WritePiece, each on a piece that the store does not have yet (the piece manager
  completes a piece once), and the ones that returned no error.
\<close>

fun write_all :: "(write_io \<times> int \<times> bytes) list \<Rightarrow> disk_store \<Rightarrow> disk_store \<times> (int \<times> bytes) list" where
  "write_all [] ds = (ds, [])"
| "write_all ((res, index, data) # ws) ds =
     (if DiskHasPiece index ds then write_all ws ds
      else (case WritePiece res index data ds of
              (r, ds1) \<Rightarrow> (case write_all ws ds1 of
                 (ds2, acked) \<Rightarrow> (ds2, if r = Inr () then (index, data) # acked else acked))))"

definition kept :: "int \<Rightarrow> bytes \<Rightarrow> disk_store \<Rightarrow> bool" where
  "kept index data ds \<longleftrightarrow> ds_files ds (PieceFile (nat index)) = Some data \<and> DiskHasPiece index ds \<and> persisted ds (nat index)"

lemma WritePiece_kept:
  assumes "disk_ok good ds" "\<not> DiskHasPiece index ds" "kept i d ds" "0 \<le> index \<longrightarrow> good (nat index) data"
  shows "kept i d (snd (WritePiece res index data ds))"
  using WritePiece_ok(3) [OF assms(1,4,2), where i = i and res = res] WritePiece_ok(4) [OF assms(1,4,2), where k = "nat i" and res = res] assms(3)
  by (simp add: kept_def)

lemma write_all_ok:
  assumes "disk_ok good ds" "\<And>r i d. (r, i, d) \<in> set ws \<Longrightarrow> 0 \<le> i \<Longrightarrow> good (nat i) d"
  shows "disk_ok good (fst (write_all ws ds)) \<and> ds_numPieces (fst (write_all ws ds)) = ds_numPieces ds
    \<and> (kept i d ds \<or> (i, d) \<in> set (snd (write_all ws ds)) \<longrightarrow> kept i d (fst (write_all ws ds)))"
  using assms
proof (induction ws ds rule: write_all.induct)
  case (1 ds)
  then show ?case by simp
next
  case (2 res index data ws ds)
  show ?case
  proof (cases "DiskHasPiece index ds")
    case True
    have "\<And>r i d. (r, i, d) \<in> set ws \<Longrightarrow> 0 \<le> i \<Longrightarrow> good (nat i) d" using 2(4) by (meson list.set_intros(2))
    then show ?thesis using 2(1) [OF True 2(3)] True by simp
  next
    case False
    obtain r ds1 where w: "WritePiece res index data ds = (r, ds1)" by fastforce
    have good: "0 \<le> index \<longrightarrow> good (nat index) data" using 2(4) by auto
    note ok = WritePiece_ok [OF 2(3) good False, where res = res, unfolded w, simplified]
    have ih: "disk_ok good (fst (write_all ws ds1)) \<and> ds_numPieces (fst (write_all ws ds1)) = ds_numPieces ds1
        \<and> (kept i d ds1 \<or> (i, d) \<in> set (snd (write_all ws ds1)) \<longrightarrow> kept i d (fst (write_all ws ds1)))"
      using 2(2) [OF False w [symmetric]] ok(1) 2(4) by (metis list.set_intros(2))
    have k: "kept i d ds \<Longrightarrow> kept i d ds1" using WritePiece_kept [OF 2(3) False _ good, of i d res] by (simp add: w)
    have a: "r = Inr () \<Longrightarrow> kept index data ds1" using ok(2) by (simp add: kept_def)
    show ?thesis using False w ih ok(1) k a by (cases "write_all ws ds1") auto
  qed
qed

text \<open>C9: crash safety of the piece store. Pieces are written to an empty directory in any order,
  and any write of a piece file or of the bit field and any rename may fail or be the last thing
  before a crash. A store opened on what is left claims only pieces whose file reads back as bytes
  that were good for the piece, and has every piece whose WritePiece returned no error, with its data.\<close>

theorem disk_crash_safe:
  assumes "NewDiskStore True Map.empty n plen totlen = Inr ds0"
    and "\<And>r j e. (r, j, e) \<in> set ws \<Longrightarrow> 0 \<le> j \<Longrightarrow> good (nat j) e"
    and "write_all ws ds0 = (ds, acked)" and "NewDiskStore True (ds_files ds) n plen totlen = Inr ds'"
  shows "(DiskHasPiece i ds' \<longrightarrow> (\<exists>e. ReadPiece i ds' = Inr e \<and> good (nat i) e))
    \<and> ((j, d) \<in> set acked \<longrightarrow> DiskHasPiece j ds' \<and> ReadPiece j ds' = Inr d)"
proof -
  have n0: "disk_ok good ds0 \<and> ds_numPieces ds0 = n"
    using assms(1) by (auto simp: NewDiskStore_def loadBitfield_def disk_ok_def)
  have w: "disk_ok good ds \<and> ds_numPieces ds = ds_numPieces ds0 \<and> (kept j d ds0 \<or> (j, d) \<in> set acked \<longrightarrow> kept j d ds)" for j d
    using write_all_ok [OF conjunct1 [OF n0], of ws j d] assms(2,3) by (metis fst_conv snd_conv)
  have ok: "disk_ok good ds" "ds_numPieces ds = n" using w n0 by auto
  note r = NewDiskStore_ok [OF ok(1), of plen totlen ds', unfolded ok(2), OF assms(4)]
  have 1: "DiskHasPiece i ds' \<longrightarrow> (\<exists>e. ReadPiece i ds' = Inr e \<and> good (nat i) e)"
    using r ReadPiece_good by blast
  have 2: "DiskHasPiece j ds' \<and> ReadPiece j ds' = Inr d" if "(j, d) \<in> set acked"
  proof -
    have k: "kept j d ds" using w [of j d] that by simp
    then show ?thesis using r [of j] by (auto simp: kept_def DiskHasPiece_def ReadPiece_def)
  qed
  show ?thesis using 1 2 by blast
qed

lemma disk_crash_safe_witness:
  "(\<lambda>(ds, acked). \<forall>ds'. NewDiskStore True (ds_files ds) 2 4 8 = Inr ds' \<longrightarrow>
      DiskHasPiece 1 ds' \<and> ReadPiece 1 ds' = Inr [7, 7] \<and> \<not> DiskHasPiece 0 ds')
     (write_all [(\<lparr>io_piece = Failed (Some [9]), io_tmp = Done, io_rename = True\<rparr>, 0, [5, 5]),
                 (\<lparr>io_piece = Done, io_tmp = Done, io_rename = True\<rparr>, 1, [7, 7]),
                 (\<lparr>io_piece = Done, io_tmp = Done, io_rename = False\<rparr>, 0, [5, 5])]
        \<lparr>ds_numPieces = 2, ds_pieceLen = 4, ds_totalLen = 8, ds_bitfield = [False, False], ds_files = Map.empty\<rparr>)"
proof -
  let ?ws = "[(\<lparr>io_piece = Failed (Some [9]), io_tmp = Done, io_rename = True\<rparr>, 0 :: int, [5, 5] :: bytes),
                 (\<lparr>io_piece = Done, io_tmp = Done, io_rename = True\<rparr>, 1, [7, 7]),
                 (\<lparr>io_piece = Done, io_tmp = Done, io_rename = False\<rparr>, 0, [5, 5])]"
  let ?ds0 = "\<lparr>ds_numPieces = 2, ds_pieceLen = 4, ds_totalLen = 8, ds_bitfield = [False, False], ds_files = Map.empty\<rparr>"
  note ev = WritePiece_def write_file_def saveBitfield_def DiskHasPiece_def Let_def
  have 0: "NewDiskStore True Map.empty 2 4 8 = Inr ?ds0" by (simp add: NewDiskStore_def loadBitfield_def numeral_2_eq_2)
  obtain ds acked where w: "write_all ?ws ?ds0 = (ds, acked)" by fastforce
  have a: "acked = [(1, [7, 7])]" "ds_files ds BitfieldFile = Some [0, 1]" using w by (auto simp: ev)
  note safe = disk_crash_safe [OF 0 _ w, of "\<lambda>i d. length d = 2" ds' 1 1 "[7, 7]" for ds']
  have "DiskHasPiece 1 ds' \<and> ReadPiece 1 ds' = Inr [7, 7] \<and> \<not> DiskHasPiece 0 ds'"
    if n: "NewDiskStore True (ds_files ds) 2 4 8 = Inr ds'" for ds'
  proof -
    have len: "\<And>r j e. (r, j, e) \<in> set ?ws \<Longrightarrow> 0 \<le> j \<Longrightarrow> length e = 2" by auto
    from safe [OF len n] a have "DiskHasPiece 1 ds'" "ReadPiece 1 ds' = Inr [7, 7]" by auto
    then show ?thesis using n a by (auto simp: NewDiskStore_def loadBitfield_def DiskHasPiece_def)
  qed
  then show ?thesis unfolding w by simp
qed

end
