(* ===== verification/PieceManager.thy ===== *)
theory PieceManager
  imports BlockTransfer Bitfield DiskStore "HOL-Library.Multiset"
begin

text \<open>
  \<open>internal/downloader\<close>: the state of the pieces of a download (\<open>piece_manager.go\<close>), the choice of the
  next piece (\<open>selector.go\<close>) and the block server that answers requests from it
  (\<open>block_server.go\<close>). Every method holds the manager's lock, so an interleaving of workers is a
  sequence of calls. A nil slice is \<open>None\<close>; a panic is \<open>None\<close> as the result of the call.
\<close>

section \<open>Selectors\<close>

text \<open>\<open>rand.Intn n\<close> is some number below \<open>n\<close>: \<open>rnd mod n\<close> for an arbitrary \<open>rnd\<close>.\<close>

fun rarest_loop :: "nat list \<Rightarrow> int list \<Rightarrow> int \<Rightarrow> nat list \<Rightarrow> nat list" where
  "rarest_loop [] avail minAvail rarest = rarest"
| "rarest_loop (c # cs) avail minAvail rarest =
     (let a = avail ! c
      in if a < minAvail then rarest_loop cs avail a [c]
         else if a = minAvail then rarest_loop cs avail minAvail (rarest @ [c])
         else rarest_loop cs avail minAvail rarest)"

definition RarestFirst :: "nat \<Rightarrow> nat list \<Rightarrow> int list \<Rightarrow> nat option" where
  "RarestFirst rnd candidates avail =
     (case candidates of
        [] \<Rightarrow> None
      | c # cs \<Rightarrow> (let rarest = rarest_loop cs avail (avail ! c) [c] in Some (rarest ! (rnd mod length rarest))))"

definition Sequential :: "nat list \<Rightarrow> int list \<Rightarrow> nat option" where
  "Sequential candidates avail =
     (case candidates of [] \<Rightarrow> None | c # cs \<Rightarrow> Some (foldl (\<lambda>m c. if c < m then c else m) c cs))"

datatype selector = RarestFirstSelector nat | SequentialSelector

fun Select :: "selector \<Rightarrow> nat list \<Rightarrow> int list \<Rightarrow> nat option" where
  "Select (RarestFirstSelector rnd) = RarestFirst rnd"
| "Select SequentialSelector = Sequential"

section \<open>The piece manager\<close>

datatype piece_state = PiecePending | PieceInProgress | PieceCompleted

record piece_info =
  pi_Index :: nat
  pi_Hash :: bytes
  pi_Length :: u32

text \<open>Channels are numbered as they are made; \<open>pm_closed\<close> are the cancel channels that have been closed.\<close>

record piece_manager =
  pm_pieces :: "piece_info list"
  pm_states :: "piece_state list"
  pm_data :: "bytes option list"
  pm_owners :: "string list"
  pm_availability :: "int list"
  pm_store :: "disk_store option"
  pm_completed :: nat
  pm_total :: nat
  pm_done :: bool
  pm_endgameThreshold :: int
  pm_endgameActivated :: bool
  pm_cancelChs :: "nat \<rightharpoonup> nat"
  pm_channels :: nat
  pm_closed :: "nat list"
  pm_haveSubs :: "(nat \<times> nat list) list"

definition NewPieceManager :: "piece_info list \<Rightarrow> int \<Rightarrow> disk_store option \<Rightarrow> piece_manager" where
  "NewPieceManager pieces endgameThreshold store =
     (let n = length pieces;
          pm = \<lparr>pm_pieces = pieces, pm_states = replicate n PiecePending, pm_data = replicate n None,
            pm_owners = replicate n [], pm_availability = replicate n 0, pm_store = store, pm_completed = 0, pm_total = n,
            pm_done = False, pm_endgameThreshold = endgameThreshold, pm_endgameActivated = False,
            pm_cancelChs = Map.empty, pm_channels = 0, pm_closed = [], pm_haveSubs = []\<rparr>
      in case store of
           None \<Rightarrow> pm
         | Some ds \<Rightarrow>
             (let bf = DiskCompleted ds;
                  completed = length (filter id bf)
              in pm\<lparr>pm_states := map (\<lambda>has. if has then PieceCompleted else PiecePending) bf @ drop (length bf) (pm_states pm),
                    pm_completed := completed, pm_done := (completed = n)\<rparr>))"

definition Assign :: "(nat list \<Rightarrow> int list \<Rightarrow> nat option) \<Rightarrow> string \<Rightarrow> bytes \<Rightarrow> piece_manager
    \<Rightarrow> piece_info option \<times> piece_manager" where
  "Assign sel peerAddr bitfield pm =
     (let remaining = int (pm_total pm) - int (pm_completed pm);
          endgame = (pm_endgameThreshold pm > 0 \<and> remaining \<le> pm_endgameThreshold pm);
          pm = (if endgame then pm\<lparr>pm_endgameActivated := True\<rparr> else pm);
          indices = filter (\<lambda>i. HasPiece bitfield (int i)) [0..<length (pm_states pm)];
          candidates = filter (\<lambda>i. pm_states pm ! i = PiecePending) indices;
          endgameCandidates = filter (\<lambda>i. endgame \<and> pm_states pm ! i = PieceInProgress \<and> pm_owners pm ! i \<noteq> peerAddr) indices
      in case (case sel candidates (pm_availability pm) of
                 Some idx \<Rightarrow> Some idx
               | None \<Rightarrow> sel endgameCandidates (pm_availability pm)) of
           None \<Rightarrow> (None, pm)
         | Some idx \<Rightarrow>
             (Some (pm_pieces pm ! idx),
              if pm_states pm ! idx = PiecePending
              then pm\<lparr>pm_states := (pm_states pm)[idx := PieceInProgress], pm_owners := (pm_owners pm)[idx := peerAddr]\<rparr>
              else pm))"

definition CancelCh :: "nat \<Rightarrow> piece_manager \<Rightarrow> nat \<times> piece_manager" where
  "CancelCh index pm =
     (case pm_cancelChs pm index of
        Some ch \<Rightarrow> (ch, pm)
      | None \<Rightarrow> (pm_channels pm, pm\<lparr>pm_cancelChs := (pm_cancelChs pm)(index \<mapsto> pm_channels pm), pm_channels := pm_channels pm + 1\<rparr>))"

definition persist :: "write_io \<Rightarrow> nat \<Rightarrow> bytes \<Rightarrow> piece_manager \<Rightarrow> piece_manager" where
  "persist res index data pm =
     (case pm_store pm of
        None \<Rightarrow> pm
      | Some ds \<Rightarrow>
          (case WritePiece res (int index) data ds of
             (Inl _, ds) \<Rightarrow> pm\<lparr>pm_store := Some ds\<rparr>
           | (Inr _, ds) \<Rightarrow> pm\<lparr>pm_store := Some ds, pm_data := (pm_data pm)[index := None]\<rparr>))"

definition close_cancel :: "nat \<Rightarrow> piece_manager \<Rightarrow> piece_manager option" where
  "close_cancel index pm =
     (case pm_cancelChs pm index of
        None \<Rightarrow> Some pm
      | Some ch \<Rightarrow>
          if ch \<in> set (pm_closed pm) then None
          else Some (pm\<lparr>pm_closed := ch # pm_closed pm, pm_cancelChs := (pm_cancelChs pm)(index := None)\<rparr>))"

definition close_done :: "piece_manager \<Rightarrow> piece_manager option" where
  "close_done pm =
     (if pm_completed pm = pm_total pm then (if pm_done pm then None else Some (pm\<lparr>pm_done := True\<rparr>)) else Some pm)"

text \<open>A subscriber's channel holds 64 indices; one that is full misses the next.\<close>

definition notify_have :: "nat \<Rightarrow> piece_manager \<Rightarrow> piece_manager" where
  "notify_have index pm =
     pm\<lparr>pm_haveSubs := map (\<lambda>(ch, buf). (ch, if length buf < 64 then buf @ [index] else buf)) (pm_haveSubs pm)\<rparr>"

definition CompletePiece :: "write_io \<Rightarrow> nat \<Rightarrow> bytes \<Rightarrow> piece_manager \<Rightarrow> piece_manager option" where
  "CompletePiece res index data pm =
     (if index \<ge> length (pm_states pm) then None
      else if pm_states pm ! index = PieceCompleted then Some pm
      else (let pm = pm\<lparr>pm_states := (pm_states pm)[index := PieceCompleted], pm_data := (pm_data pm)[index := Some data],
                  pm_owners := (pm_owners pm)[index := []], pm_completed := pm_completed pm + 1\<rparr>
            in Option.bind (close_cancel index (persist res index data pm))
                 (\<lambda>pm. Option.bind (close_done pm) (\<lambda>pm. Some (notify_have index pm)))))"

definition Release :: "nat \<Rightarrow> piece_manager \<Rightarrow> piece_manager option" where
  "Release index pm =
     (if index \<ge> length (pm_states pm) then None
      else if pm_states pm ! index = PieceInProgress
        then Some (pm\<lparr>pm_states := (pm_states pm)[index := PiecePending], pm_owners := (pm_owners pm)[index := []]\<rparr>)
      else Some pm)"

definition ReleaseAll :: "string \<Rightarrow> piece_manager \<Rightarrow> piece_manager" where
  "ReleaseAll peerAddr pm =
     (let freed = map2 (\<lambda>owner state. owner = peerAddr \<and> state = PieceInProgress) (pm_owners pm) (pm_states pm)
      in pm\<lparr>pm_states := map2 (\<lambda>f s. if f then PiecePending else s) freed (pm_states pm),
            pm_owners := map2 (\<lambda>f ow. if f then [] else ow) freed (pm_owners pm)\<rparr>)"

definition IsFinished :: "piece_manager \<Rightarrow> bool" where
  "IsFinished pm \<longleftrightarrow> pm_completed pm = pm_total pm"

definition Results :: "piece_manager \<Rightarrow> bytes option list" where
  "Results pm =
     (case pm_store pm of
        None \<Rightarrow> pm_data pm
      | Some ds \<Rightarrow>
          map2 (\<lambda>i d. case d of
                  Some x \<Rightarrow> Some x
                | None \<Rightarrow>
                    if pm_states pm ! i = PieceCompleted
                    then (case ReadPiece (int i) ds of Inl _ \<Rightarrow> None | Inr x \<Rightarrow> Some x) else None)
            [0..<length (pm_data pm)] (pm_data pm))"

definition HasPendingFor :: "bytes \<Rightarrow> piece_manager \<Rightarrow> bool" where
  "HasPendingFor bitfield pm =
     list_ex (\<lambda>i. pm_states pm ! i = PiecePending \<and> HasPiece bitfield (int i)) [0..<length (pm_states pm)]"

definition AddAvailability :: "bytes \<Rightarrow> piece_manager \<Rightarrow> piece_manager" where
  "AddAvailability bitfield pm =
     pm\<lparr>pm_availability := map2 (\<lambda>i a. if HasPiece bitfield (int i) then a + 1 else a)
          [0..<length (pm_availability pm)] (pm_availability pm)\<rparr>"

definition RemoveAvailability :: "bytes \<Rightarrow> piece_manager \<Rightarrow> piece_manager" where
  "RemoveAvailability bitfield pm =
     pm\<lparr>pm_availability := map2 (\<lambda>i a. if HasPiece bitfield (int i) then a - 1 else a)
          [0..<length (pm_availability pm)] (pm_availability pm)\<rparr>"

definition IncrementAvailability :: "int \<Rightarrow> piece_manager \<Rightarrow> piece_manager" where
  "IncrementAvailability index pm =
     (if 0 \<le> index \<and> index < int (length (pm_availability pm))
      then pm\<lparr>pm_availability := (pm_availability pm)[nat index := pm_availability pm ! nat index + 1]\<rparr> else pm)"

definition Progress :: "piece_manager \<Rightarrow> nat \<times> nat" where
  "Progress pm = (pm_completed pm, pm_total pm)"

text \<open>\<open>None\<close> is the answer "not available"; a completed piece may have a nil slice as data.\<close>

definition GetPieceData :: "int \<Rightarrow> piece_manager \<Rightarrow> bytes option option" where
  "GetPieceData index pm =
     (if index < 0 \<or> index \<ge> int (length (pm_states pm)) then None
      else if pm_states pm ! nat index \<noteq> PieceCompleted then None
      else case (pm_data pm ! nat index, pm_store pm) of
             (None, Some ds) \<Rightarrow> (case ReadPiece index ds of Inl _ \<Rightarrow> None | Inr data \<Rightarrow> Some (Some data))
           | (d, _) \<Rightarrow> Some d)"

definition PMCompletedBitfield :: "piece_manager \<Rightarrow> bytes" where
  "PMCompletedBitfield pm =
     fold (\<lambda>i bf. if pm_states pm ! i = PieceCompleted then SetPiece bf (int i) else bf)
       [0..<length (pm_states pm)] (NewBitField (pm_total pm))"

definition SubscribeHave :: "piece_manager \<Rightarrow> nat \<times> piece_manager" where
  "SubscribeHave pm = (pm_channels pm, pm\<lparr>pm_haveSubs := pm_haveSubs pm @ [(pm_channels pm, [])], pm_channels := pm_channels pm + 1\<rparr>)"

fun remove_sub :: "nat \<Rightarrow> (nat \<times> nat list) list \<Rightarrow> (nat \<times> nat list) list" where
  "remove_sub ch [] = []"
| "remove_sub ch (s # ss) = (if fst s = ch then ss else s # remove_sub ch ss)"

definition UnsubscribeHave :: "nat \<Rightarrow> piece_manager \<Rightarrow> piece_manager" where
  "UnsubscribeHave ch pm = pm\<lparr>pm_haveSubs := remove_sub ch (pm_haveSubs pm)\<rparr>"

section \<open>The block server\<close>

text \<open>\<open>begin + length\<close> wraps at 32 bits; the slice panics when its end lies before its start.\<close>

definition GetBlock :: "piece_manager \<Rightarrow> int \<Rightarrow> u32 \<Rightarrow> u32 \<Rightarrow> bytes option option" where
  "GetBlock pm pieceIndex off len =
     (case GetPieceData pieceIndex pm of
        None \<Rightarrow> Some None
      | Some d \<Rightarrow>
          (let data = (case d of None \<Rightarrow> [] | Some x \<Rightarrow> x);
               stop = unat (off + len)
           in if unat off \<ge> length data \<or> stop > length data then Some None
              else if stop < unat off then None
              else Some (Some (take (stop - unat off) (drop (unat off) data)))))"


section \<open>What a selector promises\<close>

text \<open>The candidates are indices of the availability list.\<close>

locale piece_selector =
  fixes sel :: "nat list \<Rightarrow> int list \<Rightarrow> nat option"
  assumes sel_none: "sel [] avail = None"
    and sel_some: "cands \<noteq> [] \<Longrightarrow> (\<And>c. c \<in> set cands \<Longrightarrow> c < length avail) \<Longrightarrow> \<exists>i \<in> set cands. sel cands avail = Some i"

lemma rarest_loop_spec:
  assumes "\<And>c. c \<in> set seen \<Longrightarrow> m \<le> avail ! c" "\<exists>c \<in> set seen. avail ! c = m" "r = filter (\<lambda>c. avail ! c = m) seen"
  shows "\<exists>m'. rarest_loop cs avail m r = filter (\<lambda>c. avail ! c = m') (seen @ cs) \<and> (\<exists>c \<in> set (seen @ cs). avail ! c = m')
    \<and> (\<forall>c \<in> set (seen @ cs). m' \<le> avail ! c)"
  using assms
proof (induction cs avail m r arbitrary: seen rule: rarest_loop.induct)
  case (1 avail m r)
  then show ?case by auto
next
  case (2 c cs avail m r)
  let ?a = "avail ! c"
  consider "?a < m" | "?a = m" | "m < ?a" by linarith
  then show ?case
  proof cases
    case 1
    have "filter (\<lambda>x. avail ! x = ?a) seen = []" using 1 2(4) by (force simp: filter_empty_conv)
    then have r: "[c] = filter (\<lambda>x. avail ! x = ?a) (seen @ [c])" by simp
    have le: "x \<in> set (seen @ [c]) \<Longrightarrow> ?a \<le> avail ! x" for x using 1 2(4) [of x] by auto
    have "rarest_loop (c # cs) avail m r = rarest_loop cs avail ?a [c]" using 1 by simp
    then show ?thesis using 2(1) [OF refl 1, of "seen @ [c]", OF le _ r] by simp
  next
    case eq: 2
    have le: "x \<in> set (seen @ [c]) \<Longrightarrow> m \<le> avail ! x" for x using eq 2(4) [of x] by auto
    have "rarest_loop (c # cs) avail m r = rarest_loop cs avail m (r @ [c])" using eq by simp
    then show ?thesis using 2(2) [OF refl _ eq, of "seen @ [c]", OF _ le] eq 2(6) by simp
  next
    case 3
    have le: "x \<in> set (seen @ [c]) \<Longrightarrow> m \<le> avail ! x" for x using 3 2(4) [of x] by auto
    have "rarest_loop (c # cs) avail m r = rarest_loop cs avail m r" using 3 by simp
    then show ?thesis using 2(3) [OF refl, of "seen @ [c]", OF _ _ le] 3 2(5,6) by auto
  qed
qed

text \<open>The candidates of the smallest availability, in order.\<close>

definition rarest_of :: "nat list \<Rightarrow> int list \<Rightarrow> nat list" where
  "rarest_of cands avail = filter (\<lambda>c. list_all (\<lambda>d. avail ! c \<le> avail ! d) cands) cands"

lemma rarest_loop_rarest_of:
  "rarest_loop cs avail (avail ! c) [c] = rarest_of (c # cs) avail \<and> rarest_of (c # cs) avail \<noteq> []"
proof -
  obtain m where m: "rarest_loop cs avail (avail ! c) [c] = filter (\<lambda>c. avail ! c = m) (c # cs)"
    "\<exists>x \<in> set (c # cs). avail ! x = m" "\<forall>x \<in> set (c # cs). m \<le> avail ! x"
    using rarest_loop_spec [of "[c]" "avail ! c" avail "[c]" cs] by auto
  have "avail ! x = m \<longleftrightarrow> list_all (\<lambda>d. avail ! x \<le> avail ! d) (c # cs)" if "x \<in> set (c # cs)" for x
    using m(2,3) that by (fastforce simp: list_all_iff)
  then have "rarest_of (c # cs) avail = filter (\<lambda>c. avail ! c = m) (c # cs)"
    unfolding rarest_of_def by (intro filter_cong refl) auto
  moreover have "filter (\<lambda>c. avail ! c = m) (c # cs) \<noteq> []" using m(2) by (auto simp: filter_empty_conv)
  ultimately show ?thesis using m(1) by simp
qed

lemma RarestFirst_eq:
  "RarestFirst rnd cands avail = (if cands = [] then None
     else Some (rarest_of cands avail ! (rnd mod length (rarest_of cands avail))))"
  by (cases cands) (simp_all add: RarestFirst_def Let_def rarest_loop_rarest_of)

lemma RarestFirst_in: "cands \<noteq> [] \<Longrightarrow> \<exists>i \<in> set (rarest_of cands avail). RarestFirst rnd cands avail = Some i"
proof -
  assume c: "cands \<noteq> []"
  then obtain d ds where "cands = d # ds" by (cases cands) auto
  then have "0 < length (rarest_of cands avail)" using rarest_loop_rarest_of by blast
  then have "rarest_of cands avail ! (rnd mod length (rarest_of cands avail)) \<in> set (rarest_of cands avail)" by simp
  then show ?thesis using c by (simp add: RarestFirst_eq)
qed

lemma foldl_min: "foldl (\<lambda>m c. if c < m then c else m) c cs = Min (set (c # cs))" for c :: nat
proof (induction cs arbitrary: c)
  case (Cons x xs)
  have "Min (insert (if x < c then x else c) (set xs)) = Min (insert c (insert x (set xs)))"
    by (cases "xs = []") (auto simp: min_def)
  with Cons.IH [of "if x < c then x else c"] show ?case by simp
qed simp

lemma Sequential_eq: "Sequential cands avail = (if cands = [] then None else Some (Min (set cands)))"
  by (cases cands) (simp_all only: Sequential_def list.case foldl_min, simp_all)

interpretation sel: piece_selector "Select s" for s
proof
  show "Select s [] avail = None" for avail by (cases s) (simp_all add: RarestFirst_eq Sequential_eq)
  show "\<exists>i \<in> set cands. Select s cands avail = Some i" if "cands \<noteq> []" for cands avail
  proof (cases s)
    case (RarestFirstSelector rnd)
    then show ?thesis using RarestFirst_in [OF that] by (auto simp: rarest_of_def)
  qed (use that in \<open>simp add: Sequential_eq\<close>)
qed


section \<open>The invariant\<close>

text \<open>The lengths, the counter and the done channel.\<close>

definition pm_counts :: "piece_manager \<Rightarrow> bool" where
  "pm_counts pm \<longleftrightarrow> length (pm_pieces pm) = pm_total pm \<and> length (pm_states pm) = pm_total pm
     \<and> length (pm_data pm) = pm_total pm \<and> length (pm_owners pm) = pm_total pm \<and> length (pm_availability pm) = pm_total pm
     \<and> pm_completed pm = count_list (pm_states pm) PieceCompleted
     \<and> (pm_done pm \<longrightarrow> pm_completed pm = pm_total pm) \<and> (pm_completed pm = pm_total pm \<longrightarrow> pm_done pm \<or> pm_total pm = 0)"

text \<open>Every cancel channel in use is open and belongs to one piece.\<close>

definition pm_chans :: "piece_manager \<Rightarrow> bool" where
  "pm_chans pm \<longleftrightarrow> (\<forall>i ch. pm_cancelChs pm i = Some ch \<longrightarrow> ch < pm_channels pm \<and> ch \<notin> set (pm_closed pm))
     \<and> (\<forall>i j ch. pm_cancelChs pm i = Some ch \<longrightarrow> pm_cancelChs pm j = Some ch \<longrightarrow> i = j)
     \<and> (\<forall>ch \<in> set (pm_closed pm). ch < pm_channels pm)"

text \<open>A completed piece has good data, in memory or on the disk; only pieces in progress have owners.\<close>

definition piece_ok :: "(nat \<Rightarrow> bytes \<Rightarrow> bool) \<Rightarrow> disk_store option \<Rightarrow> nat \<Rightarrow> piece_state \<Rightarrow> string \<Rightarrow> bytes option \<Rightarrow> bool" where
  "piece_ok good store i state owner data \<longleftrightarrow> (state \<noteq> PieceInProgress \<longrightarrow> owner = [])
     \<and> (state = PieceCompleted \<longrightarrow>
          (case data of Some d \<Rightarrow> good i d | None \<Rightarrow> (\<exists>ds. store = Some ds \<and> DiskHasPiece (int i) ds)))
     \<and> (\<forall>ds. store = Some ds \<longrightarrow> DiskHasPiece (int i) ds \<longrightarrow> state = PieceCompleted)"

definition pm_contents :: "(nat \<Rightarrow> bytes \<Rightarrow> bool) \<Rightarrow> piece_manager \<Rightarrow> bool" where
  "pm_contents good pm \<longleftrightarrow>
     (\<forall>i < pm_total pm. piece_ok good (pm_store pm) i (pm_states pm ! i) (pm_owners pm ! i) (pm_data pm ! i))
     \<and> (\<forall>ds. pm_store pm = Some ds \<longrightarrow> disk_ok good ds \<and> ds_numPieces ds = pm_total pm)"

definition pm_ok :: "(nat \<Rightarrow> bytes \<Rightarrow> bool) \<Rightarrow> piece_manager \<Rightarrow> bool" where
  "pm_ok good pm \<longleftrightarrow> pm_counts pm \<and> pm_chans pm \<and> pm_contents good pm"

lemmas pm_defs = pm_counts_def pm_chans_def pm_contents_def

lemma count_list_update:
  "i < length xs \<Longrightarrow> count_list (xs[i := v]) x + of_bool (xs ! i = x) = count_list xs x + of_bool (v = x)"
proof (induction xs arbitrary: i)
  case (Cons a xs)
  then show ?case by (cases i) auto
qed simp

lemma count_list_same: "i < length xs \<Longrightarrow> xs ! i \<noteq> x \<Longrightarrow> v \<noteq> x \<Longrightarrow> count_list (xs[i := v]) x = count_list xs x"
  using count_list_update [of i xs v x] by simp

lemma count_list_le: "count_list xs x \<le> length xs"
  by (induction xs) auto

lemma count_list_less: "i < length xs \<Longrightarrow> xs ! i \<noteq> x \<Longrightarrow> count_list xs x < length xs"
  using count_list_update [of i xs x x] count_list_le [of "xs[i := x]" x] by simp

lemma count_list_all: "count_list xs x = length xs \<longleftrightarrow> (\<forall>i < length xs. xs ! i = x)"
proof
  show "count_list xs x = length xs \<Longrightarrow> \<forall>i < length xs. xs ! i = x" using count_list_less by fastforce
  show "\<forall>i < length xs. xs ! i = x \<Longrightarrow> count_list xs x = length xs"
  proof (induction xs)
    case (Cons a xs)
    then have "\<forall>i < length xs. xs ! i = x" by (metis Suc_less_eq length_Cons nth_Cons_Suc)
    with Cons show ?case by force
  qed simp
qed

lemma count_list_filter: "count_list (map (\<lambda>b. if b then PieceCompleted else PiecePending) bs) PieceCompleted = length (filter id bs)"
  by (induction bs) auto

lemma NewPieceManager_ok:
  assumes "store = None \<or> (\<exists>ds. store = Some ds \<and> disk_ok good ds \<and> ds_numPieces ds = length pieces)"
  shows "pm_ok good (NewPieceManager pieces endgameThreshold store)"
proof (cases store)
  case None
  have "count_list (replicate n PiecePending) PieceCompleted = 0" for n by (induction n) auto
  then show ?thesis by (simp add: None NewPieceManager_def Let_def pm_ok_def pm_defs piece_ok_def)
next
  case (Some ds)
  with assms have ds: "disk_ok good ds" "ds_numPieces ds = length pieces" by auto
  then have l: "length (ds_bitfield ds) = length pieces" "DiskCompleted ds = ds_bitfield ds"
    by (auto simp: disk_ok_def DiskCompleted_def)
  then show ?thesis
    using ds by (auto simp: Some NewPieceManager_def Let_def pm_ok_def pm_defs count_list_filter DiskHasPiece_def piece_ok_def)
qed

text \<open>One piece changes.\<close>

lemma pm_contents_update:
  assumes "pm_contents good pm" "pm_counts pm" "i < pm_total pm" "piece_ok good (pm_store pm) i s ow d"
  shows "j < pm_total pm \<Longrightarrow> piece_ok good (pm_store pm) j ((pm_states pm)[i := s] ! j) ((pm_owners pm)[i := ow] ! j) ((pm_data pm)[i := d] ! j)"
  using assms by (cases "i = j") (simp_all add: pm_contents_def pm_counts_def)

lemma pm_contents_at: "pm_contents good pm \<Longrightarrow> i < pm_total pm
    \<Longrightarrow> piece_ok good (pm_store pm) i (pm_states pm ! i) (pm_owners pm ! i) (pm_data pm ! i)"
  by (simp add: pm_contents_def)

context piece_selector
begin

text \<open>Assign, by its outcome.\<close>

lemma Assign_cases:
  assumes "pm_counts pm"
  obtains (none) "Assign sel addr bf pm = (None, if pm_endgameThreshold pm > 0
        \<and> int (pm_total pm) - int (pm_completed pm) \<le> pm_endgameThreshold pm then pm\<lparr>pm_endgameActivated := True\<rparr> else pm)"
      "\<And>i. i < pm_total pm \<Longrightarrow> HasPiece bf (int i) \<Longrightarrow> pm_states pm ! i \<noteq> PiecePending"
      "\<And>i. i < pm_total pm \<Longrightarrow> HasPiece bf (int i) \<Longrightarrow> pm_endgameThreshold pm > 0
        \<Longrightarrow> int (pm_total pm) - int (pm_completed pm) \<le> pm_endgameThreshold pm
        \<Longrightarrow> pm_states pm ! i = PieceInProgress \<Longrightarrow> pm_owners pm ! i = addr"
  | (pending) i pm1 where "i < pm_total pm" "HasPiece bf (int i)" "pm_states pm ! i = PiecePending"
      "pm1 = pm \<or> pm1 = pm\<lparr>pm_endgameActivated := True\<rparr>"
      "Assign sel addr bf pm = (Some (pm_pieces pm ! i),
         pm1\<lparr>pm_states := (pm_states pm)[i := PieceInProgress], pm_owners := (pm_owners pm)[i := addr]\<rparr>)"
  | (endgame) i where "i < pm_total pm" "HasPiece bf (int i)" "pm_states pm ! i = PieceInProgress" "pm_owners pm ! i \<noteq> addr"
      "pm_endgameThreshold pm > 0" "int (pm_total pm) - int (pm_completed pm) \<le> pm_endgameThreshold pm"
      "\<And>j. j < pm_total pm \<Longrightarrow> HasPiece bf (int j) \<Longrightarrow> pm_states pm ! j \<noteq> PiecePending"
      "Assign sel addr bf pm = (Some (pm_pieces pm ! i), pm\<lparr>pm_endgameActivated := True\<rparr>)"
proof -
  define eg where "eg \<longleftrightarrow> pm_endgameThreshold pm > 0 \<and> int (pm_total pm) - int (pm_completed pm) \<le> pm_endgameThreshold pm"
  define pm1 where "pm1 = (if eg then pm\<lparr>pm_endgameActivated := True\<rparr> else pm)"
  define ix where "ix = filter (\<lambda>i. HasPiece bf (int i)) [0..<length (pm_states pm)]"
  define c where "c = filter (\<lambda>i. pm_states pm ! i = PiecePending) ix"
  define e where "e = filter (\<lambda>i. eg \<and> pm_states pm ! i = PieceInProgress \<and> pm_owners pm ! i \<noteq> addr) ix"
  have len: "length (pm_states pm) = pm_total pm" "length (pm_availability pm) = pm_total pm"
    using assms by (simp_all add: pm_counts_def)
  have p1: "pm_states pm1 = pm_states pm" "pm_owners pm1 = pm_owners pm" "pm_pieces pm1 = pm_pieces pm"
    "pm_availability pm1 = pm_availability pm" "pm1 = pm \<or> pm1 = pm\<lparr>pm_endgameActivated := True\<rparr>"
    by (simp_all add: pm1_def)
  have A: "Assign sel addr bf pm = (case (case sel c (pm_availability pm) of Some idx \<Rightarrow> Some idx | None \<Rightarrow> sel e (pm_availability pm)) of
      None \<Rightarrow> (None, pm1)
    | Some idx \<Rightarrow> (Some (pm_pieces pm ! idx), if pm_states pm ! idx = PiecePending
         then pm1\<lparr>pm_states := (pm_states pm)[idx := PieceInProgress], pm_owners := (pm_owners pm)[idx := addr]\<rparr> else pm1))"
    unfolding Assign_def Let_def eg_def [symmetric] pm1_def [symmetric] p1 ix_def [symmetric] c_def [symmetric] e_def [symmetric] ..
  have in_ix: "i \<in> set ix \<longleftrightarrow> i < pm_total pm \<and> HasPiece bf (int i)" for i by (auto simp: ix_def len)
  have range: "x \<in> set c \<Longrightarrow> x < length (pm_availability pm)" "x \<in> set e \<Longrightarrow> x < length (pm_availability pm)" for x
    by (auto simp: c_def e_def in_ix len)
  show ?thesis
  proof (cases "c = []")
    case False
    then obtain i where i: "i \<in> set c" "sel c (pm_availability pm) = Some i" using sel_some [OF False range(1)] by blast
    then show ?thesis by (intro pending [of i pm1]) (auto simp: A c_def in_ix p1(5))
  next
    case True
    then have np: "\<And>j. j < pm_total pm \<Longrightarrow> HasPiece bf (int j) \<Longrightarrow> pm_states pm ! j \<noteq> PiecePending"
      by (auto simp: c_def filter_empty_conv in_ix)
    show ?thesis
    proof (cases "e = []")
      case False
      then obtain i where i: "i \<in> set e" "sel e (pm_availability pm) = Some i" using sel_some [OF False range(2)] by blast
      then show ?thesis using True np
        by (intro endgame [of i]) (auto simp: A e_def in_ix sel_none pm1_def eg_def)
    next
      case e: True
      show ?thesis
        using True e np by (intro none) (auto simp: A sel_none pm1_def eg_def e_def filter_empty_conv in_ix)
    qed
  qed
qed

lemma Assign_ok: "pm_ok good pm \<Longrightarrow> pm_ok good (snd (Assign sel addr bf pm))"
proof -
  assume ok: "pm_ok good pm"
  then have "pm_counts pm" by (simp add: pm_ok_def)
  then show ?thesis
  proof (cases rule: Assign_cases [of pm addr bf])
    case none
    then show ?thesis using ok by (auto simp: pm_ok_def pm_defs)
  next
    case (pending i pm1)
    have "pm_counts (snd (Assign sel addr bf pm))"
      using ok pending by (auto simp: pm_ok_def pm_counts_def count_list_same)
    moreover have "pm_chans (snd (Assign sel addr bf pm))" using ok pending by (auto simp: pm_ok_def pm_chans_def)
    moreover have "pm_contents good (snd (Assign sel addr bf pm))"
    proof -
      have p: "piece_ok good (pm_store pm) i PieceInProgress addr (pm_data pm ! i)"
        using pm_contents_at [of good pm i] ok pending(1,3) by (auto simp: pm_ok_def piece_ok_def)
      have "pm_contents good pm" "pm_counts pm" using ok by (simp_all add: pm_ok_def)
      from pm_contents_update [OF this pending(1) p] show ?thesis
        using ok pending(4,5) by (auto simp: pm_ok_def pm_contents_def)
    qed
    ultimately show ?thesis by (simp add: pm_ok_def)
  next
    case (endgame i)
    then show ?thesis using ok by (auto simp: pm_ok_def pm_defs)
  qed
qed

end


text \<open>A piece goes back to pending.\<close>

lemma release_ok:
  assumes "pm_ok good pm" "i < pm_total pm" "pm_states pm ! i = PieceInProgress"
  shows "pm_ok good (pm\<lparr>pm_states := (pm_states pm)[i := PiecePending], pm_owners := (pm_owners pm)[i := []]\<rparr>)"
proof -
  have p: "piece_ok good (pm_store pm) i PiecePending [] (pm_data pm ! i)"
    using pm_contents_at [of good pm i] assms by (auto simp: pm_ok_def piece_ok_def)
  have ok: "pm_contents good pm" "pm_counts pm" "pm_chans pm" using assms(1) by (simp_all add: pm_ok_def)
  show ?thesis
    using pm_contents_update [OF ok(1,2) assms(2) p] ok assms(2,3)
    by (auto simp: pm_ok_def pm_contents_def pm_counts_def pm_chans_def count_list_same)
qed

lemma Release_ok:
  assumes "pm_ok good pm" "i < pm_total pm"
  shows "\<exists>pm'. Release i pm = Some pm' \<and> pm_ok good pm'"
  using assms release_ok [OF assms] by (auto simp: Release_def pm_ok_def pm_counts_def)

lemma ReleaseAll_ok: "pm_ok good pm \<Longrightarrow> pm_ok good (ReleaseAll addr pm)"
proof -
  assume ok: "pm_ok good pm"
  define freed where "freed = map2 (\<lambda>owner state. owner = addr \<and> state = PieceInProgress) (pm_owners pm) (pm_states pm)"
  have len: "length (pm_states pm) = pm_total pm" "length (pm_owners pm) = pm_total pm" "length freed = pm_total pm"
    using ok by (auto simp: pm_ok_def pm_counts_def freed_def)
  have f: "i < pm_total pm \<Longrightarrow> freed ! i \<longleftrightarrow> pm_owners pm ! i = addr \<and> pm_states pm ! i = PieceInProgress" for i
    using len by (simp add: freed_def)
  have c: "count_list (map2 (\<lambda>f s. if f then PiecePending else s) freed (pm_states pm)) PieceCompleted
      = count_list (pm_states pm) PieceCompleted"
  proof -
    have "length (filter ((=) PieceCompleted) (map2 (\<lambda>f s. if f then PiecePending else s) fs ss)) = length (filter ((=) PieceCompleted) ss)"
      if "length fs = length ss" "\<And>i. i < length ss \<Longrightarrow> fs ! i \<Longrightarrow> ss ! i \<noteq> PieceCompleted" for fs ss
      using that
    proof (induction fs ss rule: list_induct2)
      case (Cons f fs s ss)
      then have "length (filter ((=) PieceCompleted) (map2 (\<lambda>f s. if f then PiecePending else s) fs ss)) = length (filter ((=) PieceCompleted) ss)"
        by (metis Suc_less_eq length_Cons nth_Cons_Suc)
      with Cons.prems [of 0] show ?case by auto
    qed simp
    from this [of freed "pm_states pm"] show ?thesis using len f by (simp add: count_list_eq_length_filter)
  qed
  have "piece_ok good (pm_store pm) i (map2 (\<lambda>f s. if f then PiecePending else s) freed (pm_states pm) ! i)
      (map2 (\<lambda>f ow. if f then [] else ow) freed (pm_owners pm) ! i) (pm_data pm ! i)" if i: "i < pm_total pm" for i
    using pm_contents_at [of good pm i] ok i len f [OF i] by (auto simp: pm_ok_def piece_ok_def)
  then show "pm_ok good (ReleaseAll addr pm)"
    using ok len c
    by (auto simp: ReleaseAll_def Let_def freed_def [symmetric] pm_ok_def pm_contents_def pm_counts_def pm_chans_def)
qed

lemma CancelCh_ok: "pm_ok good pm \<Longrightarrow> pm_ok good (snd (CancelCh i pm))"
  by (fastforce simp: CancelCh_def pm_ok_def pm_defs split: option.split)

lemma availability_ok:
  "pm_ok good pm \<Longrightarrow> pm_ok good (AddAvailability bf pm)"
  "pm_ok good pm \<Longrightarrow> pm_ok good (RemoveAvailability bf pm)"
  "pm_ok good pm \<Longrightarrow> pm_ok good (IncrementAvailability k pm)"
  by (auto simp: AddAvailability_def RemoveAvailability_def IncrementAvailability_def pm_ok_def pm_defs)

lemma subscribe_ok:
  "pm_ok good pm \<Longrightarrow> pm_ok good (snd (SubscribeHave pm))"
  "pm_ok good pm \<Longrightarrow> pm_ok good (UnsubscribeHave ch pm)"
  "pm_ok good pm \<Longrightarrow> pm_ok good (pm\<lparr>pm_haveSubs := subs\<rparr>)"
  by (fastforce simp: SubscribeHave_def UnsubscribeHave_def pm_ok_def pm_defs)+


text \<open>A piece is completed.\<close>

definition marked_piece :: "nat \<Rightarrow> bytes \<Rightarrow> piece_manager \<Rightarrow> piece_manager" where
  "marked_piece index data pm = pm\<lparr>pm_states := (pm_states pm)[index := PieceCompleted], pm_data := (pm_data pm)[index := Some data],
     pm_owners := (pm_owners pm)[index := []], pm_completed := pm_completed pm + 1\<rparr>"

lemma persist_ok:
  assumes "pm_ok good pm" "i < pm_total pm" "pm_states pm ! i \<noteq> PieceCompleted" "good i data"
  obtains store d where "persist res i data (marked_piece i data pm) = (marked_piece i data pm)\<lparr>pm_store := store, pm_data := (pm_data pm)[i := d]\<rparr>"
    and "pm_contents good ((marked_piece i data pm)\<lparr>pm_store := store, pm_data := (pm_data pm)[i := d]\<rparr>)"
proof (cases "pm_store pm")
  case None
  have p: "piece_ok good (pm_store pm) i PieceCompleted [] (Some data)" using assms(4) None by (simp add: piece_ok_def)
  have "pm_contents good pm" "pm_counts pm" using assms(1) by (simp_all add: pm_ok_def)
  from pm_contents_update [OF this assms(2) p] have "pm_contents good ((marked_piece i data pm)\<lparr>pm_store := None, pm_data := (pm_data pm)[i := Some data]\<rparr>)"
    by (simp add: pm_contents_def marked_piece_def None)
  moreover have "persist res i data (marked_piece i data pm) = (marked_piece i data pm)\<lparr>pm_store := None, pm_data := (pm_data pm)[i := Some data]\<rparr>"
    using None by (simp add: persist_def marked_piece_def)
  ultimately show ?thesis by (rule that [rotated])
next
  case (Some ds)
  obtain r ds' where w: "WritePiece res (int i) data ds = (r, ds')" by fastforce
  define d where "d = (if r = Inr () then None else Some data)"
  have ok: "disk_ok good ds" "ds_numPieces ds = pm_total pm" "pm_counts pm" using assms(1) Some by (auto simp: pm_ok_def pm_contents_def)
  have not: "\<not> DiskHasPiece (int i) ds" using pm_contents_at [of good pm i] assms(1-3) Some by (auto simp: pm_ok_def piece_ok_def)
  have g: "0 \<le> int i \<longrightarrow> good (nat (int i)) data" using assms(4) by simp
  note W = WritePiece_ok [OF ok(1) g not, where res = res, unfolded w fst_conv snd_conv]
  have new: "DiskHasPiece j ds' \<Longrightarrow> j = int i \<or> DiskHasPiece j ds" for j
    using WritePiece_new [of j res "int i" data ds] w ok(1) by (simp add: disk_ok_def)
  have "piece_ok good (Some ds') j ((pm_states pm)[i := PieceCompleted] ! j) ((pm_owners pm)[i := []] ! j) ((pm_data pm)[i := d] ! j)"
    if j: "j < pm_total pm" for j
  proof (cases "j = i")
    case True
    then show ?thesis using W(2) assms(2,4) ok(3) by (auto simp: piece_ok_def d_def pm_counts_def)
  next
    case False
    have same: "DiskHasPiece (int j) ds' \<longleftrightarrow> DiskHasPiece (int j) ds" using W(3) [of "int j"] new [of "int j"] False by auto
    have "piece_ok good (Some ds) j (pm_states pm ! j) (pm_owners pm ! j) (pm_data pm ! j)"
      using pm_contents_at [of good pm j] assms(1) j Some by (simp add: pm_ok_def)
    then have "piece_ok good (Some ds') j (pm_states pm ! j) (pm_owners pm ! j) (pm_data pm ! j)"
      unfolding piece_ok_def option.inject by (auto simp: same split: option.splits)
    with False show ?thesis by simp
  qed
  then have "pm_contents good ((marked_piece i data pm)\<lparr>pm_store := Some ds', pm_data := (pm_data pm)[i := d]\<rparr>)"
    using W(1) ok(2) by (auto simp: pm_contents_def marked_piece_def)
  moreover have "persist res i data (marked_piece i data pm) = (marked_piece i data pm)\<lparr>pm_store := Some ds', pm_data := (pm_data pm)[i := d]\<rparr>"
    using Some w by (cases r) (simp_all add: persist_def marked_piece_def d_def)
  ultimately show ?thesis by (rule that [rotated])
qed

lemma close_cancel_ok:
  assumes "pm_chans pm"
  shows "\<exists>cs cl. close_cancel i pm = Some (pm\<lparr>pm_closed := cl, pm_cancelChs := cs\<rparr>)
    \<and> pm_chans (pm\<lparr>pm_closed := cl, pm_cancelChs := cs\<rparr>)"
proof (cases "pm_cancelChs pm i")
  case None
  then have "close_cancel i pm = Some (pm\<lparr>pm_closed := pm_closed pm, pm_cancelChs := pm_cancelChs pm\<rparr>)"
    by (simp add: close_cancel_def)
  with assms show ?thesis by fastforce
next
  case (Some ch)
  with assms have "ch \<notin> set (pm_closed pm)" by (simp add: pm_chans_def)
  then have "close_cancel i pm = Some (pm\<lparr>pm_closed := ch # pm_closed pm, pm_cancelChs := (pm_cancelChs pm)(i := None)\<rparr>)"
    by (simp add: close_cancel_def Some)
  moreover have "pm_chans (pm\<lparr>pm_closed := ch # pm_closed pm, pm_cancelChs := (pm_cancelChs pm)(i := None)\<rparr>)"
    using assms Some by (fastforce simp: pm_chans_def)
  ultimately show ?thesis by blast
qed

lemma close_done_eq: "\<not> pm_done pm \<Longrightarrow> close_done pm = Some (pm\<lparr>pm_done := (pm_completed pm = pm_total pm)\<rparr>)"
  by (cases pm) (simp add: close_done_def)

lemma CompletePiece_ok:
  assumes "pm_ok good pm" "i < pm_total pm" "good i data"
  shows "\<exists>pm'. CompletePiece res i data pm = Some pm' \<and> pm_ok good pm' \<and> pm_states pm' = (pm_states pm)[i := PieceCompleted]
    \<and> pm_total pm' = pm_total pm \<and> pm_pieces pm' = pm_pieces pm \<and> pm_availability pm' = pm_availability pm"
proof -
  have c: "pm_counts pm" "pm_chans pm" using assms(1) by (simp_all add: pm_ok_def)
  have i: "i < length (pm_states pm)" using c assms(2) by (simp add: pm_counts_def)
  show ?thesis
  proof (cases "pm_states pm ! i = PieceCompleted")
    case True
    then have "(pm_states pm)[i := PieceCompleted] = pm_states pm" by (metis list_update_id)
    with True i assms(1) show ?thesis by (simp add: CompletePiece_def)
  next
    case False
    let ?p = "\<lambda>store d. (marked_piece i data pm)\<lparr>pm_store := store, pm_data := (pm_data pm)[i := d]\<rparr>"
    obtain store d where p: "persist res i data (marked_piece i data pm) = ?p store d" and content: "pm_contents good (?p store d)"
      using persist_ok [OF assms(1,2) False assms(3)] by metis
    let ?pm = "?p store d"
    have "pm_chans ?pm" using c(2) by (simp add: pm_chans_def marked_piece_def)
    then obtain cs cl where cl: "close_cancel i ?pm = Some (?pm\<lparr>pm_closed := cl, pm_cancelChs := cs\<rparr>)"
      and chans: "pm_chans (?pm\<lparr>pm_closed := cl, pm_cancelChs := cs\<rparr>)" using close_cancel_ok by blast
    let ?pm2 = "?pm\<lparr>pm_closed := cl, pm_cancelChs := cs\<rparr>"
    have n: "count_list ((pm_states pm)[i := PieceCompleted]) PieceCompleted = pm_completed pm + 1"
      using count_list_update [OF i, of PieceCompleted PieceCompleted] c(1) False by (simp add: pm_counts_def)
    have less: "pm_completed pm < pm_total pm" using count_list_less [OF i False] c(1) by (simp add: pm_counts_def)
    define fin where "fin \<longleftrightarrow> pm_completed pm + 1 = pm_total pm"
    have nd: "\<not> pm_done pm" using c(1) less by (auto simp: pm_counts_def)
    have "CompletePiece res i data pm = Option.bind (close_cancel i ?pm) (\<lambda>pm. Option.bind (close_done pm) (\<lambda>pm. Some (notify_have i pm)))"
      unfolding p [symmetric] using i False by (simp add: CompletePiece_def Let_def marked_piece_def)
    also have "\<dots> = Some (notify_have i (?pm2\<lparr>pm_done := fin\<rparr>))"
      unfolding cl using close_done_eq [of ?pm2] nd by (simp add: marked_piece_def fin_def)
    finally have C: "CompletePiece res i data pm = Some (notify_have i (?pm2\<lparr>pm_done := fin\<rparr>))" .
    have "pm_counts (notify_have i (?pm2\<lparr>pm_done := fin\<rparr>))"
      using c(1) n by (auto simp: pm_counts_def notify_have_def marked_piece_def fin_def)
    moreover have "pm_chans (notify_have i (?pm2\<lparr>pm_done := fin\<rparr>))"
      using chans by (simp add: pm_chans_def notify_have_def)
    moreover have "pm_contents good (notify_have i (?pm2\<lparr>pm_done := fin\<rparr>))"
      using content by (simp add: pm_contents_def notify_have_def)
    ultimately show ?thesis unfolding C by (auto simp: pm_ok_def notify_have_def marked_piece_def)
  qed
qed


section \<open>Reachable states\<close>

text \<open>
  Any interleaving of calls by the workers, the seeder and the user interface, from the start of
  a download, fresh or resumed. Workers complete pieces with good data only.
\<close>

inductive pm_reachable :: "(nat \<Rightarrow> bytes \<Rightarrow> bool) \<Rightarrow> piece_info list \<Rightarrow> piece_manager \<Rightarrow> bool"
  for good :: "nat \<Rightarrow> bytes \<Rightarrow> bool" and pieces :: "piece_info list" where
  fresh: "pm_reachable good pieces (NewPieceManager pieces threshold None)"
| resumed: "disk_ok good ds \<Longrightarrow> ds_numPieces ds = length pieces
    \<Longrightarrow> pm_reachable good pieces (NewPieceManager pieces threshold (Some ds))"
| assigned: "pm_reachable good pieces pm \<Longrightarrow> pm_reachable good pieces (snd (Assign (Select s) addr bf pm))"
| cancel_channel: "pm_reachable good pieces pm \<Longrightarrow> pm_reachable good pieces (snd (CancelCh i pm))"
| completed: "pm_reachable good pieces pm \<Longrightarrow> good i data \<Longrightarrow> CompletePiece res i data pm = Some pm' \<Longrightarrow> pm_reachable good pieces pm'"
| released: "pm_reachable good pieces pm \<Longrightarrow> Release i pm = Some pm' \<Longrightarrow> pm_reachable good pieces pm'"
| released_all: "pm_reachable good pieces pm \<Longrightarrow> pm_reachable good pieces (ReleaseAll addr pm)"
| added: "pm_reachable good pieces pm \<Longrightarrow> pm_reachable good pieces (AddAvailability bf pm)"
| removed: "pm_reachable good pieces pm \<Longrightarrow> pm_reachable good pieces (RemoveAvailability bf pm)"
| incremented: "pm_reachable good pieces pm \<Longrightarrow> pm_reachable good pieces (IncrementAvailability k pm)"
| subscribed: "pm_reachable good pieces pm \<Longrightarrow> pm_reachable good pieces (snd (SubscribeHave pm))"
| unsubscribed: "pm_reachable good pieces pm \<Longrightarrow> pm_reachable good pieces (UnsubscribeHave ch pm)"
| received: "pm_reachable good pieces pm \<Longrightarrow> pm_reachable good pieces (pm\<lparr>pm_haveSubs := subs\<rparr>)"

lemma NewPieceManager_pieces [simp]: "pm_pieces (NewPieceManager pieces threshold store) = pieces"
  by (auto simp: NewPieceManager_def Let_def split: option.split)

lemma Assign_pieces [simp]: "pm_pieces (snd (Assign sel addr bf pm)) = pm_pieces pm"
  unfolding Assign_def Let_def by (simp split: option.split)

lemma Release_pieces: "Release i pm = Some pm' \<Longrightarrow> pm_pieces pm' = pm_pieces pm"
  by (auto simp: Release_def split: if_splits)

lemma pieces_kept [simp]:
  "pm_pieces (snd (CancelCh i pm)) = pm_pieces pm" "pm_pieces (ReleaseAll addr pm) = pm_pieces pm"
  "pm_pieces (AddAvailability bf pm) = pm_pieces pm" "pm_pieces (RemoveAvailability bf pm) = pm_pieces pm"
  "pm_pieces (IncrementAvailability k pm) = pm_pieces pm"
  "pm_pieces (snd (SubscribeHave pm)) = pm_pieces pm" "pm_pieces (UnsubscribeHave ch pm) = pm_pieces pm"
  by (simp_all add: CancelCh_def ReleaseAll_def Let_def AddAvailability_def RemoveAvailability_def
    IncrementAvailability_def SubscribeHave_def UnsubscribeHave_def split: option.split)

lemma reachable_ok: "pm_reachable good pieces pm \<Longrightarrow> pm_ok good pm \<and> pm_pieces pm = pieces"
proof (induction rule: pm_reachable.induct)
  case (completed pm i data res pm')
  then have "i < pm_total pm" by (auto simp: CompletePiece_def pm_ok_def pm_counts_def split: if_splits)
  with completed CompletePiece_ok [of good pm i data res] show ?case by auto
next
  case (released pm i pm')
  then have "i < pm_total pm" by (auto simp: Release_def pm_ok_def pm_counts_def split: if_splits)
  with released Release_ok [of good pm i] Release_pieces [of i pm pm'] show ?case by auto
qed (auto intro: NewPieceManager_ok sel.Assign_ok CancelCh_ok ReleaseAll_ok availability_ok subscribe_ok)

text \<open>C3: The piece manager never panics and never miscounts. In every state reachable by calls in any
  order, fresh or resumed, with disk writes that may fail: completing, releasing or asking for a
  piece of the torrent does not panic (no channel is closed twice), the counter is the number of
  completed pieces, and the done channel is closed exactly when every piece is completed (for a
  torrent with pieces).\<close>

theorem piece_manager_safe:
  assumes "pm_reachable good pieces pm" "i < length pieces" "good i data"
  shows "CompletePiece res i data pm \<noteq> None \<and> Release i pm \<noteq> None
    \<and> Progress pm = (length (filter (\<lambda>s. s = PieceCompleted) (pm_states pm)), length pieces)
    \<and> (pm_done pm \<longleftrightarrow> (\<forall>j < length pieces. pm_states pm ! j = PieceCompleted)) \<and> (IsFinished pm \<longleftrightarrow> pm_done pm)"
proof -
  have ok: "pm_ok good pm" "pm_pieces pm = pieces" using reachable_ok [OF assms(1)] by auto
  then have t: "length (pm_states pm) = length pieces" "pm_total pm = length pieces" by (auto simp: pm_ok_def pm_counts_def)
  have e: "(\<lambda>s. s = PieceCompleted) = (=) PieceCompleted" by auto
  have c: "pm_completed pm = count_list (pm_states pm) PieceCompleted" using ok(1) by (simp add: pm_ok_def pm_counts_def)
  have d: "pm_done pm \<longleftrightarrow> pm_completed pm = length pieces"
    using ok(1) t assms(2) by (auto simp: pm_ok_def pm_counts_def)
  have "CompletePiece res i data pm \<noteq> None" "Release i pm \<noteq> None"
    using CompletePiece_ok [OF ok(1), of i data res] Release_ok [OF ok(1), of i] assms(2,3) t by auto
  moreover have "pm_done pm \<longleftrightarrow> (\<forall>j < length pieces. pm_states pm ! j = PieceCompleted)"
    using d c count_list_all [of "pm_states pm" PieceCompleted] t by simp
  moreover have "IsFinished pm \<longleftrightarrow> pm_done pm" using d t by (simp add: IsFinished_def)
  ultimately show ?thesis using c t by (simp add: Progress_def count_list_eq_length_filter e)
qed

lemma completed_data:
  assumes "pm_reachable good pieces pm"
  shows "case GetPieceData i pm of
      None \<Rightarrow> \<not> (0 \<le> i \<and> i < int (length pieces) \<and> pm_states pm ! nat i = PieceCompleted)
    | Some r \<Rightarrow> 0 \<le> i \<and> i < int (length pieces) \<and> pm_states pm ! nat i = PieceCompleted
        \<and> (\<exists>d. r = Some d \<and> good (nat i) d \<and> Results pm ! nat i = Some d)"
proof -
  have ok: "pm_ok good pm" "pm_pieces pm = pieces" using reachable_ok [OF assms(1)] by auto
  then have t: "length (pm_states pm) = length pieces" "pm_total pm = length pieces" "length (pm_data pm) = length pieces"
    by (auto simp: pm_ok_def pm_counts_def)
  show ?thesis
  proof (cases "0 \<le> i \<and> i < int (length pieces) \<and> pm_states pm ! nat i = PieceCompleted")
    case True
    then have i: "nat i < length pieces" "int (nat i) = i" by auto
    have p: "piece_ok good (pm_store pm) (nat i) PieceCompleted (pm_owners pm ! nat i) (pm_data pm ! nat i)"
      using pm_contents_at [of good pm "nat i"] ok i t True by (auto simp: pm_ok_def)
    show ?thesis
    proof (cases "pm_data pm ! nat i")
      case None
      with p obtain ds where ds: "pm_store pm = Some ds" "DiskHasPiece i ds" using i(2) by (auto simp: piece_ok_def)
      moreover have "disk_ok good ds" using ok(1) ds(1) by (simp add: pm_ok_def pm_contents_def)
      ultimately obtain d where d: "ReadPiece i ds = Inr d" "good (nat i) d" using ReadPiece_good by blast
      then show ?thesis using True None ds i t by (simp add: GetPieceData_def Results_def)
    next
      case (Some d)
      then show ?thesis using True p i t by (simp add: GetPieceData_def Results_def piece_ok_def split: option.split)
    qed
  next
    case False
    then show ?thesis using t by (auto simp: GetPieceData_def)
  qed
qed



definition sample_pieces :: "piece_info list" where
  "sample_pieces = [\<lparr>pi_Index = 0, pi_Hash = [], pi_Length = 2\<rparr>, \<lparr>pi_Index = 1, pi_Hash = [], pi_Length = 2\<rparr>]"

definition sample_io :: write_io where
  "sample_io = \<lparr>io_piece = Done, io_tmp = Done, io_rename = True\<rparr>"

text \<open>A manager of two pieces, the second completed.\<close>

definition sample_manager :: piece_manager where
  "sample_manager = the (CompletePiece sample_io 1 [7, 7] (NewPieceManager sample_pieces 1 None))"

lemma sample_manager_eval:
  "sample_manager = (NewPieceManager sample_pieces 1 None)\<lparr>pm_states := [PiecePending, PieceCompleted],
     pm_data := [None, Some [7, 7]], pm_completed := 1\<rparr>"
  "CompletePiece sample_io 1 [7, 7] (NewPieceManager sample_pieces 1 None) = Some sample_manager"
  by (simp_all add: sample_manager_def CompletePiece_def NewPieceManager_def sample_pieces_def Let_def persist_def close_cancel_def
    close_done_def notify_have_def numeral_2_eq_2)

lemma sample_manager_reachable: "pm_reachable (\<lambda>i d. length d = 2) sample_pieces sample_manager"
  by (rule pm_reachable.completed [OF pm_reachable.fresh _ sample_manager_eval(2)]) simp

theorem piece_manager_safe_witness:
  "CompletePiece sample_io 0 [5, 5] sample_manager \<noteq> None \<and> \<not> pm_done sample_manager
    \<and> pm_done (the (CompletePiece sample_io 0 [5, 5] sample_manager))"
proof -
  let ?pm = "the (CompletePiece sample_io 0 [5, 5] sample_manager)"
  have l: "length sample_pieces = 2" by (simp add: sample_pieces_def)
  note safe = piece_manager_safe [where good = "\<lambda>i d. length d = 2" and pieces = sample_pieces and i = 0]
  have c: "CompletePiece sample_io 0 [5, 5] sample_manager \<noteq> None" "\<not> pm_done sample_manager"
    using safe [OF sample_manager_reachable, of "[5, 5]" sample_io] by (auto simp: l sample_manager_eval(1) less_2_cases_iff)
  then obtain pm where pm: "CompletePiece sample_io 0 [5, 5] sample_manager = Some pm" by blast
  have r: "pm_reachable (\<lambda>i d. length d = 2) sample_pieces pm"
    by (rule pm_reachable.completed [OF sample_manager_reachable _ pm]) simp
  have "pm_states pm = [PieceCompleted, PieceCompleted]"
    using CompletePiece_ok [of "\<lambda>i d. length d = 2" sample_manager 0 "[5, 5]" sample_io] reachable_ok [OF sample_manager_reachable] pm
    by (simp add: sample_manager_eval(1) NewPieceManager_def Let_def sample_pieces_def)
  then have "pm_done pm" using safe [OF r, of "[5, 5]" sample_io] by (auto simp: l less_2_cases_iff)
  with c pm show ?thesis by simp
qed


section \<open>Assigning a piece\<close>

text \<open>C23: What Assign gives to a worker. With either selector, in every reachable state, when the peer has
  a pending piece the worker gets one that the peer has, and it alone becomes in progress and owned
  by it; otherwise, only when few pieces remain (the endgame), it may get a piece that the peer has and
  another worker is downloading, whose state stays; otherwise it gets nothing, and then the peer has no
  pending piece. A completed piece is never assigned.\<close>

theorem Assign_spec:
  assumes "pm_reachable good pieces pm" "Assign (Select s) addr bf pm = (r, pm')"
  shows "(r \<noteq> None \<longleftrightarrow> (\<exists>i < length pieces. HasPiece bf (int i) \<and> (pm_states pm ! i = PiecePending
              \<or> (0 < pm_endgameThreshold pm \<and> int (length pieces) - int (pm_completed pm) \<le> pm_endgameThreshold pm
                 \<and> pm_states pm ! i = PieceInProgress \<and> pm_owners pm ! i \<noteq> addr))))
    \<and> (HasPendingFor bf pm \<longrightarrow> (\<exists>i < length pieces. HasPiece bf (int i) \<and> pm_states pm ! i = PiecePending \<and> r = Some (pieces ! i)
          \<and> pm_states pm' = (pm_states pm)[i := PieceInProgress] \<and> pm_owners pm' = (pm_owners pm)[i := addr]))
    \<and> (\<not> HasPendingFor bf pm \<longrightarrow> pm_states pm' = pm_states pm \<and> pm_owners pm' = pm_owners pm
          \<and> (\<forall>info. r = Some info \<longrightarrow> (\<exists>i < length pieces. info = pieces ! i \<and> HasPiece bf (int i)
               \<and> pm_states pm ! i = PieceInProgress \<and> pm_owners pm ! i \<noteq> addr)))"
proof -
  have ok: "pm_counts pm" "pm_total pm = length pieces" "length (pm_states pm) = length pieces" "pm_pieces pm = pieces"
    using reachable_ok [OF assms(1)] by (auto simp: pm_ok_def pm_counts_def)
  have h: "HasPendingFor bf pm \<longleftrightarrow> (\<exists>i < length pieces. pm_states pm ! i = PiecePending \<and> HasPiece bf (int i))"
    using ok by (auto simp: HasPendingFor_def list_ex_iff)
  from ok(1) show ?thesis
  proof (cases rule: sel.Assign_cases [of pm s addr bf])
    case none
    then show ?thesis using assms(2) ok h by auto
  next
    case (pending i pm1)
    then have r: "r = Some (pieces ! i)" "pm_states pm' = (pm_states pm)[i := PieceInProgress]" "pm_owners pm' = (pm_owners pm)[i := addr]"
      using assms(2) ok by auto
    then show ?thesis using pending(1-3) ok h by auto
  next
    case (endgame i)
    then show ?thesis using assms(2) ok h by auto
  qed
qed

theorem Assign_spec_witness: "fst (Assign (Select (RarestFirstSelector 3)) ''a'' [192] sample_manager) = Some (sample_pieces ! 0)"
proof -
  obtain r pm' where a: "Assign (Select (RarestFirstSelector 3)) ''a'' [192] sample_manager = (r, pm')" by fastforce
  have "HasPendingFor [192] sample_manager"
    by (simp add: HasPendingFor_def sample_manager_eval(1) upt_rec HasPiece_def)
  then show ?thesis using Assign_spec [OF sample_manager_reachable a] a
    by (auto simp: sample_manager_eval(1) sample_pieces_def less_Suc_eq numeral_2_eq_2)
qed



section \<open>Serving completed pieces\<close>

lemma GetBlock_inside:
  assumes "GetPieceData i pm = Some (Some d)" "\<not> l > 131072" "length d < 2 ^ 32 - 131072"
  shows "GetBlock pm i b l = Some (if unat b < length d \<and> unat b + unat l \<le> length d
    then Some (take (unat l) (drop (unat b) d)) else None)"
proof -
  have l: "unat l \<le> 131072" using assms(2) by (simp add: not_less word_le_nat_alt)
  show ?thesis
  proof (cases "unat b < length d")
    case True
    then have "unat (b + l) = unat b + unat l" using l assms(3) by (subst unat_add_lem [THEN iffD1]) simp_all
    then show ?thesis using True assms(1) by (simp add: GetBlock_def Let_def)
  qed (simp add: GetBlock_def Let_def assms(1))
qed

lemma GetBlock_none: "GetPieceData i pm = None \<Longrightarrow> GetBlock pm i b l = Some None"
  by (simp add: GetBlock_def)

text \<open>What is served to other peers. In every reachable state, if the good pieces are shorter than 4 GiB less 128 KiB,
  no request that HandleRequest lets through makes GetBlock panic, and the block it returns is exactly the
  requested range of a good completed piece; a range that is not inside the piece is refused.\<close>

theorem GetBlock_spec:
  assumes "pm_reachable good pieces pm" "\<And>j d. good j d \<Longrightarrow> length d < 2 ^ 32 - 131072" "\<not> l > 131072"
  shows "\<exists>r. GetBlock pm i b l = Some r \<and> (\<forall>x. r = Some x \<longrightarrow>
      (\<exists>d. GetPieceData i pm = Some (Some d) \<and> good (nat i) d \<and> unat b + unat l \<le> length d \<and> x = take (unat l) (drop (unat b) d)))
    \<and> (r = None \<longleftrightarrow> (\<forall>d. GetPieceData i pm = Some (Some d) \<longrightarrow> \<not> (unat b < length d \<and> unat b + unat l \<le> length d)))"
proof (cases "GetPieceData i pm")
  case None
  then show ?thesis by (simp add: GetBlock_none)
next
  case (Some r)
  with completed_data [OF assms(1), of i] obtain d where d: "r = Some d" "good (nat i) d" by auto
  with assms(2) have "length d < 2 ^ 32 - 131072" by blast
  from GetBlock_inside [OF _ assms(3) this, of i pm b] Some d show ?thesis by auto
qed

theorem GetBlock_spec_witness: "GetBlock sample_manager 1 0 2 = Some (Some [7, 7]) \<and> GetBlock sample_manager 1 1 2 = Some None"
proof -
  have d: "GetPieceData 1 sample_manager = Some (Some [7, 7])"
    by (simp add: GetPieceData_def sample_manager_eval(1))
  note spec = GetBlock_spec [OF sample_manager_reachable]
  have "\<not> (2 :: u32) > 131072" by simp
  from spec [OF _ this, of 1 0] spec [OF _ this, of 1 1] show ?thesis by (auto simp: d)
qed

text \<open>The bit field sent to peers marks exactly the completed pieces, and it has one bit for each piece.\<close>

theorem CompletedBitfield_spec:
  assumes "pm_reachable good pieces pm"
  shows "(HasPiece (PMCompletedBitfield pm) i \<longleftrightarrow> 0 \<le> i \<and> i < int (length pieces) \<and> pm_states pm ! nat i = PieceCompleted)
    \<and> length (PMCompletedBitfield pm) = (length pieces + 7) div 8"
proof -
  have t: "pm_total pm = length pieces" "length (pm_states pm) = length pieces"
    using reachable_ok [OF assms] by (auto simp: pm_ok_def pm_counts_def)
  let ?f = "\<lambda>i bf. if pm_states pm ! i = PieceCompleted then SetPiece bf (int i) else bf"
  have "length (fold ?f xs bf) = length bf
      \<and> (has_bit (fold ?f xs bf) n \<longleftrightarrow> has_bit bf n \<or> n \<in> set xs \<and> pm_states pm ! n = PieceCompleted \<and> n div 8 < length bf)"
    for xs bf n
    by (induction xs arbitrary: bf) auto
  moreover have "length (NewBitField (length pieces)) = (length pieces + 7) div 8" by (simp add: NewBitField_def)
  moreover note in_range [of _ "length pieces"]
  ultimately
  have f: "length (PMCompletedBitfield pm) = (length pieces + 7) div 8"
    "has_bit (PMCompletedBitfield pm) n \<longleftrightarrow> n < length pieces \<and> pm_states pm ! n = PieceCompleted" for n
    by (auto simp: PMCompletedBitfield_def t)
  show ?thesis
  proof (cases "0 \<le> i")
    case True
    then obtain n where "i = int n" by (rule nonneg_int_cases)
    with f show ?thesis by simp
  qed (use f in simp)
qed

theorem CompletedBitfield_spec_witness:
  "HasPiece (PMCompletedBitfield sample_manager) 1 \<and> \<not> HasPiece (PMCompletedBitfield sample_manager) 0"
  using CompletedBitfield_spec [OF sample_manager_reachable, of 1] CompletedBitfield_spec [OF sample_manager_reachable, of 0]
  by (simp add: sample_manager_eval(1) sample_pieces_def)

section \<open>Availability\<close>

text \<open>Peers that come and go with their bit fields, and those connected now.\<close>

datatype avail_event = Joins bytes | Leaves bytes

fun avail_step :: "avail_event \<Rightarrow> piece_manager \<Rightarrow> piece_manager" where
  "avail_step (Joins bf) pm = AddAvailability bf pm"
| "avail_step (Leaves bf) pm = RemoveAvailability bf pm"

fun connected_after :: "avail_event list \<Rightarrow> bytes multiset \<Rightarrow> bytes multiset option" where
  "connected_after [] M = Some M"
| "connected_after (Joins bf # es) M = connected_after es (add_mset bf M)"
| "connected_after (Leaves bf # es) M = (if bf \<in># M then connected_after es (M - {#bf#}) else None)"

definition counts_peers :: "bytes multiset \<Rightarrow> piece_manager \<Rightarrow> bool" where
  "counts_peers M pm \<longleftrightarrow> (\<forall>i < length (pm_availability pm). pm_availability pm ! i = int (size {#bf \<in># M. HasPiece bf (int i)#}))"

lemma counts_step:
  "counts_peers M pm \<Longrightarrow> counts_peers (add_mset bf M) (AddAvailability bf pm)"
  "counts_peers (add_mset bf M) pm \<Longrightarrow> counts_peers M (RemoveAvailability bf pm)"
  by (auto simp: counts_peers_def AddAvailability_def RemoveAvailability_def)

lemma avail_run:
  "connected_after es M = Some N \<Longrightarrow> counts_peers M pm
    \<Longrightarrow> counts_peers N (fold avail_step es pm) \<and> length (pm_availability (fold avail_step es pm)) = length (pm_availability pm)"
proof (induction es M arbitrary: pm rule: connected_after.induct)
  case (2 bf es M)
  then show ?case using counts_step(1) [of M pm bf] by (fastforce simp: AddAvailability_def)
next
  case (3 bf es M)
  then have "bf \<in># M" by (auto split: if_splits)
  then obtain N' where "M = add_mset bf N'" by (metis insert_DiffM)
  with 3 show ?case using counts_step(2) [of bf N' pm] by (fastforce simp: RemoveAvailability_def)
qed simp



section \<open>No data of unfinished pieces\<close>

definition no_leftover :: "piece_manager \<Rightarrow> bool" where
  "no_leftover pm \<longleftrightarrow> (\<forall>i < pm_total pm. pm_states pm ! i \<noteq> PieceCompleted \<longrightarrow> pm_data pm ! i = None)"

lemma Assign_effect:
  "pm_total (snd (Assign sel addr bf pm)) = pm_total pm \<and> pm_data (snd (Assign sel addr bf pm)) = pm_data pm
    \<and> (pm_states (snd (Assign sel addr bf pm)) = pm_states pm
       \<or> (\<exists>x. pm_states pm ! x = PiecePending \<and> pm_states (snd (Assign sel addr bf pm)) = (pm_states pm)[x := PieceInProgress]))"
  unfolding Assign_def Let_def by (simp split: option.split) blast

lemma update_incomplete: "xs ! x \<noteq> c \<Longrightarrow> xs[x := v] ! i \<noteq> c \<Longrightarrow> xs ! i \<noteq> c"
  by (cases "i = x") auto

lemma no_leftover_update:
  assumes "no_leftover pm" "pm_states pm ! x \<noteq> PieceCompleted" "pm_states pm' = (pm_states pm)[x := v]" "pm_data pm' = pm_data pm" "pm_total pm' = pm_total pm"
  shows "no_leftover pm'"
  using assms(1,3-5) update_incomplete [OF assms(2), of v] by (simp add: no_leftover_def)

lemma close_effect:
  "close_cancel i pm = Some pm' \<Longrightarrow> pm_states pm' = pm_states pm \<and> pm_data pm' = pm_data pm \<and> pm_total pm' = pm_total pm"
  "close_done pm = Some pm' \<Longrightarrow> pm_states pm' = pm_states pm \<and> pm_data pm' = pm_data pm \<and> pm_total pm' = pm_total pm"
  by (auto simp: close_cancel_def close_done_def split: option.splits if_splits)

lemma persist_effect:
  "pm_states (persist res i d pm) = pm_states pm \<and> pm_total (persist res i d pm) = pm_total pm
    \<and> (pm_data (persist res i d pm) = pm_data pm \<or> pm_data (persist res i d pm) = (pm_data pm)[i := None])"
  by (simp add: persist_def split: option.split prod.split sum.split)

lemma CompletePiece_effect:
  assumes "CompletePiece res i d pm = Some pm'"
  shows "pm' = pm \<or> pm_states pm' = (pm_states pm)[i := PieceCompleted] \<and> (\<exists>v. pm_data pm' = (pm_data pm)[i := v]) \<and> pm_total pm' = pm_total pm"
proof (cases "pm_states pm ! i = PieceCompleted")
  case False
  let ?pm1 = "pm\<lparr>pm_states := (pm_states pm)[i := PieceCompleted], pm_data := (pm_data pm)[i := Some d],
                  pm_owners := (pm_owners pm)[i := []], pm_completed := pm_completed pm + 1\<rparr>"
  obtain pm2 pm3 where "close_cancel i (persist res i d ?pm1) = Some pm2" "close_done pm2 = Some pm3" "pm' = notify_have i pm3"
    using assms False by (auto simp: CompletePiece_def Let_def bind_eq_Some_conv split: if_splits)
  then show ?thesis using close_effect persist_effect [of res i d ?pm1] by (fastforce simp: notify_have_def)
qed (use assms in \<open>auto simp: CompletePiece_def split: if_splits\<close>)

lemma no_leftovers: "pm_reachable g pieces pm \<Longrightarrow> no_leftover pm"
proof (induction rule: pm_reachable.induct)
  case (completed pm i data res pm')
  have c: "pm_counts pm" using reachable_ok [OF completed.hyps(1)] by (simp add: pm_ok_def)
  from CompletePiece_effect [OF completed.hyps(3)] consider "pm' = pm"
    | v where "pm_states pm' = (pm_states pm)[i := PieceCompleted]" "pm_data pm' = (pm_data pm)[i := v]" "pm_total pm' = pm_total pm" by blast
  then show ?case
  proof cases
    case 2
    moreover have "length (pm_states pm) = pm_total pm" "length (pm_data pm) = pm_total pm" using c by (simp_all add: pm_counts_def)
    ultimately show ?thesis using completed.IH by (cases "i < pm_total pm") (auto simp: no_leftover_def nth_list_update)
  qed (simp add: completed.IH)
next
  case (assigned pm s addr bf)
  let ?pm = "snd (Assign (Select s) addr bf pm)"
  note a = Assign_effect [of "Select s" addr bf pm]
  show ?case
  proof (cases "pm_states ?pm = pm_states pm")
    case True
    then show ?thesis using assigned.IH a by (simp add: no_leftover_def)
  next
    case False
    with a obtain x where "pm_states pm ! x = PiecePending" "pm_states ?pm = (pm_states pm)[x := PieceInProgress]" by blast
    then show ?thesis using a by (intro no_leftover_update [OF assigned.IH]) simp_all
  qed
next
  case (released pm i pm')
  then have "pm' = pm \<or> pm_states pm ! i \<noteq> PieceCompleted \<and> pm_states pm' = (pm_states pm)[i := PiecePending] \<and> pm_data pm' = pm_data pm \<and> pm_total pm' = pm_total pm"
    by (auto simp: Release_def split: if_splits)
  then show ?case using released.IH no_leftover_update by blast
next
  case (released_all pm addr)
  have "pm_counts pm" using reachable_ok [OF released_all.hyps(1)] by (simp add: pm_ok_def)
  then show ?case using released_all.IH by (auto simp: ReleaseAll_def Let_def no_leftover_def pm_counts_def)
qed (auto simp: no_leftover_def NewPieceManager_def Let_def CancelCh_def AddAvailability_def RemoveAvailability_def IncrementAvailability_def
    SubscribeHave_def UnsubscribeHave_def split: option.split)

end
