(* ===== verification/PexManager.thy ===== *)
theory PexManager
  imports Pex "HOL-Library.Multiset"
begin

text \<open>
  \<open>internal/downloader/pex_manager.go\<close>: the connected peers, what each of them has been told, and
  the addresses learnt from PEX messages. The maps are keyed by the text of an address and port; the
  text determines the address, so the keys are the addresses themselves, and a map to \<open>true\<close> is a list
  without repetitions. Go iterates over a map in any order: \<open>order\<close> is the order of an iteration.
\<close>

record pex_manager =
  px_connected :: "addrport list"
  px_lastSent :: "addrport \<rightharpoonup> addrport list"
  px_discovered :: "addrport list"
  px_seen :: "addrport list"

definition PEXMaxAdded :: nat where "PEXMaxAdded = 50"

definition NewPEXManager :: "addrport list \<Rightarrow> pex_manager" where
  "NewPEXManager initialPeers = \<lparr>px_connected = [], px_lastSent = Map.empty, px_discovered = [],
     px_seen = fold List.insert initialPeers []\<rparr>"

definition PeerConnected :: "addrport \<Rightarrow> pex_manager \<Rightarrow> pex_manager" where
  "PeerConnected addr px = px\<lparr>px_connected := List.insert addr (px_connected px)\<rparr>"

definition PeerDisconnected :: "addrport \<Rightarrow> pex_manager \<Rightarrow> pex_manager" where
  "PeerDisconnected addr px = px\<lparr>px_connected := removeAll addr (px_connected px), px_lastSent := (px_lastSent px)(addr := None)\<rparr>"

text \<open>The channel holds 256 addresses; what does not fit is dropped but stays seen.\<close>

fun handle_added :: "addrport list \<Rightarrow> pex_manager \<Rightarrow> pex_manager" where
  "handle_added [] px = px"
| "handle_added (addr # as) px =
     (if addr \<in> set (px_seen px) then handle_added as px
      else (let px = px\<lparr>px_seen := addr # px_seen px\<rparr>
            in handle_added as (if length (px_discovered px) < 256 then px\<lparr>px_discovered := px_discovered px @ [addr]\<rparr> else px)))"

definition HandlePEX :: "pex_message \<Rightarrow> pex_manager \<Rightarrow> pex_manager" where
  "HandlePEX msg px = handle_added (Added msg) px"

text \<open>Receiving from the channel.\<close>

definition next_discovered :: "pex_manager \<Rightarrow> addrport option \<times> pex_manager" where
  "next_discovered px =
     (case px_discovered px of [] \<Rightarrow> (None, px) | a # as \<Rightarrow> (Some a, px\<lparr>px_discovered := as\<rparr>))"

definition last_sent :: "addrport \<Rightarrow> pex_manager \<Rightarrow> addrport list" where
  "last_sent peerAddr px = (case px_lastSent px peerAddr of Some l \<Rightarrow> l | None \<Rightarrow> [])"

definition ComputeDelta :: "(addrport list \<Rightarrow> addrport list) \<Rightarrow> addrport \<Rightarrow> pex_manager \<Rightarrow> pex_message \<times> pex_manager" where
  "ComputeDelta order peerAddr px =
     (let prev = last_sent peerAddr px;
          current = filter (\<lambda>a. a \<noteq> peerAddr) (px_connected px);
          added = take PEXMaxAdded (filter (\<lambda>a. a \<notin> set prev) (order current));
          dropped = filter (\<lambda>a. a \<notin> set current) (order prev)
      in (\<lparr>Added = added, AddedF = replicate (length added) 0, Dropped = dropped\<rparr>,
          px\<lparr>px_lastSent := (px_lastSent px)(peerAddr \<mapsto> current)\<rparr>))"

section \<open>What the remote peer knows\<close>

text \<open>A receiver that adds and drops what a message says.\<close>

definition told :: "pex_message \<Rightarrow> addrport set \<Rightarrow> addrport set" where
  "told msg known = (known - set (Dropped msg)) \<union> set (Added msg)"

text \<open>Ticks of one peer's send loop among connections and disconnections of other peers; \<open>None\<close> is
  what the receiver has put together once a message had to leave out additions.\<close>

datatype pex_event = Connects addrport | Disconnects addrport | Sends "addrport list \<Rightarrow> addrport list"

fun pex_run :: "addrport \<Rightarrow> pex_event list \<Rightarrow> pex_manager \<Rightarrow> addrport set \<Rightarrow> pex_manager \<times> addrport set" where
  "pex_run me [] px known = (px, known)"
| "pex_run me (Connects a # es) px known = pex_run me es (PeerConnected a px) known"
| "pex_run me (Disconnects a # es) px known = pex_run me es (PeerDisconnected a px) known"
| "pex_run me (Sends order # es) px known =
     (case ComputeDelta order me px of (msg, px) \<Rightarrow> pex_run me es px (told msg known))"

text \<open>The number of addresses that a message would have to add.\<close>

fun small_deltas :: "addrport \<Rightarrow> pex_event list \<Rightarrow> pex_manager \<Rightarrow> bool" where
  "small_deltas me [] px = True"
| "small_deltas me (Connects a # es) px = small_deltas me es (PeerConnected a px)"
| "small_deltas me (Disconnects a # es) px = (a \<noteq> me \<and> small_deltas me es (PeerDisconnected a px))"
| "small_deltas me (Sends order # es) px =
     (length (filter (\<lambda>a. a \<noteq> me \<and> a \<notin> set (last_sent me px)) (px_connected px)) \<le> 50
      \<and> small_deltas me es (snd (ComputeDelta order me px)))"

definition fair_orders :: "pex_event list \<Rightarrow> bool" where
  "fair_orders es \<longleftrightarrow> (\<forall>order l. Sends order \<in> set es \<longrightarrow> mset (order l) = mset l)"

lemma fair_orders_Cons [simp]:
  "fair_orders (e # es) \<longleftrightarrow> (\<forall>order l. e = Sends order \<longrightarrow> mset (order l) = mset l) \<and> fair_orders es"
  by (auto simp: fair_orders_def)

lemma mset_order:
  assumes "\<And>l. mset (order l) = mset l"
  shows "set (order l) = set l" "length (filter P (order l)) = length (filter P l)"
proof -
  show "set (order l) = set l" using assms by (metis set_mset_mset)
  show "length (filter P (order l)) = length (filter P l)" using assms by (metis mset_filter size_mset)
qed

lemma ComputeDelta_told:
  assumes "\<And>l. mset (order l) = mset l"
    and "length (filter (\<lambda>a. a \<noteq> me \<and> a \<notin> set prev) (px_connected px)) \<le> 50"
    and "prev = last_sent me px"
  shows "told (fst (ComputeDelta order me px)) (set prev) = set (px_connected px) - {me}
    \<and> last_sent me (snd (ComputeDelta order me px)) = filter (\<lambda>a. a \<noteq> me) (px_connected px)"
proof -
  let ?c = "filter (\<lambda>a. a \<noteq> me) (px_connected px)"
  have "length (filter (\<lambda>a. a \<notin> set prev) (order ?c)) = length (filter (\<lambda>a. a \<notin> set prev) ?c)"
    by (rule mset_order(2) [OF assms(1)])
  also have "\<dots> \<le> 50" using assms(2) by (simp add: conj_commute)
  finally have "take 50 (filter (\<lambda>a. a \<notin> set prev) (order ?c)) = filter (\<lambda>a. a \<notin> set prev) (order ?c)" by simp
  then show ?thesis
    by (auto simp: ComputeDelta_def Let_def told_def PEXMaxAdded_def assms(3) [symmetric] mset_order(1) [OF assms(1)]
      last_sent_def [of me "px\<lparr>px_lastSent := _\<rparr>"])
qed

text \<open>What the receiver knows is what the manager remembers to have sent.\<close>

lemma pex_run_known:
  assumes "small_deltas me es px" "fair_orders es" "known = set (last_sent me px)"
  shows "snd (pex_run me es px known) = set (last_sent me (fst (pex_run me es px known)))"
  using assms
proof (induction me es px known rule: pex_run.induct)
  case (2 me a es px known)
  then show ?case by (simp add: PeerConnected_def last_sent_def)
next
  case (3 me a es px known)
  have "last_sent me (PeerDisconnected a px) = last_sent me px" using 3(2) by (auto simp add: PeerDisconnected_def last_sent_def)
  with 3 show ?case by simp
next
  case (4 me order es px known)
  obtain msg px' where d: "ComputeDelta order me px = (msg, px')" by fastforce
  have o: "\<And>l. mset (order l) = mset l" using 4(3) by simp
  from ComputeDelta_told [OF o _ refl, of me px] 4(2,4) d
  have "told msg known = set (px_connected px) - {me}" "last_sent me px' = filter (\<lambda>a. a \<noteq> me) (px_connected px)"
    by simp_all
  then have "told msg known = set (last_sent me px')" by auto
  with 4(1) [OF d [symmetric]] 4(2,3) show ?case by (simp add: d)
qed simp

text \<open>PEX keeps a peer up to date. If no message has to add more than 50 addresses, then after any connections
  and disconnections, and with the maps iterated in any order, a peer that follows the messages sent to it knows, after
  each message, exactly the other peers connected at that time.\<close>

theorem ComputeDelta_in_sync:
  assumes "small_deltas me (es @ [Sends order]) (NewPEXManager initial)" "fair_orders (es @ [Sends order])"
  shows "snd (pex_run me (es @ [Sends order]) (NewPEXManager initial) {})
    = set (px_connected (fst (pex_run me es (NewPEXManager initial) {}))) - {me}"
proof -
  have run: "pex_run me (xs @ ys) px known = (case pex_run me xs px known of (px, known) \<Rightarrow> pex_run me ys px known)"
    for xs ys px known
    by (induction me xs px known rule: pex_run.induct) (auto split: prod.split)
  have small: "small_deltas me (xs @ ys) px \<longleftrightarrow> small_deltas me xs px \<and> small_deltas me ys (fst (pex_run me xs px known))" for xs ys px known
    by (induction me xs px known rule: pex_run.induct) (auto split: prod.split)
  obtain px known where p: "pex_run me es (NewPEXManager initial) {} = (px, known)" by fastforce
  have k: "known = set (last_sent me px)"
    using pex_run_known [of me es "NewPEXManager initial" "{}"] assms small [of es "[Sends order]" "NewPEXManager initial" "{}"] p
    by (simp add: fair_orders_def NewPEXManager_def last_sent_def)
  have o: "mset (order l) = mset l" for l using assms(2) by (auto simp: fair_orders_def)
  have l: "length (filter (\<lambda>a. a \<noteq> me \<and> a \<notin> known) (px_connected px)) \<le> 50"
    using assms(1) small [of es "[Sends order]" "NewPEXManager initial" "{}"] p k by simp
  obtain msg px' where d: "ComputeDelta order me px = (msg, px')" by fastforce
  from ComputeDelta_told [OF o _ refl, of me px] l k show ?thesis by (simp add: run p d)
qed


definition sample_events :: "pex_event list" where
  "sample_events = [Connects (AddrPort (IPv4 [10, 0, 0, 1]) 1), Connects (AddrPort (IPv4 [10, 0, 0, 2]) 2), Sends id,
     Disconnects (AddrPort (IPv4 [10, 0, 0, 2]) 2), Connects (AddrPort (IPv4 [10, 0, 0, 3]) 3)]"

theorem ComputeDelta_in_sync_witness:
  "snd (pex_run (AddrPort (IPv4 [10, 0, 0, 1]) 1) (sample_events @ [Sends rev]) (NewPEXManager []) {})
    = {AddrPort (IPv4 [10, 0, 0, 3]) 3}"
proof -
  note ev = sample_events_def PeerConnected_def PeerDisconnected_def NewPEXManager_def ComputeDelta_def List.insert_def last_sent_def
  have s: "small_deltas (AddrPort (IPv4 [10, 0, 0, 1]) 1) (sample_events @ [Sends rev]) (NewPEXManager [])"
    by (simp add: ev)
  have f: "fair_orders (sample_events @ [Sends rev])" by (simp add: sample_events_def) (simp add: fair_orders_def)
  show ?thesis unfolding ComputeDelta_in_sync [OF s f] by (auto simp: ev)
qed

section \<open>New peers\<close>

datatype discovery = Heard pex_message | Taken

text \<open>The addresses handed to the spawner of workers.\<close>

fun discover :: "discovery list \<Rightarrow> pex_manager \<Rightarrow> addrport list \<times> pex_manager" where
  "discover [] px = ([], px)"
| "discover (Heard msg # es) px = discover es (HandlePEX msg px)"
| "discover (Taken # es) px =
     (case next_discovered px of
        (None, px) \<Rightarrow> discover es px
      | (Some a, px) \<Rightarrow> (case discover es px of (as, px) \<Rightarrow> (a # as, px)))"

definition pex_ok :: "addrport set \<Rightarrow> pex_manager \<Rightarrow> bool" where
  "pex_ok old px \<longleftrightarrow> distinct (px_discovered px) \<and> set (px_discovered px) \<inter> old = {} \<and> old \<subseteq> set (px_seen px)
     \<and> set (px_discovered px) \<subseteq> set (px_seen px) \<and> length (px_discovered px) \<le> 256"

lemma handle_added_ok: "pex_ok old px \<Longrightarrow> pex_ok old (handle_added as px)"
proof (induction as px rule: handle_added.induct)
  case (2 addr as px)
  show ?case
  proof (cases "addr \<in> set (px_seen px)")
    case True
    with 2 show ?thesis by simp
  next
    case False
    then have "pex_ok old (if length (px_discovered px) < 256
        then px\<lparr>px_seen := addr # px_seen px, px_discovered := px_discovered px @ [addr]\<rparr> else px\<lparr>px_seen := addr # px_seen px\<rparr>)"
      using 2(3) by (auto simp: pex_ok_def)
    with 2(2) [OF False refl] False show ?thesis by (simp add: Let_def split: if_splits)
  qed
qed simp

lemma discover_ok: "pex_ok old px \<Longrightarrow> distinct (fst (discover es px)) \<and> set (fst (discover es px)) \<inter> old = {}"
proof (induction es px arbitrary: old rule: discover.induct)
  case (2 msg es px)
  then have "pex_ok old (HandlePEX msg px)" by (simp add: HandlePEX_def handle_added_ok)
  from 2(1) [OF this] show ?case by simp
next
  case (3 es px)
  show ?case
  proof (cases "px_discovered px")
    case Nil
    with 3 show ?thesis by (simp add: next_discovered_def)
  next
    case (Cons a as)
    then have n: "next_discovered px = (Some a, px\<lparr>px_discovered := as\<rparr>)" by (simp add: next_discovered_def)
    have "pex_ok (insert a old) (px\<lparr>px_discovered := as\<rparr>)" using 3(3) Cons by (auto simp: pex_ok_def)
    from 3(2) [OF n [symmetric] refl this] show ?thesis using 3(3) Cons by (auto simp: n pex_ok_def split: prod.split)
  qed
qed simp

text \<open>Every address heard of through PEX is handed out at most once, and none of the addresses the download
  started with is, so no second worker is started for an address, whatever the peers send.\<close>

theorem discovered_once:
  "distinct (fst (discover es (NewPEXManager initial))) \<and> set (fst (discover es (NewPEXManager initial))) \<inter> set initial = {}"
proof -
  have "set (fold List.insert as bs) = set as \<union> set bs" for as bs :: "addrport list" by (induction as arbitrary: bs) auto
  then have "pex_ok (set initial) (NewPEXManager initial)" by (simp add: pex_ok_def NewPEXManager_def)
  then show ?thesis by (rule discover_ok)
qed

end
