(* ===== verification/Worker.thy ===== *)
theory Worker
  imports Handshake PieceManager PexManager
begin

text \<open>
  The workers of a download (\<open>internal/downloader/worker.go\<close>). A worker is a small machine over its
  peer and the shared piece and PEX managers: one step for each region of the code between two
  points at which another goroutine can change the shared state. \<open>None\<close> is a panic, which ends the
  process. What the outside decides in a step (the context, the random choice, the disk, the
  dialled connection, the cancel channel) is the step's environment.
\<close>

datatype worker_error = CtxDone | WorkerError string peer_error | DialFailed

datatype worker_pc =
    AtConnect | AtSetup | AtRegister | AtAvailability | AtSubscribe
  | AtTop | AtAssign | AtUnassigned | AtAssigned piece_info | AtFetch piece_info bool | AtRelease piece_info peer_error
  | AtRechoked | AtComplete piece_info bytes | AtSend piece_info bytes
  | AtNotInterested | AtWait | AtHave int | AtPending
  | AtUnsubscribe "worker_error option" | AtLeave "worker_error option" | AtReleaseAll "worker_error option"
  | AtRemove "worker_error option" | Gone "worker_error option"

text \<open>\<open>w_addr\<close> is the text of the peer's address, the name under which it owns pieces.\<close>

record worker =
  w_addr :: string
  w_peer :: peer_state
  w_infoHash :: bytes
  w_haveCh :: nat
  w_attempted :: nat
  w_downloaded :: nat
  w_failed :: nat
  w_pc :: worker_pc

record shared =
  sh_pm :: piece_manager
  sh_pex :: pex_manager
  sh_results :: "(nat \<times> bytes) list"

record worker_env =
  e_ctx_done :: bool
  e_selector :: selector
  e_io :: write_io
  e_conn :: "conn option"
  e_cancel :: "nat \<Rightarrow> bool"

definition NewWorker :: "string \<Rightarrow> addrport \<Rightarrow> bytes \<Rightarrow> worker" where
  "NewWorker addr ap infoHash =
     \<lparr>w_addr = addr, w_peer = (accepted_peer \<lparr>c_in = [], c_out = [], c_writes = 0\<rparr> [])\<lparr>p_AddrPort := ap, p_AmChoking := False\<rparr>,
      w_infoHash = infoHash, w_haveCh = 0, w_attempted = 0, w_downloaded = 0, w_failed = 0, w_pc = AtConnect\<rparr>"

section \<open>Setup\<close>

definition negotiate :: "handshake \<Rightarrow> peer_state \<Rightarrow> peer_state option" where
  "negotiate h p =
     (if h_Reserved h ! 5 AND 0x10 \<noteq> 0 then
        (case ExtensionHandshake p of
           None \<Rightarrow> None
         | Some (Inl e, p) \<Rightarrow> Some p
         | Some (Inr r, p) \<Rightarrow> Some (p\<lparr>p_UtPexID := UtPexID r, p_OnPEX := p_OnPEX p \<or> UtPexID r > 0\<rparr>))
      else Some p)"

definition setup_upload :: "piece_manager \<Rightarrow> peer_state \<Rightarrow> ((worker_error + unit) \<times> peer_state) option" where
  "setup_upload pm p =
     (case SendUnchoke (p\<lparr>p_BlockServer := Some (GetBlock pm), p_AmChoking := False\<rparr>) of
        None \<Rightarrow> None
      | Some (_, p) \<Rightarrow>
          (case SendInterested p of
             None \<Rightarrow> None
           | Some (False, p) \<Rightarrow> Some (Inl (WorkerError ''interested'' WriteError), p)
           | Some (True, p) \<Rightarrow>
               (case WaitForUnchoke p of
                  None \<Rightarrow> None
                | Some (Inl e, p) \<Rightarrow> Some (Inl (WorkerError ''unchoke'' e), p)
                | Some (Inr _, p) \<Rightarrow> Some (Inr (), p))))"

definition worker_setup :: "bytes \<Rightarrow> piece_manager \<Rightarrow> peer_state \<Rightarrow> ((worker_error + unit) \<times> peer_state) option" where
  "worker_setup infoHash pm p =
     (case client_handshake infoHash True p of
        (Inl e, p) \<Rightarrow> Some (Inl (WorkerError ''handshake'' e), p)
      | (Inr h, p) \<Rightarrow>
          (case ReadBitfield p of
             (Inl e, p) \<Rightarrow> Some (Inl (WorkerError ''bitfield'' e), p)
           | (Inr _, p) \<Rightarrow> (case negotiate h p of None \<Rightarrow> None | Some p \<Rightarrow> setup_upload pm p)))"

section \<open>Have messages\<close>

text \<open>An index that cannot be sent is lost, and the rest stays in the channel.\<close>

fun send_haves :: "nat list \<Rightarrow> peer_state \<Rightarrow> (nat list \<times> peer_state) option" where
  "send_haves [] p = Some ([], p)"
| "send_haves (i # is) p =
     (case SendHave (of_nat i) p of
        None \<Rightarrow> None
      | Some (False, p) \<Rightarrow> Some (is, p)
      | Some (True, p) \<Rightarrow> send_haves is p)"

definition pending_haves :: "nat \<Rightarrow> piece_manager \<Rightarrow> nat list" where
  "pending_haves ch pm = (case map_of (pm_haveSubs pm) ch of Some buf \<Rightarrow> buf | None \<Rightarrow> [])"

definition sendPendingHaves :: "worker \<Rightarrow> shared \<Rightarrow> (worker \<times> shared) option" where
  "sendPendingHaves w sh =
     map_option (\<lambda>(rest, p). (w\<lparr>w_peer := p\<rparr>, sh\<lparr>sh_pm := (sh_pm sh)\<lparr>pm_haveSubs :=
         map (\<lambda>(ch, buf). if ch = w_haveCh w then (ch, rest) else (ch, buf)) (pm_haveSubs (sh_pm sh))\<rparr>\<rparr>))
       (send_haves (pending_haves (w_haveCh w) (sh_pm sh)) (w_peer w))"

section \<open>The steps\<close>

definition goto :: "worker_pc \<Rightarrow> worker \<Rightarrow> worker" where
  "goto pc w = w\<lparr>w_pc := pc\<rparr>"

text \<open>Run, up to the loop.\<close>

definition connect_step :: "worker_env \<Rightarrow> worker \<Rightarrow> worker" where
  "connect_step e w =
     (if e_ctx_done e then goto (Gone (Some CtxDone)) w
      else case e_conn e of
             None \<Rightarrow> goto (Gone (Some DialFailed)) w
           | Some c \<Rightarrow> goto AtSetup (w\<lparr>w_peer := (w_peer w)\<lparr>p_Conn := c\<rparr>\<rparr>))"

definition setup_step :: "worker \<Rightarrow> shared \<Rightarrow> worker option" where
  "setup_step w sh =
     map_option (\<lambda>(r, p). goto (case r of Inl err \<Rightarrow> AtLeave (Some err) | Inr _ \<Rightarrow> AtRegister) (w\<lparr>w_peer := p\<rparr>))
       (worker_setup (w_infoHash w) (sh_pm sh) (w_peer w))"

text \<open>The loop over pieces.\<close>

definition top_step :: "worker_env \<Rightarrow> worker \<Rightarrow> shared \<Rightarrow> (worker \<times> shared) option" where
  "top_step e w sh =
     map_option (\<lambda>(w, sh). (goto (if e_ctx_done e then AtUnsubscribe (Some CtxDone)
         else if pm_done (sh_pm sh) then AtUnsubscribe None else AtAssign) w, sh))
       (sendPendingHaves w sh)"

definition assign_step :: "worker_env \<Rightarrow> worker \<Rightarrow> shared \<Rightarrow> worker \<times> shared" where
  "assign_step e w sh =
     (case Assign (Select (e_selector e)) (w_addr w) (p_BitField (w_peer w)) (sh_pm sh) of
        (None, pm) \<Rightarrow> (goto AtUnassigned w, sh\<lparr>sh_pm := pm\<rparr>)
      | (Some info, pm) \<Rightarrow> (goto (AtAssigned info) (w\<lparr>w_attempted := w_attempted w + 1\<rparr>), sh\<lparr>sh_pm := pm\<rparr>))"

definition assigned_step :: "piece_info \<Rightarrow> worker \<Rightarrow> shared \<Rightarrow> worker \<times> shared" where
  "assigned_step info w sh =
     (if pm_endgameActivated (sh_pm sh)
      then (goto (AtFetch info True) w, sh\<lparr>sh_pm := snd (CancelCh (pi_Index info) (sh_pm sh))\<rparr>)
      else (goto (AtFetch info False) w, sh))"

definition fetch_step :: "worker_env \<Rightarrow> piece_info \<Rightarrow> bool \<Rightarrow> worker \<Rightarrow> worker option" where
  "fetch_step e info endgame w =
     map_option (\<lambda>(r, p). goto (case r of
           Inl ErrPieceCancelled \<Rightarrow> AtTop
         | Inl err \<Rightarrow> AtRelease info err
         | Inr piece \<Rightarrow> AtComplete info piece) (w\<lparr>w_peer := p\<rparr>))
       (GetPiece (pi_Hash info) (pi_Length info) (of_nat (pi_Index info)) (if endgame then e_cancel e else (\<lambda>_. False)) (w_peer w))"

definition release_step :: "piece_info \<Rightarrow> peer_error \<Rightarrow> worker \<Rightarrow> shared \<Rightarrow> (worker \<times> shared) option" where
  "release_step info err w sh =
     map_option (\<lambda>pm. (if err = ErrChoked then goto AtRechoked w else goto AtTop (w\<lparr>w_failed := w_failed w + 1\<rparr>), sh\<lparr>sh_pm := pm\<rparr>))
       (Release (pi_Index info) (sh_pm sh))"

definition rechoked_step :: "worker \<Rightarrow> worker option" where
  "rechoked_step w =
     map_option (\<lambda>(r, p). goto (case r of Inl err \<Rightarrow> AtUnsubscribe (Some (WorkerError ''unchoke-recovery'' err)) | Inr _ \<Rightarrow> AtTop)
         (w\<lparr>w_peer := p\<rparr>))
       (WaitForUnchoke (w_peer w))"

definition complete_step :: "worker_env \<Rightarrow> piece_info \<Rightarrow> bytes \<Rightarrow> worker \<Rightarrow> shared \<Rightarrow> (worker \<times> shared) option" where
  "complete_step e info piece w sh =
     map_option (\<lambda>pm. (goto (AtSend info piece) w, sh\<lparr>sh_pm := pm\<rparr>)) (CompletePiece (e_io e) (pi_Index info) piece (sh_pm sh))"

definition send_step :: "worker_env \<Rightarrow> piece_info \<Rightarrow> bytes \<Rightarrow> worker \<Rightarrow> shared \<Rightarrow> worker \<times> shared" where
  "send_step e info piece w sh =
     (if e_ctx_done e then (goto (AtUnsubscribe (Some CtxDone)) w, sh)
      else (goto AtTop (w\<lparr>w_downloaded := w_downloaded w + 1\<rparr>), sh\<lparr>sh_results := sh_results sh @ [(pi_Index info, piece)]\<rparr>))"

text \<open>Waiting for new pieces. A read past its deadline is the wrapped error that ends the wait.\<close>

definition wait_message :: "peer_message \<Rightarrow> worker \<Rightarrow> worker option" where
  "wait_message msg w =
     (if IsKeepAlive msg then Some (goto AtWait w)
      else if m_ID msg = 4 then
        (if length (m_Payload msg) \<ge> 4
         then Some (goto (AtHave (uint (the (get32 (m_Payload msg))))) (w\<lparr>w_peer := on_have (m_Payload msg) (w_peer w)\<rparr>))
         else Some (goto AtWait w))
      else if m_ID msg = 0 then Some (goto AtWait (w\<lparr>w_peer := (w_peer w)\<lparr>p_Choked := True\<rparr>\<rparr>))
      else if m_ID msg = 1 then Some (goto AtWait (w\<lparr>w_peer := (w_peer w)\<lparr>p_Choked := False\<rparr>\<rparr>))
      else if m_ID msg = 6 then
        map_option (\<lambda>(_, p). goto AtWait (w\<lparr>w_peer := p\<rparr>)) (HandleRequest (m_Payload msg) (w_peer w))
      else if m_ID msg = 20 then Some (goto AtWait (w\<lparr>w_peer := HandleExtension (m_Payload msg) (w_peer w)\<rparr>))
      else Some (goto AtWait w))"

definition wait_step :: "worker_env \<Rightarrow> worker \<Rightarrow> shared \<Rightarrow> (worker \<times> shared) option" where
  "wait_step e w sh =
     (if e_ctx_done e then Some (goto (AtUnsubscribe (Some CtxDone)) w, sh)
      else if pm_done (sh_pm sh) then Some (goto AtTop w, sh)
      else (case sendPendingHaves w sh of
              None \<Rightarrow> None
            | Some (w, sh) \<Rightarrow>
                (case read_message (w_peer w) of
                   (Inl err, p) \<Rightarrow> Some (goto (AtUnsubscribe (Some (WorkerError ''wait-for-pieces'' err))) (w\<lparr>w_peer := p\<rparr>), sh)
                 | (Inr msg, p) \<Rightarrow> map_option (\<lambda>w. (w, sh)) (wait_message msg (w\<lparr>w_peer := p\<rparr>)))))"

definition pending_step :: "worker \<Rightarrow> shared \<Rightarrow> worker option" where
  "pending_step w sh =
     (if \<not> HasPendingFor (p_BitField (w_peer w)) (sh_pm sh) then Some (goto AtWait w)
      else (case SendInterested (w_peer w) of
              None \<Rightarrow> None
            | Some (False, p) \<Rightarrow> Some (goto (AtUnsubscribe (Some (WorkerError ''re-interested'' WriteError))) (w\<lparr>w_peer := p\<rparr>))
            | Some (True, p) \<Rightarrow>
                map_option (\<lambda>(r, p). goto (case r of Inl err \<Rightarrow> AtUnsubscribe (Some (WorkerError ''re-unchoke'' err)) | Inr _ \<Rightarrow> AtTop)
                    (w\<lparr>w_peer := p\<rparr>)) (WaitForUnchoke p)))"

text \<open>PEX messages that came in are handed to the manager; requests are answered from the manager's
  state at the beginning of the step.\<close>

definition deliver_pex :: "worker \<times> shared \<Rightarrow> worker \<times> shared" where
  "deliver_pex ws = (case ws of (w, sh) \<Rightarrow>
     (w\<lparr>w_peer := (w_peer w)\<lparr>p_pex_received := []\<rparr>\<rparr>, sh\<lparr>sh_pex := fold HandlePEX (p_pex_received (w_peer w)) (sh_pex sh)\<rparr>))"

definition with_server :: "shared \<Rightarrow> worker \<Rightarrow> worker" where
  "with_server sh w = w\<lparr>w_peer := (w_peer w)\<lparr>p_BlockServer := map_option (\<lambda>_. GetBlock (sh_pm sh)) (p_BlockServer (w_peer w))\<rparr>\<rparr>"

definition machine_step :: "worker_env \<Rightarrow> worker \<Rightarrow> shared \<Rightarrow> (worker \<times> shared) option" where
  "machine_step e w sh =
     (case w_pc w of
        AtConnect \<Rightarrow> Some (connect_step e w, sh)
      | AtSetup \<Rightarrow> map_option (\<lambda>w. (w, sh)) (setup_step w sh)
      | AtRegister \<Rightarrow> Some (goto AtAvailability w, sh\<lparr>sh_pex := PeerConnected (p_AddrPort (w_peer w)) (sh_pex sh)\<rparr>)
      | AtAvailability \<Rightarrow> Some (goto AtSubscribe w, sh\<lparr>sh_pm := AddAvailability (p_BitField (w_peer w)) (sh_pm sh)\<rparr>)
      | AtSubscribe \<Rightarrow> (case SubscribeHave (sh_pm sh) of (ch, pm) \<Rightarrow> Some (goto AtTop (w\<lparr>w_haveCh := ch\<rparr>), sh\<lparr>sh_pm := pm\<rparr>))
      | AtTop \<Rightarrow> top_step e w sh
      | AtAssign \<Rightarrow> Some (assign_step e w sh)
      | AtUnassigned \<Rightarrow> Some (goto (if IsFinished (sh_pm sh) then AtUnsubscribe None else AtNotInterested) w, sh)
      | AtAssigned info \<Rightarrow> Some (assigned_step info w sh)
      | AtFetch info endgame \<Rightarrow> map_option (\<lambda>w. (w, sh)) (fetch_step e info endgame w)
      | AtRelease info err \<Rightarrow> release_step info err w sh
      | AtRechoked \<Rightarrow> map_option (\<lambda>w. (w, sh)) (rechoked_step w)
      | AtComplete info piece \<Rightarrow> complete_step e info piece w sh
      | AtSend info piece \<Rightarrow> Some (send_step e info piece w sh)
      | AtNotInterested \<Rightarrow> map_option (\<lambda>(_, p). (goto AtWait (w\<lparr>w_peer := p\<rparr>), sh)) (SendNotInterested (w_peer w))
      | AtWait \<Rightarrow> wait_step e w sh
      | AtHave idx \<Rightarrow> Some (goto AtPending w, sh\<lparr>sh_pm := IncrementAvailability idx (sh_pm sh)\<rparr>)
      | AtPending \<Rightarrow> map_option (\<lambda>w. (w, sh)) (pending_step w sh)
      | AtUnsubscribe r \<Rightarrow> Some (goto (AtLeave r) w, sh\<lparr>sh_pm := UnsubscribeHave (w_haveCh w) (sh_pm sh)\<rparr>)
      | AtLeave r \<Rightarrow> Some (goto (AtReleaseAll r) w, sh\<lparr>sh_pex := PeerDisconnected (p_AddrPort (w_peer w)) (sh_pex sh)\<rparr>)
      | AtReleaseAll r \<Rightarrow> Some (goto (AtRemove r) w, sh\<lparr>sh_pm := ReleaseAll (w_addr w) (sh_pm sh)\<rparr>)
      | AtRemove r \<Rightarrow> Some (goto (Gone r) w, sh\<lparr>sh_pm := RemoveAvailability (p_BitField (w_peer w)) (sh_pm sh)\<rparr>)
      | Gone r \<Rightarrow> Some (w, sh))"

definition worker_step :: "worker_env \<Rightarrow> worker \<Rightarrow> shared \<Rightarrow> (worker \<times> shared) option" where
  "worker_step e w sh = map_option deliver_pex (machine_step e (with_server sh w) sh)"

text \<open>A tick of the worker's PEX goroutine; whether it goes on.\<close>

definition worker_pex_tick :: "(addrport list \<Rightarrow> addrport list) \<Rightarrow> worker \<Rightarrow> shared \<Rightarrow> (bool \<times> worker \<times> shared) option" where
  "worker_pex_tick order w sh =
     (case ComputeDelta order (p_AddrPort (w_peer w)) (sh_pex sh) of
        (delta, px) \<Rightarrow>
          (let sh = sh\<lparr>sh_pex := px\<rparr>
           in if Added delta = [] \<and> Dropped delta = [] then Some (True, w, sh)
              else map_option (\<lambda>(r, p). (r = Inr (), w\<lparr>w_peer := p\<rparr>, sh)) (SendPEX delta (w_peer w))))"


section \<open>No step panics\<close>

definition served_short :: "piece_manager \<Rightarrow> bool" where
  "served_short pm \<longleftrightarrow> (\<forall>i d. GetPieceData i pm = Some (Some d) \<longrightarrow> length d < 2 ^ 32 - 131072)"

lemma GetBlock_safe:
  assumes "pm_reachable good pieces pm" "served_short pm" "\<not> l > 131072"
  shows "\<exists>r. GetBlock pm i b l = Some r \<and> (\<forall>x. r = Some x \<longrightarrow> length x \<le> unat l)"
proof (cases "GetPieceData i pm")
  case None
  then show ?thesis by (simp add: GetBlock_none)
next
  case (Some r)
  with completed_data [OF assms(1), of i] obtain d where d: "r = Some d" by auto
  have "length d < 2 ^ 32 - 131072" using assms(2) Some d by (simp add: served_short_def)
  from GetBlock_inside [OF _ assms(3) this, of i pm b] Some d show ?thesis by simp
qed

lemma with_server_safe:
  assumes "pm_reachable good pieces (sh_pm sh)" "served_short (sh_pm sh)"
  shows "safe_server (w_peer (with_server sh w))"
  using GetBlock_safe [OF assms] by (auto simp: safe_server_def with_server_def)

lemma WaitForUnchoke_total: "safe_server p \<Longrightarrow> \<exists>r p'. WaitForUnchoke p = Some (r, p')"
proof (induction p rule: WaitForUnchoke.induct)
  case (1 p)
  obtain r p1 where r: "read_message p = (r, p1)" by fastforce
  have s: "safe_server p1" using safe_server_frame(1) [OF 1(8) r] .
  show ?case
  proof (cases r)
    case (Inl e)
    then show ?thesis by (subst WaitForUnchoke.simps) (simp add: r)
  next
    case (Inr msg)
    obtain ok p2 where h: "HandleRequest (m_Payload msg) p1 = Some (ok, p2)" "safe_server p2" using HandleRequest_total [OF s] by blast
    have b: "safe_server (p1\<lparr>p_BitField := m_Payload msg\<rparr>)" using s by (simp add: safe_server_def)
    have ih: "IsKeepAlive msg \<Longrightarrow> ?thesis" 
      using 1(1) [OF r [symmetric] Inr] s r Inr by (subst WaitForUnchoke.simps) simp
    note IH = 1(2-7) [OF r [symmetric] Inr]
    show ?thesis
      using ih IH s b h safe_server_frame(2-4) [OF s] r Inr
      by (subst WaitForUnchoke.simps) (auto simp: r Inr)
  qed
qed


declare WaitForUnchoke.simps [simp del]

lemma SendOnly_small_total: "length b \<le> 1000 \<Longrightarrow> \<exists>ok p'. SendOnly i b p = Some (ok, p') \<and> p_BlockServer p' = p_BlockServer p"
  by (rule SendOnly_total) (simp add: small_def)

lemma send_haves_total: "\<exists>rest p'. send_haves is p = Some (rest, p') \<and> p_BlockServer p' = p_BlockServer p"
proof (induction "is" arbitrary: p)
  case (Cons i "is")
  obtain ok p1 where "SendHave (of_nat i) p = Some (ok, p1)" "p_BlockServer p1 = p_BlockServer p"
    using SendOnly_small_total [of "be32 (of_nat i)" 4 p] by (auto simp: SendHave_def)
  with Cons [of p1] show ?case by (cases ok) auto
qed simp

lemma sendPendingHaves_total:
  "\<exists>w' sh'. sendPendingHaves w sh = Some (w', sh') \<and> p_BlockServer (w_peer w') = p_BlockServer (w_peer w)
    \<and> w_addr w' = w_addr w \<and> w_pc w' = w_pc w \<and> (\<exists>subs. sh_pm sh' = (sh_pm sh)\<lparr>pm_haveSubs := subs\<rparr>)"
  using send_haves_total [of "pending_haves (w_haveCh w) (sh_pm sh)" "w_peer w"] by (auto simp: sendPendingHaves_def)

text \<open>The piece a worker holds is one of the torrent's, and what it completes has the piece's hash.\<close>

definition info_ok :: "piece_info list \<Rightarrow> piece_info \<Rightarrow> bool" where
  "info_ok pieces info \<longleftrightarrow> pi_Index info < length pieces \<and> pieces ! pi_Index info = info"

definition holds_ok :: "piece_info list \<Rightarrow> worker_pc \<Rightarrow> bool" where
  "holds_ok pieces pc = (case pc of
     AtAssigned info \<Rightarrow> info_ok pieces info
   | AtFetch info _ \<Rightarrow> info_ok pieces info
   | AtRelease info _ \<Rightarrow> info_ok pieces info
   | AtComplete info piece \<Rightarrow> info_ok pieces info \<and> HashPiece piece = pi_Hash info
   | AtSend info piece \<Rightarrow> info_ok pieces info \<and> HashPiece piece = pi_Hash info
   | _ \<Rightarrow> True)"

text \<open>Good data is data with the piece's hash.\<close>

definition hashed :: "piece_info list \<Rightarrow> nat \<Rightarrow> bytes \<Rightarrow> bool" where
  "hashed pieces i d \<longleftrightarrow> HashPiece d = pi_Hash (pieces ! i)"

lemma machine_step_total:
  assumes "pm_reachable (hashed pieces) pieces (sh_pm sh)" "holds_ok pieces (w_pc w)" "safe_server (w_peer w)" "w_pc w \<noteq> AtSetup"
  shows "machine_step e w sh \<noteq> None"
proof -
  note ok = conjunct1 [OF reachable_ok [OF assms(1)]]
  have total: "pm_total (sh_pm sh) = length pieces"
    using reachable_ok [OF assms(1)] by (auto simp: pm_ok_def pm_counts_def)
  obtain w1 sh1 where haves: "sendPendingHaves w sh = Some (w1, sh1)" "safe_server (w_peer w1)"
    using sendPendingHaves_total [of w sh] assms(3) unfolding safe_server_def by metis
  have wait: "WaitForUnchoke p \<noteq> None" if "safe_server p" for p using WaitForUnchoke_total [OF that] by auto
  show ?thesis
  proof (cases "w_pc w")
    case AtTop
    then show ?thesis by (simp add: machine_step_def top_step_def haves)
  next
    case (AtFetch info c)
    then show ?thesis
      using GetPiece_total [OF assms(3), of "pi_Hash info" "pi_Length info" "of_nat (pi_Index info)" "if c then e_cancel e else (\<lambda>_. False)"]
      by (auto simp: machine_step_def fetch_step_def)
  next
    case (AtRelease info err)
    then have "pi_Index info < length pieces" using assms(2) by (simp add: holds_ok_def info_ok_def)
    with Release_ok [OF ok, of "pi_Index info"] AtRelease show ?thesis by (auto simp: machine_step_def release_step_def total)
  next
    case (AtComplete info piece)
    then have "pi_Index info < length pieces" "hashed pieces (pi_Index info) piece"
      using assms(2) by (auto simp: holds_ok_def info_ok_def hashed_def)
    with CompletePiece_ok [OF ok, of "pi_Index info" piece "e_io e"] AtComplete show ?thesis
      by (auto simp: machine_step_def complete_step_def total)
  next
    case AtRechoked
    then show ?thesis using wait [OF assms(3)] by (auto simp: machine_step_def rechoked_step_def)
  next
    case AtNotInterested
    then show ?thesis using SendOnly_small_total [of "[]" 3 "w_peer w"] by (auto simp: machine_step_def SendNotInterested_def)
  next
    case AtWait
    obtain r p where r: "read_message (w_peer w1) = (r, p)" by fastforce
    have p: "safe_server p" using safe_server_frame(1) [OF haves(2) r] .
    have "wait_message msg (w1\<lparr>w_peer := p\<rparr>) \<noteq> None" for msg
      using HandleRequest_total [OF p, of "m_Payload msg"] by (auto simp: wait_message_def)
    with AtWait show ?thesis by (auto simp: machine_step_def wait_step_def haves r split: sum.split)
  next
    case AtPending
    obtain ok p where s: "SendInterested (w_peer w) = Some (ok, p)" "p_BlockServer p = p_BlockServer (w_peer w)"
      using SendOnly_small_total [of "[]" 2 "w_peer w"] by (auto simp: SendInterested_def)
    then have "safe_server p" using assms(3) by (simp add: safe_server_def)
    with s(1) wait AtPending show ?thesis by (cases ok) (auto simp: machine_step_def pending_step_def)
  next
    case AtSubscribe
    then show ?thesis by (simp add: machine_step_def split: prod.split)
  qed (use assms(4) in \<open>simp_all add: machine_step_def\<close>)
qed


section \<open>What a step does\<close>

text \<open>The addresses that own a piece in progress.\<close>

definition held :: "piece_manager \<Rightarrow> string set" where
  "held pm = {pm_owners pm ! i | i. i < pm_total pm \<and> pm_states pm ! i = PieceInProgress}"

lemma held_simps [simp]:
  "held (pm\<lparr>pm_haveSubs := subs\<rparr>) = held pm" "held (AddAvailability bf pm) = held pm" "held (RemoveAvailability bf pm) = held pm"
  "held (IncrementAvailability k pm) = held pm" "held (UnsubscribeHave ch pm) = held pm"
  "held (snd (SubscribeHave pm)) = held pm" "held (snd (CancelCh i pm)) = held pm"
  by (simp_all add: held_def AddAvailability_def RemoveAvailability_def IncrementAvailability_def UnsubscribeHave_def
    SubscribeHave_def CancelCh_def split: option.split)

lemma held_Assign: "pm_ok good pm \<Longrightarrow> held (snd (Assign (Select s) addr bf pm)) \<subseteq> insert addr (held pm)"
proof -
  assume "pm_ok good pm"
  then have c: "pm_counts pm" by (simp add: pm_ok_def)
  then show ?thesis
  proof (cases rule: sel.Assign_cases [of pm s addr bf])
    case (pending i pm1)
    then show ?thesis using c by (auto simp: held_def nth_list_update pm_counts_def split: if_splits)
  qed (auto simp: held_def)
qed

lemma held_Release: "pm_ok good pm \<Longrightarrow> Release i pm = Some pm' \<Longrightarrow> held pm' \<subseteq> held pm"
  by (auto simp: Release_def held_def nth_list_update pm_ok_def pm_counts_def split: if_splits)

lemma held_ReleaseAll: "pm_ok good pm \<Longrightarrow> held (ReleaseAll addr pm) \<subseteq> held pm - {addr}"
  by (auto simp: ReleaseAll_def Let_def held_def pm_ok_def pm_counts_def split: if_splits)

lemma persist_frame [simp]:
  "pm_states (persist res i d pm) = pm_states pm" "pm_owners (persist res i d pm) = pm_owners pm" "pm_total (persist res i d pm) = pm_total pm"
  by (auto simp: persist_def split: option.split sum.split prod.split)

lemma close_frame:
  "close_cancel i pm = Some pm' \<Longrightarrow> pm_states pm' = pm_states pm \<and> pm_owners pm' = pm_owners pm \<and> pm_total pm' = pm_total pm"
  "close_done pm = Some pm' \<Longrightarrow> pm_states pm' = pm_states pm \<and> pm_owners pm' = pm_owners pm \<and> pm_total pm' = pm_total pm"
  by (auto simp: close_cancel_def close_done_def split: option.splits if_splits)

lemma held_update:
  assumes "pm_states pm' = (pm_states pm)[i := s]" "pm_owners pm' = (pm_owners pm)[i := ow]" "pm_total pm' = pm_total pm"
    and "length (pm_states pm) = pm_total pm" "s \<noteq> PieceInProgress"
  shows "held pm' \<subseteq> held pm"
proof
  fix x assume "x \<in> held pm'"
  then obtain j where j: "j < pm_total pm" "(pm_states pm)[i := s] ! j = PieceInProgress" "x = (pm_owners pm)[i := ow] ! j"
    using assms(1-3) by (auto simp: held_def)
  then have "j \<noteq> i" using assms(4,5) by auto
  with j show "x \<in> held pm" by (auto simp: held_def)
qed

lemma held_Complete: "pm_ok good pm \<Longrightarrow> CompletePiece res i d pm = Some pm' \<Longrightarrow> held pm' \<subseteq> held pm"
proof -
  assume ok: "pm_ok good pm" and c: "CompletePiece res i d pm = Some pm'"
  show ?thesis
  proof (cases "pm_states pm ! i = PieceCompleted")
    case True
    with c show ?thesis by (auto simp: CompletePiece_def split: if_splits)
  next
    case False
    with c have "pm_states pm' = (pm_states pm)[i := PieceCompleted]" "pm_owners pm' = (pm_owners pm)[i := []]" "pm_total pm' = pm_total pm"
      by (auto simp: CompletePiece_def Let_def bind_eq_Some_conv notify_have_def split: if_splits dest!: close_frame)
    moreover have "length (pm_states pm) = pm_total pm" using ok by (simp add: pm_ok_def pm_counts_def)
    ultimately show ?thesis by (rule held_update) simp
  qed
qed

definition active :: "worker_pc \<Rightarrow> bool" where
  "active pc = (case pc of AtConnect \<Rightarrow> False | AtSetup \<Rightarrow> False | AtRegister \<Rightarrow> False | AtAvailability \<Rightarrow> False | AtSubscribe \<Rightarrow> False
     | AtRemove _ \<Rightarrow> False | Gone _ \<Rightarrow> False | _ \<Rightarrow> True)"

text \<open>The claim about a step: the manager stays reachable, the worker stays in order, and who holds pieces.\<close>

definition step_ok :: "piece_info list \<Rightarrow> worker \<Rightarrow> shared \<Rightarrow> worker \<Rightarrow> shared \<Rightarrow> bool" where
  "step_ok pieces w sh w' sh' \<longleftrightarrow> pm_reachable (hashed pieces) pieces (sh_pm sh') \<and> holds_ok pieces (w_pc w') \<and> w_addr w' = w_addr w
     \<and> held (sh_pm sh') \<subseteq> held (sh_pm sh) \<union> (if w_pc w = AtAssign then {w_addr w} else {})
     \<and> (active (w_pc w) \<longrightarrow> active (w_pc w') \<or> w_addr w \<notin> held (sh_pm sh'))"

lemma goto_simps [simp]: "w_pc (goto pc w) = pc" "w_addr (goto pc w) = w_addr w" "w_peer (goto pc w) = w_peer w"
  by (simp_all add: goto_def)

lemma wait_message_pc:
  "wait_message msg w = Some w' \<Longrightarrow> w_addr w' = w_addr w \<and> holds_ok pieces (w_pc w') \<and> active (w_pc w')"
  by (auto simp: wait_message_def holds_ok_def active_def split: if_splits)

lemma Assign_info:
  assumes "pm_reachable good pieces pm" "Assign (Select s) addr bf pm = (Some info, pm')"
  shows "\<exists>i < length pieces. info = pieces ! i"
proof -
  have ok: "pm_counts pm" "pm_total pm = length pieces" "pm_pieces pm = pieces"
    using reachable_ok [OF assms(1)] by (auto simp: pm_ok_def pm_counts_def)
  from ok(1) show ?thesis
    by (cases rule: sel.Assign_cases [of pm s addr bf]) (use assms(2) ok in auto)
qed

text \<open>Steps that leave the piece manager alone.\<close>

lemma step_ok_same:
  assumes "pm_reachable (hashed pieces) pieces (sh_pm sh)" "sh_pm sh' = sh_pm sh \<or> (\<exists>subs. sh_pm sh' = (sh_pm sh)\<lparr>pm_haveSubs := subs\<rparr>)"
    and "w_addr w' = w_addr w" "holds_ok pieces (w_pc w')" "active (w_pc w) \<longrightarrow> active (w_pc w')"
  shows "step_ok pieces w sh w' sh'"
  using assms by (auto simp: step_ok_def intro: pm_reachable.received)

lemma unchoked_goto:
  assumes "map_option (\<lambda>(r, p). goto (case r of Inl err \<Rightarrow> f err | Inr _ \<Rightarrow> pc) (w\<lparr>w_peer := p\<rparr>)) (x :: ((peer_error + unit) \<times> peer_state) option) = Some w'"
  shows "w_addr w' = w_addr w \<and> (w_pc w' = pc \<or> (\<exists>err. w_pc w' = f err))"
proof -
  from assms obtain r p where "x = Some (r, p)" "w' = goto (case r of Inl err \<Rightarrow> f err | Inr _ \<Rightarrow> pc) (w\<lparr>w_peer := p\<rparr>)" by auto
  then show ?thesis by (cases r) auto
qed

lemma rechoked_pc: "rechoked_step w = Some w' \<Longrightarrow> w_addr w' = w_addr w \<and> (w_pc w' = AtTop \<or> (\<exists>err. w_pc w' = AtUnsubscribe (Some err)))"
  unfolding rechoked_step_def by (drule unchoked_goto) auto

lemma pending_pc:
  assumes "pending_step w sh = Some w'"
  shows "w_addr w' = w_addr w \<and> (w_pc w' = AtTop \<or> w_pc w' = AtWait \<or> (\<exists>err. w_pc w' = AtUnsubscribe (Some err)))"
proof (cases "HasPendingFor (p_BitField (w_peer w)) (sh_pm sh)")
  case True
  then obtain ok p where s: "SendInterested (w_peer w) = Some (ok, p)" using assms by (auto simp: pending_step_def split: option.splits)
  show ?thesis
  proof (cases ok)
    case ok: True
    have "map_option (\<lambda>(r, p). goto (case r of Inl err \<Rightarrow> AtUnsubscribe (Some (WorkerError ''re-unchoke'' err)) | Inr _ \<Rightarrow> AtTop)
        (w\<lparr>w_peer := p\<rparr>)) (WaitForUnchoke p) = Some w'"
      using assms True ok unfolding pending_step_def s by (simp only: if_False not_True_eq_False simp_thms option.case prod.case bool.case)
    from unchoked_goto [OF this] show ?thesis by blast
  qed (use assms s True in \<open>auto simp: pending_step_def\<close>)
qed (use assms in \<open>auto simp: pending_step_def\<close>)

lemma fetch_step_ok:
  assumes "safe_server (w_peer w)" "info_ok pieces info" "fetch_step e info c w = Some w'"
  shows "w_addr w' = w_addr w \<and> holds_ok pieces (w_pc w') \<and> active (w_pc w')"
proof -
  obtain r p where g: "GetPiece (pi_Hash info) (pi_Length info) (of_nat (pi_Index info)) (if c then e_cancel e else (\<lambda>_. False)) (w_peer w) = Some (r, p)"
    "\<forall>piece. r = Inr piece \<longrightarrow> HashPiece piece = pi_Hash info"
    using GetPiece_total [OF assms(1), of "pi_Hash info" "pi_Length info" "of_nat (pi_Index info)" "if c then e_cancel e else (\<lambda>_. False)"]
    by blast
  then have w': "w' = goto (case r of Inl ErrPieceCancelled \<Rightarrow> AtTop | Inl err \<Rightarrow> AtRelease info err | Inr piece \<Rightarrow> AtComplete info piece) (w\<lparr>w_peer := p\<rparr>)"
    using assms(3) by (simp add: fetch_step_def)
  show ?thesis
    using assms(2) g(2) unfolding w' by (cases r; cases "projl r") (auto simp: holds_ok_def active_def)
qed


lemma machine_step_ok:
  assumes "pm_reachable (hashed pieces) pieces (sh_pm sh)" "holds_ok pieces (w_pc w)" "safe_server (w_peer w)"
    and "\<And>i. i < length pieces \<Longrightarrow> pi_Index (pieces ! i) = i" "machine_step e w sh = Some (w', sh')"
  shows "step_ok pieces w sh w' sh'"
proof -
  note r = assms(1)
  note ok = conjunct1 [OF reachable_ok [OF r]]
  note same = step_ok_same [OF r]
  note d = machine_step_def holds_ok_def active_def
  obtain w1 sh1 where haves: "sendPendingHaves w sh = Some (w1, sh1)" "w_addr w1 = w_addr w" "w_pc w1 = w_pc w"
    "\<exists>subs. sh_pm sh1 = (sh_pm sh)\<lparr>pm_haveSubs := subs\<rparr>"
    using sendPendingHaves_total [of w sh] by blast
  show ?thesis
  proof (cases "w_pc w")
    case AtConnect
    then show ?thesis using assms(5) by (intro same) (auto simp: d connect_step_def split: option.splits if_splits)
  next
    case AtSetup
    then obtain res p where "setup_step w sh = Some w'" "sh' = sh" "worker_setup (w_infoHash w) (sh_pm sh) (w_peer w) = Some (res, p)"
      using assms(5) by (auto simp: machine_step_def setup_step_def)
    then have "w' = goto (case res of Inl err \<Rightarrow> AtLeave (Some err) | Inr _ \<Rightarrow> AtRegister) (w\<lparr>w_peer := p\<rparr>)"
      by (simp add: setup_step_def)
    with \<open>sh' = sh\<close> AtSetup show ?thesis by (intro same) (simp_all add: holds_ok_def active_def split: sum.split)
  next
    case AtAvailability
    then show ?thesis using assms(5) r by (auto simp: step_ok_def d intro: pm_reachable.added)
  next
    case AtSubscribe
    then have "w_pc w' = AtTop" "w_addr w' = w_addr w" "sh_pm sh' = snd (SubscribeHave (sh_pm sh))"
      using assms(5) by (auto simp: d split: prod.splits)
    then show ?thesis using AtSubscribe pm_reachable.subscribed [OF r] by (simp add: step_ok_def d)
  next
    case AtTop
    then show ?thesis using assms(5) haves by (intro same) (auto simp: d top_step_def)
  next
    case AtAssign
    obtain i pm where a: "Assign (Select (e_selector e)) (w_addr w) (p_BitField (w_peer w)) (sh_pm sh) = (i, pm)" by fastforce
    have pm: "sh_pm sh' = pm" using AtAssign assms(5) a by (auto simp: d assign_step_def split: option.splits)
    have "held pm \<subseteq> insert (w_addr w) (held (sh_pm sh))" using held_Assign [OF ok] a by (metis snd_conv)
    moreover have "pm_reachable (hashed pieces) pieces pm" using pm_reachable.assigned [OF r] a by (metis snd_conv)
    moreover have "holds_ok pieces (w_pc w') \<and> w_addr w' = w_addr w \<and> active (w_pc w')"
    proof (cases i)
      case (Some info)
      have "info_ok pieces info" using Assign_info [OF r a [unfolded Some]] assms(4) by (auto simp: info_ok_def)
      then show ?thesis using AtAssign assms(5) a Some by (auto simp: d assign_step_def)
    qed (use AtAssign assms(5) a in \<open>auto simp: d assign_step_def\<close>)
    ultimately show ?thesis using pm AtAssign by (auto simp: step_ok_def)
  next
    case (AtAssigned info)
    then show ?thesis
      using assms(2,5) r pm_reachable.cancel_channel [OF r] by (auto simp: step_ok_def d assigned_step_def split: if_splits)
  next
    case (AtFetch info c)
    then obtain "fetch_step e info c w = Some w'" "sh' = sh" "info_ok pieces info" using assms(2,5) by (auto simp: d)
    with fetch_step_ok [OF assms(3)] AtFetch show ?thesis by (intro same) auto
  next
    case (AtRelease info err)
    then obtain pm where "Release (pi_Index info) (sh_pm sh) = Some pm" "sh_pm sh' = pm" "w_addr w' = w_addr w" "w_pc w' \<in> {AtRechoked, AtTop}"
      using assms(5) by (auto simp: machine_step_def release_step_def split: if_splits)
    then show ?thesis
      using AtRelease pm_reachable.released [OF r] held_Release [OF ok] by (auto simp: step_ok_def d)
  next
    case AtRechoked
    then have "rechoked_step w = Some w'" "sh' = sh" using assms(5) by (auto simp: machine_step_def)
    with rechoked_pc [of w w'] AtRechoked show ?thesis by (intro same) (auto simp: holds_ok_def active_def)
  next
    case (AtComplete info piece)
    then obtain pm where "CompletePiece (e_io e) (pi_Index info) piece (sh_pm sh) = Some pm" "sh_pm sh' = pm" "w_addr w' = w_addr w"
        "w_pc w' = AtSend info piece" "info_ok pieces info" "HashPiece piece = pi_Hash info"
      using assms(2,5) by (auto simp: machine_step_def complete_step_def holds_ok_def)
    moreover from this have "pm_reachable (hashed pieces) pieces pm"
      by (intro pm_reachable.completed [OF r, of "pi_Index info" piece "e_io e"]) (auto simp: hashed_def info_ok_def)
    ultimately show ?thesis using AtComplete held_Complete [OF ok] by (auto simp: step_ok_def d)
  next
    case (AtSend info piece)
    then show ?thesis using assms(5) by (intro same) (auto simp: d send_step_def split: if_splits)
  next
    case AtWait
    then show ?thesis
      using assms(5) haves wait_message_pc [where pieces = pieces]
      by (intro same) (auto simp: machine_step_def wait_step_def holds_ok_def active_def split: if_splits sum.splits prod.splits dest!: wait_message_pc [where pieces = pieces])
  next
    case (AtHave idx)
    then show ?thesis using assms(5) pm_reachable.incremented [OF r] by (auto simp: step_ok_def d)
  next
    case AtPending
    then have "pending_step w sh = Some w'" "sh' = sh" using assms(5) by (auto simp: machine_step_def)
    with pending_pc [of w sh w'] AtPending show ?thesis by (intro same) (auto simp: holds_ok_def active_def)
  next
    case (AtUnsubscribe x)
    then show ?thesis using assms(5) pm_reachable.unsubscribed [OF r] by (auto simp: step_ok_def d)
  next
    case (AtReleaseAll x)
    then show ?thesis
      using assms(5) pm_reachable.released_all [OF r, of "w_addr w"] held_ReleaseAll [OF ok, of "w_addr w"] by (auto simp: step_ok_def d)
  next
    case (AtRemove x)
    then show ?thesis using assms(5) pm_reachable.removed [OF r] by (auto simp: step_ok_def d)
  next
    case AtRegister
    then show ?thesis using assms(5) by (intro same) (auto simp: d)
  next
    case AtUnassigned
    then show ?thesis using assms(5) by (intro same) (auto simp: d)
  next
    case AtNotInterested
    then show ?thesis using assms(5) by (intro same) (auto simp: d)
  next
    case (AtLeave x)
    then show ?thesis using assms(5) by (intro same) (auto simp: d)
  next
    case (Gone x)
    then show ?thesis using assms(2,5) by (intro same) (auto simp: d)
  qed
qed


section \<open>The swarm\<close>

record swarm =
  sw_shared :: shared
  sw_workers :: "worker list"

text \<open>The PEX manager knows all peers; the first \<open>numWorkers\<close> of them get a worker.\<close>

definition start_swarm :: "int \<Rightarrow> piece_manager \<Rightarrow> bytes \<Rightarrow> (string \<times> addrport) list \<Rightarrow> swarm" where
  "start_swarm numWorkers pm infoHash peers =
     \<lparr>sw_shared = \<lparr>sh_pm = pm, sh_pex = NewPEXManager (map snd peers), sh_results = []\<rparr>,
      sw_workers = map (\<lambda>(addr, ap). NewWorker addr ap infoHash) (take (nat numWorkers) peers)\<rparr>"

text \<open>
  Any interleaving of the steps of the workers and of their PEX goroutines, and the start of a
  worker for an address learnt through PEX (\<open>name\<close> is its text). Peers, disk, clock and random
  numbers are arbitrary. A good piece has the hash of the torrent.
\<close>

inductive swarm_reachable :: "piece_info list \<Rightarrow> bytes \<Rightarrow> swarm \<Rightarrow> bool" for pieces :: "piece_info list" and infoHash :: bytes where
  fresh: "swarm_reachable pieces infoHash (start_swarm numWorkers (NewPieceManager pieces threshold None) infoHash peers)"
| resumed: "disk_ok (hashed pieces) ds \<Longrightarrow> ds_numPieces ds = length pieces
    \<Longrightarrow> swarm_reachable pieces infoHash (start_swarm numWorkers (NewPieceManager pieces threshold (Some ds)) infoHash peers)"
| stepped: "swarm_reachable pieces infoHash s \<Longrightarrow> i < length (sw_workers s) \<Longrightarrow> served_short (sh_pm (sw_shared s))
    \<Longrightarrow> worker_step e (sw_workers s ! i) (sw_shared s) = Some (w, sh)
    \<Longrightarrow> swarm_reachable pieces infoHash \<lparr>sw_shared = sh, sw_workers = (sw_workers s)[i := w]\<rparr>"
| ticked: "swarm_reachable pieces infoHash s \<Longrightarrow> i < length (sw_workers s)
    \<Longrightarrow> worker_pex_tick order (sw_workers s ! i) (sw_shared s) = Some (go_on, w, sh)
    \<Longrightarrow> swarm_reachable pieces infoHash \<lparr>sw_shared = sh, sw_workers = (sw_workers s)[i := w]\<rparr>"
| spawned: "swarm_reachable pieces infoHash s \<Longrightarrow> next_discovered (sh_pex (sw_shared s)) = (Some ap, px)
    \<Longrightarrow> swarm_reachable pieces infoHash \<lparr>sw_shared = (sw_shared s)\<lparr>sh_pex := px\<rparr>, sw_workers = sw_workers s @ [NewWorker name ap infoHash]\<rparr>"

definition swarm_ok :: "piece_info list \<Rightarrow> swarm \<Rightarrow> bool" where
  "swarm_ok pieces s \<longleftrightarrow> pm_reachable (hashed pieces) pieces (sh_pm (sw_shared s))
     \<and> (\<forall>w \<in> set (sw_workers s). holds_ok pieces (w_pc w))
     \<and> (\<forall>addr \<in> held (sh_pm (sw_shared s)). \<exists>w \<in> set (sw_workers s). w_addr w = addr \<and> active (w_pc w))"

lemma swarm_update:
  assumes "swarm_ok pieces s" "i < length (sw_workers s)" "step_ok pieces (sw_workers s ! i) (sw_shared s) w sh"
  shows "swarm_ok pieces \<lparr>sw_shared = sh, sw_workers = (sw_workers s)[i := w]\<rparr>"
proof -
  let ?w = "sw_workers s ! i"
  have w: "?w \<in> set (sw_workers s)" using assms(2) by simp
  have "\<exists>v \<in> set ((sw_workers s)[i := w]). w_addr v = addr \<and> active (w_pc v)" if h: "addr \<in> held (sh_pm sh)" for addr
  proof -
    have new: "w \<in> set ((sw_workers s)[i := w])" using assms(2) by (simp add: set_update_memI)
    have st: "w_addr w = w_addr ?w" "addr \<in> held (sh_pm (sw_shared s)) \<or> w_pc ?w = AtAssign \<and> addr = w_addr ?w"
      "active (w_pc ?w) \<Longrightarrow> active (w_pc w) \<or> w_addr ?w \<noteq> addr"
      using assms(3) h by (auto simp: step_ok_def split: if_splits)
    from st(2) show ?thesis
    proof
      assume a: "w_pc ?w = AtAssign \<and> addr = w_addr ?w"
      then have "active (w_pc w)" using st(3) by (auto simp: active_def)
      with a st(1) new show ?thesis by auto
    next
      assume "addr \<in> held (sh_pm (sw_shared s))"
      with assms(1) obtain v where v: "v \<in> set (sw_workers s)" "w_addr v = addr" "active (w_pc v)" by (auto simp: swarm_ok_def)
      then obtain j where j: "j < length (sw_workers s)" "sw_workers s ! j = v" by (auto simp: in_set_conv_nth)
      show ?thesis
      proof (cases "j = i")
        case True
        then have "active (w_pc w)" "w_addr w = addr" using st j v by auto
        with new show ?thesis by auto
      next
        case False
        then have "(sw_workers s)[i := w] ! j = v" using j by simp
        then have "v \<in> set ((sw_workers s)[i := w])" using j(1) by (metis length_list_update nth_mem)
        with v show ?thesis by auto
      qed
    qed
  qed
  moreover have "holds_ok pieces (w_pc v)" if "v \<in> set ((sw_workers s)[i := w])" for v
    using set_update_subset_insert [of "sw_workers s" i w] that assms(1,3) by (auto simp: swarm_ok_def step_ok_def)
  ultimately show ?thesis using assms(3) by (simp add: swarm_ok_def step_ok_def)
qed

lemma step_ok_deliver: "step_ok pieces w sh w' sh' \<Longrightarrow> step_ok pieces w sh (fst (deliver_pex (w', sh'))) (snd (deliver_pex (w', sh')))"
  by (simp add: step_ok_def deliver_pex_def)

lemma with_server_simps [simp]: "w_pc (with_server sh w) = w_pc w" "w_addr (with_server sh w) = w_addr w"
  by (simp_all add: with_server_def)

lemma worker_step_ok:
  assumes "pm_reachable (hashed pieces) pieces (sh_pm sh)" "holds_ok pieces (w_pc w)" "served_short (sh_pm sh)"
    and "\<And>i. i < length pieces \<Longrightarrow> pi_Index (pieces ! i) = i" "worker_step e w sh = Some (w', sh')"
  shows "step_ok pieces w sh w' sh'"
proof -
  obtain w1 sh1 where m: "machine_step e (with_server sh w) sh = Some (w1, sh1)" "deliver_pex (w1, sh1) = (w', sh')"
    using assms(5) by (auto simp: worker_step_def)
  have "step_ok pieces (with_server sh w) sh w1 sh1"
    using machine_step_ok [OF assms(1) _ with_server_safe [OF assms(1,3)] assms(4) m(1)] assms(2) by simp
  then have "step_ok pieces w sh w1 sh1" by (simp add: step_ok_def split: if_splits)
  from step_ok_deliver [OF this] m(2) show ?thesis by simp
qed

lemma tick_step_ok:
  assumes "pm_reachable (hashed pieces) pieces (sh_pm sh)" "holds_ok pieces (w_pc w)" "worker_pex_tick order w sh = Some (go_on, w', sh')"
  shows "step_ok pieces w sh w' sh'"
proof -
  have "sh_pm sh' = sh_pm sh" "w_pc w' = w_pc w" "w_addr w' = w_addr w"
    using assms(3) by (auto simp: worker_pex_tick_def Let_def split: prod.splits if_splits)
  with assms(1,2) show ?thesis by (auto simp: step_ok_def)
qed

lemma swarm_reachable_ok:
  assumes "swarm_reachable pieces infoHash s" "\<And>i. i < length pieces \<Longrightarrow> pi_Index (pieces ! i) = i"
  shows "swarm_ok pieces s"
  using assms(1)
proof (induction rule: swarm_reachable.induct)
  case (fresh numWorkers threshold peers)
  have "held (NewPieceManager pieces threshold None) = {}" by (auto simp: held_def NewPieceManager_def Let_def)
  then show ?case by (auto simp: swarm_ok_def start_swarm_def NewWorker_def holds_ok_def dest!: in_set_takeD intro: pm_reachable.fresh)
next
  case (resumed ds numWorkers threshold peers)
  then have r: "pm_reachable (hashed pieces) pieces (NewPieceManager pieces threshold (Some ds))" by (rule pm_reachable.resumed)
  have "held (NewPieceManager pieces threshold (Some ds)) = {}"
    using resumed by (auto simp: held_def NewPieceManager_def Let_def DiskCompleted_def nth_append split: if_splits)
  with r show ?case by (auto simp: swarm_ok_def start_swarm_def NewWorker_def holds_ok_def dest!: in_set_takeD)
next
  case (stepped s i e w sh)
  then have "step_ok pieces (sw_workers s ! i) (sw_shared s) w sh"
    by (intro worker_step_ok [OF _ _ _ assms(2)]) (auto simp: swarm_ok_def)
  with stepped swarm_update show ?case by blast
next
  case (ticked s i order go_on w sh)
  then have "step_ok pieces (sw_workers s ! i) (sw_shared s) w sh" by (intro tick_step_ok) (auto simp: swarm_ok_def)
  with ticked swarm_update show ?case by blast
next
  case (spawned s ap px name)
  then show ?case by (auto simp: swarm_ok_def NewWorker_def holds_ok_def)
qed


section \<open>The end of a download\<close>

text \<open>\<open>validatePieces\<close>: the indices without data; \<open>collectResults\<close> after the workers are done.\<close>

definition validatePieces :: "bytes option list \<Rightarrow> nat list" where
  "validatePieces pieces = filter (\<lambda>i. pieces ! i = None) [0..<length pieces]"

definition collectResults :: "piece_manager \<Rightarrow> nat list + bytes" where
  "collectResults pm =
     (let data = Results pm; missing = validatePieces data
      in if missing \<noteq> [] then Inl missing
         else Inr (concat (map (\<lambda>d. case d of Some x \<Rightarrow> x | None \<Rightarrow> []) data)))"

lemma length_Results: "pm_ok good pm \<Longrightarrow> length (Results pm) = pm_total pm"
  by (simp add: Results_def pm_ok_def pm_counts_def split: option.split)

text \<open>Data only for completed pieces, unless a piece is pending with data left over: there is none.\<close>

lemma Results_completed:
  assumes "pm_reachable good pieces pm" "i < length pieces"
  shows "pm_states pm ! i = PieceCompleted \<Longrightarrow> \<exists>d. Results pm ! i = Some d \<and> good i d"
  using completed_data [OF assms(1), of "int i"] assms(2) by (auto split: option.splits)

lemma download_hashes:
  assumes "swarm_reachable pieces infoHash s" "\<And>i. i < length pieces \<Longrightarrow> pi_Index (pieces ! i) = i"
    and "IsFinished (sh_pm (sw_shared s))"
  shows "\<exists>ps. collectResults (sh_pm (sw_shared s)) = Inr (concat ps) \<and> map HashPiece ps = map pi_Hash pieces"
proof -
  let ?pm = "sh_pm (sw_shared s)"
  have r: "pm_reachable (hashed pieces) pieces ?pm" using swarm_reachable_ok [OF assms(1,2)] by (simp add: swarm_ok_def)
  have ok: "pm_ok (hashed pieces) ?pm" "pm_total ?pm = length pieces" "length (pm_states ?pm) = length pieces"
    using reachable_ok [OF r] by (auto simp: pm_ok_def pm_counts_def)
  have "count_list (pm_states ?pm) PieceCompleted = length (pm_states ?pm)"
    using ok assms(3) by (auto simp: IsFinished_def pm_ok_def pm_counts_def)
  then have all: "i < length pieces \<Longrightarrow> pm_states ?pm ! i = PieceCompleted" for i
    unfolding count_list_all using ok(3) by simp
  have len: "length (Results ?pm) = length pieces" using length_Results [OF ok(1)] ok(2) by simp
  let ?ps = "map the (Results ?pm)"
  have d: "\<exists>d. Results ?pm ! i = Some d \<and> hashed pieces i d" if "i < length pieces" for i
    using Results_completed [OF r that all [OF that]] .
  then have v: "validatePieces (Results ?pm) = []" by (fastforce simp: validatePieces_def filter_empty_conv len)
  have "map (\<lambda>d. case d of Some x \<Rightarrow> x | None \<Rightarrow> []) (Results ?pm) = ?ps"
    using d by (intro nth_equalityI) (fastforce simp: len)+
  then have "collectResults ?pm = Inr (concat ?ps)" unfolding collectResults_def Let_def v by (metis (no_types, lifting))
  moreover have "map HashPiece ?ps = map pi_Hash pieces"
    using d by (intro nth_equalityI) (fastforce simp: len hashed_def)+
  ultimately show ?thesis by blast
qed



text \<open>C6: No piece gets stuck. In every reachable swarm a piece in progress is owned by the address of a worker that is
  in its loop or about to release its pieces; so when all workers have ended, every piece is pending or completed and can be assigned to
  a later worker.\<close>

theorem no_piece_stuck:
  assumes "swarm_reachable pieces infoHash s" "\<And>i. i < length pieces \<Longrightarrow> pi_Index (pieces ! i) = i"
    and "i < length pieces" "pm_states (sh_pm (sw_shared s)) ! i = PieceInProgress"
  shows "\<exists>w \<in> set (sw_workers s). w_addr w = pm_owners (sh_pm (sw_shared s)) ! i \<and> active (w_pc w)"
proof -
  have ok: "swarm_ok pieces s" using swarm_reachable_ok [OF assms(1,2)] .
  then have "pm_total (sh_pm (sw_shared s)) = length pieces"
    using reachable_ok by (fastforce simp: swarm_ok_def pm_ok_def pm_counts_def)
  then have "pm_owners (sh_pm (sw_shared s)) ! i \<in> held (sh_pm (sw_shared s))" using assms(3,4) by (auto simp: held_def)
  with ok show ?thesis by (auto simp: swarm_ok_def)
qed


section \<open>A sample run\<close>

definition sample_torrent :: "piece_info list" where
  "sample_torrent = [\<lparr>pi_Index = 0, pi_Hash = [], pi_Length = 2\<rparr>, \<lparr>pi_Index = 1, pi_Hash = [], pi_Length = 2\<rparr>]"

lemma sample_torrent_index: "i < length sample_torrent \<Longrightarrow> pi_Index (sample_torrent ! i) = i"
  by (auto simp: sample_torrent_def less_Suc_eq)

text \<open>A peer without extensions that has both pieces and unchokes.\<close>

definition sample_input :: bytes where
  "sample_input = constructHandshakeMessage (replicate 20 0) False @ [0, 0, 0, 2, 5, 192] @ [0, 0, 0, 1, 1]"

definition sample_env :: worker_env where
  "sample_env = \<lparr>e_ctx_done = False, e_selector = SequentialSelector, e_io = sample_io,
     e_conn = Some \<lparr>c_in = sample_input, c_out = [], c_writes = 100\<rparr>, e_cancel = (\<lambda>_. False)\<rparr>"

fun worker_run :: "nat \<Rightarrow> worker_env \<Rightarrow> worker \<Rightarrow> shared \<Rightarrow> (worker \<times> shared) option" where
  "worker_run 0 e w sh = Some (w, sh)"
| "worker_run (Suc n) e w sh = (if pm_completed (sh_pm sh) \<noteq> 0 then None
     else case worker_step e w sh of None \<Rightarrow> None | Some (w, sh) \<Rightarrow> worker_run n e w sh)"

definition sample_swarm :: swarm where
  "sample_swarm = start_swarm 1 (NewPieceManager sample_torrent 0 None) (replicate 20 0) [(''10.0.0.2:6881'', AddrPort (IPv4 [10, 0, 0, 2]) 6881)]"

definition sample_result :: "(worker \<times> shared) option" where
  "sample_result = worker_run 7 sample_env (sw_workers sample_swarm ! 0) (sw_shared sample_swarm)"

lemma sample_run: "map_option (\<lambda>r. pm_states (sh_pm (snd r)) ! 0) sample_result = Some PieceInProgress"
  by code_simp


lemma worker_run_reachable:
  assumes "worker_run n e (sw_workers s ! 0) (sw_shared s) = Some (w, sh)" "swarm_reachable pieces infoHash s" "length (sw_workers s) = 1"
    and "\<And>i. i < length pieces \<Longrightarrow> pi_Index (pieces ! i) = i"
  shows "swarm_reachable pieces infoHash \<lparr>sw_shared = sh, sw_workers = [w]\<rparr>"
  using assms(1-3)
proof (induction n arbitrary: s)
  case 0
  then obtain v where "sw_workers s = [v]" by (cases "sw_workers s") auto
  with 0 show ?case by (cases s) auto
next
  case (Suc n)
  let ?pm = "sh_pm (sw_shared s)"
  obtain w1 sh1 where st: "worker_step e (sw_workers s ! 0) (sw_shared s) = Some (w1, sh1)" "worker_run n e w1 sh1 = Some (w, sh)"
    and c: "pm_completed ?pm = 0"
    using Suc(2) by (auto split: if_splits option.splits)
  have "pm_ok (hashed pieces) ?pm" using swarm_reachable_ok [OF Suc(3) assms(4)] reachable_ok by (auto simp: swarm_ok_def)
  then have "pm_states ?pm ! i \<noteq> PieceCompleted" if "i < length (pm_states ?pm)" for i
    using c that count_list_0_iff [of "pm_states ?pm" PieceCompleted] by (auto simp: pm_ok_def pm_counts_def) (metis nth_mem)
  then have "served_short ?pm" by (auto simp: served_short_def GetPieceData_def split: if_splits)
  from swarm_reachable.stepped [OF Suc(3) _ this st(1)] Suc(4)
  have "swarm_reachable pieces infoHash \<lparr>sw_shared = sh1, sw_workers = (sw_workers s)[0 := w1]\<rparr>" by simp
  from Suc(1) [OF _ this] st(2) Suc(4) show ?case by simp
qed

lemma sample_swarm_reachable: "swarm_reachable sample_torrent (replicate 20 0) sample_swarm"
  unfolding sample_swarm_def by (rule swarm_reachable.fresh)

theorem no_piece_stuck_witness:
  "\<exists>w sh. sample_result = Some (w, sh) \<and> pm_owners (sh_pm sh) ! 0 = w_addr w \<and> active (w_pc w)"
proof -
  obtain w sh where r: "sample_result = Some (w, sh)" "pm_states (sh_pm sh) ! 0 = PieceInProgress"
    using sample_run unfolding map_option_eq_Some by force
  have l: "length (sw_workers sample_swarm) = 1" by (simp add: sample_swarm_def start_swarm_def)
  from worker_run_reachable [OF r(1) [unfolded sample_result_def] sample_swarm_reachable l sample_torrent_index]
  have s: "swarm_reachable sample_torrent (replicate 20 0) \<lparr>sw_shared = sh, sw_workers = [w]\<rparr>" .
  have "pm_owners (sh_pm sh) ! 0 = w_addr w \<and> active (w_pc w)"
    using no_piece_stuck [OF s sample_torrent_index, of 0] r(2) by (simp add: sample_torrent_def)
  with r(1) show ?thesis by (intro exI conjI) auto
qed


text \<open>A store that has both pieces.\<close>

definition full_torrent :: "piece_info list" where
  "full_torrent = [\<lparr>pi_Index = 0, pi_Hash = HashPiece [5, 5], pi_Length = 2\<rparr>, \<lparr>pi_Index = 1, pi_Hash = HashPiece [7, 7], pi_Length = 2\<rparr>]"

definition full_store :: disk_store where
  "full_store = \<lparr>ds_numPieces = 2, ds_pieceLen = 2, ds_totalLen = 4, ds_bitfield = [True, True],
     ds_files = [PieceFile 0 \<mapsto> [5, 5], PieceFile 1 \<mapsto> [7, 7], BitfieldFile \<mapsto> [1, 1]]\<rparr>"



text \<open>The setup is not safe. A peer that supports extensions and answers the extension handshake with a message
  without payload makes the worker panic in \<open>parseExtensionHandshake\<close>, whatever the state of the download;
  nothing recovers it, so one such peer ends the process.\<close>

theorem empty_extension_payload_panics:
  "worker_setup (replicate 20 0) pm (sample_peer (constructHandshakeMessage (replicate 20 0) True @ [0, 0, 0, 2, 5, 192] @ [0, 0, 0, 1, 20])) = None"
  by code_simp

end
