(* ===== verification/Metainfo.thy ===== *)
theory Metainfo
  imports Bencode Crypto
begin

text \<open>
  \<open>internal/metainfo\<close>: the info dictionary of a torrent (\<open>info.go\<close>), torrent files
  (\<open>torrent.go\<close>), magnet links and metadata pieces (\<open>magnet.go\<close>). A Go string is its bytes. The
  decoder turns byte strings that are valid UTF-8 into strings and the others into byte slices, and
  the type assertions here tell them apart. \<open>None\<close> is a panic.
\<close>

section \<open>Type assertions\<close>

definition go_string :: "(bytes, bval) dict \<Rightarrow> string \<Rightarrow> bytes option" where
  "go_string m k = (case map_of m (ascii k) of Some (BString s) \<Rightarrow> Some s | _ \<Rightarrow> None)"

definition go_int :: "(bytes, bval) dict \<Rightarrow> string \<Rightarrow> int option" where
  "go_int m k = (case map_of m (ascii k) of Some (BInt n) \<Rightarrow> Some n | _ \<Rightarrow> None)"

definition go_slice :: "(bytes, bval) dict \<Rightarrow> string \<Rightarrow> bytes option" where
  "go_slice m k = (case map_of m (ascii k) of Some (BBytes s) \<Rightarrow> Some s | _ \<Rightarrow> None)"

definition go_list :: "(bytes, bval) dict \<Rightarrow> string \<Rightarrow> bval list option" where
  "go_list m k = (case map_of m (ascii k) of Some (BList l) \<Rightarrow> Some l | _ \<Rightarrow> None)"

definition go_map :: "(bytes, bval) dict \<Rightarrow> string \<Rightarrow> (bytes, bval) dict option" where
  "go_map m k = (case map_of m (ascii k) of Some (BDict d) \<Rightarrow> Some d | _ \<Rightarrow> None)"

section \<open>The info dictionary\<close>

record file_info =
  f_Length :: int
  f_Path :: "bytes list"

record torrent_info =
  i_Length :: int
  i_Name :: bytes
  i_PieceLength :: int
  i_Pieces :: bytes
  i_InfoHash :: bytes
  i_Files :: "file_info list"

datatype meta_error = NameNotString | PieceLengthNotInt | PiecesNotSlice | NoLength
  | FileNotMap nat | FileLengthNotInt nat | PathNotList nat | PathNotString nat nat
  | TorrentNotMap | AnnounceNotString | InfoNotMap | TorrentDecode dec_error

fun parse_path :: "nat \<Rightarrow> nat \<Rightarrow> bval list \<Rightarrow> meta_error + bytes list" where
  "parse_path i j [] = Inr []"
| "parse_path i j (c # cs) =
     (case c of
        BString s \<Rightarrow> (case parse_path i (j + 1) cs of Inl e \<Rightarrow> Inl e | Inr path \<Rightarrow> Inr (s # path))
      | _ \<Rightarrow> Inl (PathNotString i j))"

fun parse_files :: "nat \<Rightarrow> bval list \<Rightarrow> meta_error + file_info list" where
  "parse_files i [] = Inr []"
| "parse_files i (f # fs) =
     (case f of
        BDict fileMap \<Rightarrow>
          (case go_int fileMap ''length'' of
             None \<Rightarrow> Inl (FileLengthNotInt i)
           | Some len \<Rightarrow>
               (case go_list fileMap ''path'' of
                  None \<Rightarrow> Inl (PathNotList i)
                | Some pathInterface \<Rightarrow>
                    (case parse_path i 0 pathInterface of
                       Inl e \<Rightarrow> Inl e
                     | Inr path \<Rightarrow>
                         (case parse_files (i + 1) fs of
                            Inl e \<Rightarrow> Inl e
                          | Inr files \<Rightarrow> Inr (\<lparr>f_Length = len, f_Path = path\<rparr> # files)))))
      | _ \<Rightarrow> Inl (FileNotMap i))"

definition parseFiles :: "bval list \<Rightarrow> meta_error + file_info list" where
  "parseFiles = parse_files 0"

definition sum_lengths :: "file_info list \<Rightarrow> int" where
  "sum_lengths files = foldl (\<lambda>n f. wrap64 (n + f_Length f)) 0 files"

definition NewInfo :: "(bytes, bval) dict \<Rightarrow> meta_error + torrent_info" where
  "NewInfo infoMap =
     (case go_string infoMap ''name'' of
        None \<Rightarrow> Inl NameNotString
      | Some name \<Rightarrow>
          (case go_int infoMap ''piece length'' of
             None \<Rightarrow> Inl PieceLengthNotInt
           | Some pieceLength \<Rightarrow>
               (case go_slice infoMap ''pieces'' of
                  None \<Rightarrow> Inl PiecesNotSlice
                | Some pieces \<Rightarrow>
                    (let info = \<lparr>i_Length = 0, i_Name = name, i_PieceLength = pieceLength, i_Pieces = pieces,
                           i_InfoHash = replicate 20 0, i_Files = []\<rparr>
                     in case go_int infoMap ''length'' of
                          Some len \<Rightarrow> Inr (info\<lparr>i_Length := len\<rparr>)
                        | None \<Rightarrow>
                            (case go_list infoMap ''files'' of
                               None \<Rightarrow> Inl NoLength
                             | Some filesInterface \<Rightarrow>
                                 (case parseFiles filesInterface of
                                    Inl e \<Rightarrow> Inl e
                                  | Inr files \<Rightarrow> Inr (info\<lparr>i_Files := files, i_Length := sum_lengths files\<rparr>)))))))"

definition IsSingleFile :: "torrent_info \<Rightarrow> bool" where
  "IsSingleFile i \<longleftrightarrow> length (i_Files i) = 0"

definition GetFiles :: "torrent_info \<Rightarrow> file_info list" where
  "GetFiles i = (if IsSingleFile i then [\<lparr>f_Length = i_Length i, f_Path = [i_Name i]\<rparr>] else i_Files i)"

text \<open>\<open>serializeInfo\<close> writes the dictionary by hand, with \<open>fmt.Sprintf\<close>.\<close>

definition counted_string :: "bytes \<Rightarrow> bytes" where
  "counted_string s = itoa (int (length s)) @ ascii '':'' @ s"

definition serialize_file :: "file_info \<Rightarrow> bytes" where
  "serialize_file f =
     ascii ''d6:lengthi'' @ itoa (f_Length f) @ ascii ''e4:pathl'' @ concat (map counted_string (f_Path f)) @ ascii ''ee''"

definition serializeInfo :: "torrent_info \<Rightarrow> bytes" where
  "serializeInfo i =
     (let nameB = ascii ''4:name'' @ counted_string (i_Name i);
          pLB = ascii ''12:piece lengthi'' @ itoa (i_PieceLength i) @ ascii ''e'';
          pieces = ascii ''6:pieces'' @ counted_string (i_Pieces i)
      in if IsSingleFile i
         then ascii ''d'' @ ascii ''6:lengthi'' @ itoa (i_Length i) @ ascii ''e'' @ nameB @ pLB @ pieces @ ascii ''e''
         else ascii ''d'' @ ascii ''5:filesl'' @ concat (map serialize_file (i_Files i)) @ ascii ''e'' @ nameB @ pLB @ pieces @ ascii ''e'')"

definition getInfoHash :: "torrent_info \<Rightarrow> bytes" where
  "getInfoHash i = sha1 (serializeInfo i)"

text \<open>
  The slice expressions may reach behind \<open>Pieces\<close> into the buffer it was cut from: \<open>rest\<close> is
  what follows there, and only past its end they panic.
\<close>

fun piece_hashes :: "nat \<Rightarrow> bytes \<Rightarrow> bytes list option" where
  "piece_hashes 0 buffer = Some []"
| "piece_hashes (Suc n) buffer =
     (if length buffer < 20 then None
      else map_option (\<lambda>hs. take 20 buffer # hs) (piece_hashes n (drop 20 buffer)))"

definition PieceHashes :: "bytes \<Rightarrow> torrent_info \<Rightarrow> bytes list option" where
  "PieceHashes rest i = piece_hashes ((length (i_Pieces i) + 19) div 20) (i_Pieces i @ rest)"

section \<open>Torrent files\<close>

record torrent_file =
  t_Announce :: bytes
  t_AnnounceList :: "bytes list"
  t_Info :: torrent_info

text \<open>An item that is not a list, or whose first element is not a string, leaves an empty string; an empty inner list panics.\<close>

definition announce_link :: "bval \<Rightarrow> bytes option" where
  "announce_link item =
     (case item of
        BList dumbList \<Rightarrow> (case dumbList of [] \<Rightarrow> None | BString link # _ \<Rightarrow> Some link | _ \<Rightarrow> Some [])
      | _ \<Rightarrow> Some [])"

definition newTorrentFile :: "bval \<Rightarrow> (meta_error + torrent_file) option" where
  "newTorrentFile dict =
     (case dict of
        BDict d \<Rightarrow>
          (case go_string d ''announce'' of
             None \<Rightarrow> Some (Inl AnnounceNotString)
           | Some announce \<Rightarrow>
               (case (case go_list d ''announce-list'' of None \<Rightarrow> Some [] | Some aList \<Rightarrow> those (map announce_link aList)) of
                  None \<Rightarrow> None
                | Some announceList \<Rightarrow>
                    Some (case go_map d ''info'' of
                            None \<Rightarrow> Inl InfoNotMap
                          | Some infoMap \<Rightarrow>
                              (case NewInfo infoMap of
                                 Inl e \<Rightarrow> Inl e
                               | Inr info \<Rightarrow>
                                   Inr \<lparr>t_Announce = announce, t_AnnounceList = announceList,
                                     t_Info = info\<lparr>i_InfoHash := getInfoHash info\<rparr>\<rparr>))))
      | _ \<Rightarrow> Some (Inl TorrentNotMap))"

text \<open>\<open>contents\<close>: the bytes of the file.\<close>

definition DeserializeTorrent :: "bytes \<Rightarrow> (meta_error + torrent_file) option" where
  "DeserializeTorrent contents =
     (case Decode contents of Inl e \<Rightarrow> Some (Inl (TorrentDecode e)) | Inr decoded \<Rightarrow> newTorrentFile decoded)"

fun tracker_urls :: "bytes list \<Rightarrow> bytes list \<Rightarrow> bytes list" where
  "tracker_urls [] urls = urls"
| "tracker_urls (u # us) urls = tracker_urls us (if u \<noteq> [] \<and> u \<notin> set urls then urls @ [u] else urls)"

definition TrackerURLs :: "torrent_file \<Rightarrow> bytes list" where
  "TrackerURLs t = tracker_urls (t_AnnounceList t) [t_Announce t]"

section \<open>Magnet links\<close>

record magnet_link =
  mg_TrackerURLs :: "bytes list"
  mg_InfoHash :: bytes
  mg_HexInfoHash :: bytes

function replace_all :: "bytes \<Rightarrow> bytes \<Rightarrow> bytes" where
  "replace_all old s =
     (if s = [] then []
      else if old \<noteq> [] \<and> take (length old) s = old then replace_all old (drop (length old) s)
      else hd s # replace_all old (tl s))"
  by pat_completeness auto

termination replace_all
  by (relation "measure (\<lambda>(old, s). length s)") auto

definition hex_digit :: "byte \<Rightarrow> byte option" where
  "hex_digit c =
     (if 0x30 \<le> c \<and> c \<le> 0x39 then Some (c - 0x30)
      else if 0x61 \<le> c \<and> c \<le> 0x66 then Some (c - 0x61 + 10)
      else if 0x41 \<le> c \<and> c \<le> 0x46 then Some (c - 0x41 + 10)
      else None)"

fun hex_decode :: "bytes \<Rightarrow> bytes option" where
  "hex_decode [] = Some []"
| "hex_decode [c] = None"
| "hex_decode (c # d # cs) =
     (case (hex_digit c, hex_digit d, hex_decode cs) of
        (Some x, Some y, Some bs) \<Rightarrow> Some ((x * 16 + y) # bs)
      | _ \<Rightarrow> None)"

text \<open>\<open>xt\<close> and \<open>tr\<close>: the values of these keys in the query of the parsed link; a link without \<open>xt\<close> panics.
  \<open>None\<close> inside is the error of a value that is not hexadecimal. \<open>copy\<close> pads or cuts to 20 bytes.\<close>

definition DeserializeMagnet :: "bytes list \<Rightarrow> bytes list \<Rightarrow> magnet_link option option" where
  "DeserializeMagnet xt tr =
     (case xt of
        [] \<Rightarrow> None
      | x # _ \<Rightarrow>
          (let hexInfoHash = replace_all (ascii ''urn:btih:'') x
           in Some (map_option (\<lambda>decoded. \<lparr>mg_TrackerURLs = tr, mg_InfoHash = take 20 (decoded @ replicate 20 0),
                 mg_HexInfoHash = hexInfoHash\<rparr>) (hex_decode hexInfoHash))))"

record metadata_piece =
  mp_Piece :: int
  mp_TotalSize :: int
  mp_Data :: bytes

datatype metadata_parse_error = MetadataTooShort | MetadataDecode dec_error | MetadataNotDict | InvalidMsgType | NoPieceIndex | NoTotalSize

definition ParseMetadataPiece :: "bytes \<Rightarrow> metadata_parse_error + metadata_piece" where
  "ParseMetadataPiece payload =
     (if length payload < 2 then Inl MetadataTooShort
      else (let bencodedPart = drop 1 payload
            in case DecodeAt bencodedPart 0 of
                 Inl (e, _) \<Rightarrow> Inl (MetadataDecode e)
               | Inr (BDict dict, dictEnd) \<Rightarrow>
                   (case go_int dict ''msg_type'' of
                      Some msgType \<Rightarrow>
                        if msgType \<noteq> 1 then Inl InvalidMsgType
                        else (case go_int dict ''piece'' of
                                None \<Rightarrow> Inl NoPieceIndex
                              | Some piece \<Rightarrow>
                                  (case go_int dict ''total_size'' of
                                     None \<Rightarrow> Inl NoTotalSize
                                   | Some totalSize \<Rightarrow>
                                       Inr \<lparr>mp_Piece = piece, mp_TotalSize = totalSize, mp_Data = drop dictEnd bencodedPart\<rparr>))
                    | None \<Rightarrow> Inl InvalidMsgType)
               | Inr _ \<Rightarrow> Inl MetadataNotDict))"


section \<open>The dictionary of an info\<close>

definition file_dict :: "file_info \<Rightarrow> bval" where
  "file_dict f = BDict [(ascii ''length'', BInt (f_Length f)), (ascii ''path'', BList (map BString (f_Path f)))]"

definition info_dict :: "torrent_info \<Rightarrow> bval" where
  "info_dict i = BDict
     ((if IsSingleFile i then (ascii ''length'', BInt (i_Length i)) else (ascii ''files'', BList (map file_dict (i_Files i))))
      # [(ascii ''name'', BString (i_Name i)), (ascii ''piece length'', BInt (i_PieceLength i)), (ascii ''pieces'', BBytes (i_Pieces i))])"

lemma counted_eq: "counted_string = encodeString"
  by (rule ext) (simp add: counted_string_def encodeString_def ascii_def)

lemma meta_key_bytes:
  "encodeString (ascii ''length'') = ascii ''6:length''" "encodeString (ascii ''path'') = ascii ''4:path''"
  "encodeString (ascii ''files'') = ascii ''5:files''" "encodeString (ascii ''name'') = ascii ''4:name''"
  "encodeString (ascii ''piece length'') = ascii ''12:piece length''" "encodeString (ascii ''pieces'') = ascii ''6:pieces''"
  by (simp_all add: encodeString_def itoa_def itoa_nat.simps digit_byte_def ascii_def)

lemma join_Inr: "join_results (map (\<lambda>x. Inr (f x)) xs) = Inr (concat (map f xs))"
  by (induction xs) simp_all

lemma ascii_append: "ascii (s @ t) = ascii s @ ascii t"
  by (simp add: ascii_def)

lemma key_order:
  "ascii ''length'' < ascii ''path''" "ascii ''length'' < ascii ''name''" "ascii ''files'' < ascii ''name''"
  "ascii ''name'' < ascii ''piece length''" "ascii ''piece length'' < ascii ''pieces''"
  by (simp_all add: ascii_def)

lemma Encode_file: "Encode (file_dict f) = Inr (serialize_file f)"
  by (simp add: file_dict_def encodeDict_def key_order encode_entry_def encodeList_def join_Inr o_def meta_key_bytes
    serialize_file_def counted_eq encodeInt_def less_imp_le) (simp add: ascii_def)


lemma info_dict_sorted:
  "sorted_dict ((if single then (ascii ''length'', x) else (ascii ''files'', y))
     # [(ascii ''name'', n), (ascii ''piece length'', p), (ascii ''pieces'', q)])"
  by (cases single) (simp_all add: sorted_dict_Cons, simp_all add: ascii_def)

lemma info_keys_sorted [simp]:
  "sorted_dict [(ascii ''length'', x), (ascii ''name'', n), (ascii ''piece length'', p), (ascii ''pieces'', q)]"
  "sorted_dict [(ascii ''files'', x), (ascii ''name'', n), (ascii ''piece length'', p), (ascii ''pieces'', q)]"
  "sorted_dict [(ascii ''length'', x), (ascii ''name'', n), (ascii ''piece length'', p), (ascii ''pieces'', q), (ascii ''private'', r)]"
  "sorted_dict [(ascii ''length'', x), (ascii ''path'', n)]" "sorted_dict [(ascii ''announce'', x), (ascii ''info'', n)]"
  by (simp_all add: sorted_dict_Cons, simp_all add: ascii_def)

lemma Encode_sorted:
  assumes "sorted_dict d"
  shows "Encode (BDict d) = (case join_results (map (\<lambda>e. encode_entry (fst e, Encode (snd e))) d) of Inl e \<Rightarrow> Inl e | Inr r \<Rightarrow> Inr ([c_d] @ r @ [c_e]))"
proof -
  have "sorted_dict (map (\<lambda>e. (fst e, Encode (snd e))) d)" using assms by (simp add: sorted_dict_def o_def)
  then have "sort_key fst (map (\<lambda>e. (fst e, Encode (snd e))) d) = map (\<lambda>e. (fst e, Encode (snd e))) d" by (rule sort_key_sorted_dict)
  then show ?thesis by (simp add: encodeDict_def o_def)
qed

lemma Encode_info: "Encode (info_dict i) = Inr (serializeInfo i)"
proof -
  have "Encode (BList (map file_dict fs)) = Inr ([c_l] @ concat (map serialize_file fs) @ [c_e])" for fs
    by (simp add: encodeList_def join_Inr o_def Encode_file)
  then show ?thesis
    unfolding info_dict_def Encode_sorted [OF info_dict_sorted]
    by (simp add: encode_entry_def meta_key_bytes serializeInfo_def Let_def counted_eq encodeInt_def) (simp add: ascii_def)
qed

text \<open>What the decoder can have produced.\<close>

definition decoded :: "bval \<Rightarrow> bool" where
  "decoded v \<longleftrightarrow> wf_bval v \<and> height v \<le> maxDecodeDepth \<and> norm v = v"

lemma decoded_entry:
  assumes "decoded (BDict d)" "map_of d k = Some v"
  shows "wf_bval v \<and> norm v = v"
proof -
  have v: "(k, v) \<in> set d" using assms(2) by (rule map_of_SomeD)
  then have "wf_bval v" using assms(1) by (auto simp: decoded_def list_all_iff)
  moreover have "map (\<lambda>e. (fst e, norm (snd e))) d = d" using assms(1) by (simp add: decoded_def)
  then have "\<forall>e \<in> set d. (fst e, norm (snd e)) = e" by (simp add: map_id_iff)
  ultimately show ?thesis using v by force
qed

lemma decoded_list: "wf_bval (BList l) \<and> norm (BList l) = BList l \<Longrightarrow> v \<in> set l \<Longrightarrow> wf_bval v \<and> norm v = v"
  by (auto simp: list_all_iff map_id_iff)

lemma go_decoded:
  assumes "\<And>k v. map_of m k = Some v \<Longrightarrow> wf_bval v \<and> norm v = v"
  shows "go_string m s = Some x \<Longrightarrow> in_int64 (int (length x)) \<and> utf8_valid x"
    "go_int m s = Some n \<Longrightarrow> in_int64 n"
    "go_slice m s = Some x \<Longrightarrow> in_int64 (int (length x)) \<and> \<not> utf8_valid x"
    "go_list m s = Some l \<Longrightarrow> wf_bval (BList l) \<and> norm (BList l) = BList l"
  using assms [of "ascii s"]
  by (auto simp: go_string_def go_int_def go_slice_def go_list_def split: option.splits bval.splits if_splits)


lemma parse_path_ok:
  "parse_path i j cs = Inr path \<Longrightarrow> cs = map BString path"
  by (induction i j cs arbitrary: path rule: parse_path.induct) (auto split: bval.splits sum.splits)

lemma parse_path_map: "parse_path i j (map BString path) = Inr path"
  by (induction path arbitrary: j) auto

definition file_ok :: "file_info \<Rightarrow> bool" where
  "file_ok f \<longleftrightarrow> in_int64 (f_Length f) \<and> list_all (\<lambda>s. in_int64 (int (length s)) \<and> utf8_valid s) (f_Path f)"

lemma parse_files_ok:
  "parse_files i fs = Inr files \<Longrightarrow> (\<And>v. v \<in> set fs \<Longrightarrow> wf_bval v \<and> norm v = v) \<Longrightarrow> list_all file_ok files"
proof (induction i fs arbitrary: files rule: parse_files.induct)
  case (2 i f fs)
  then obtain m len l path rest where f: "f = BDict m" "go_int m ''length'' = Some len" "go_list m ''path'' = Some l"
      "parse_path i 0 l = Inr path" "parse_files (i + 1) fs = Inr rest" "files = \<lparr>f_Length = len, f_Path = path\<rparr> # rest"
    by (auto split: bval.splits option.splits sum.splits)
  have m: "wf_bval v \<and> norm v = v" if "map_of m k = Some v" for k v
  proof -
    have "wf_bval (BDict m) \<and> norm (BDict m) = BDict m" using 2(3) [of f] f(1) by simp
    moreover have "(k, v) \<in> set m" using that by (rule map_of_SomeD)
    ultimately show ?thesis by (fastforce simp: list_all_iff map_id_iff)
  qed
  have l: "wf_bval (BList l) \<and> norm (BList l) = BList l" using go_decoded(4) [OF m f(3)] by simp
  have "list_all (\<lambda>s. in_int64 (int (length s)) \<and> utf8_valid s) path"
    using l unfolding parse_path_ok [OF f(4)] by (induction path) (auto split: if_splits)
  moreover have "in_int64 len" using go_decoded(2) [OF m f(2)] by simp
  moreover have "list_all file_ok rest" using 2(1) [OF f(1-4)] f(5) 2(3) by simp
  ultimately show ?case using f(6) by (auto simp: file_ok_def list_all_iff)
qed simp

definition info_ok_vals :: "torrent_info \<Rightarrow> bool" where
  "info_ok_vals i \<longleftrightarrow> in_int64 (i_Length i) \<and> in_int64 (i_PieceLength i) \<and> in_int64 (int (length (i_Name i))) \<and> utf8_valid (i_Name i)
     \<and> in_int64 (int (length (i_Pieces i))) \<and> \<not> utf8_valid (i_Pieces i) \<and> list_all file_ok (i_Files i)"

lemma wrap64_in_int64: "in_int64 (wrap64 n)" by (rule wrap64_in_range)

lemma sum_lengths_in_int64: "in_int64 (sum_lengths fs)"
  by (induction fs rule: rev_induct) (simp_all add: sum_lengths_def wrap64_in_int64, simp add: in_int64_def int64_min_def int64_max_def)

lemma NewInfo_cases:
  assumes "NewInfo d = Inr i"
  obtains (single) "go_string d ''name'' = Some (i_Name i)" "go_int d ''piece length'' = Some (i_PieceLength i)"
      "go_slice d ''pieces'' = Some (i_Pieces i)" "go_int d ''length'' = Some (i_Length i)" "i_Files i = []" "i_InfoHash i = replicate 20 0"
  | (multi) l where "go_string d ''name'' = Some (i_Name i)" "go_int d ''piece length'' = Some (i_PieceLength i)"
      "go_slice d ''pieces'' = Some (i_Pieces i)" "go_int d ''length'' = None" "go_list d ''files'' = Some l"
      "parseFiles l = Inr (i_Files i)" "i_Length i = sum_lengths (i_Files i)" "i_InfoHash i = replicate 20 0"
  using assms by (auto simp: NewInfo_def Let_def split: option.splits sum.splits)

lemma NewInfo_ok_vals:
  assumes "decoded (BDict d)" "NewInfo d = Inr i"
  shows "info_ok_vals i"
  using assms(2)
proof (cases rule: NewInfo_cases)
  case single
  then show ?thesis using go_decoded [of d, OF decoded_entry [OF assms(1)]] by (simp add: info_ok_vals_def)
next
  case (multi l)
  have "wf_bval (BList l) \<and> norm (BList l) = BList l" using go_decoded(4) [of d, OF decoded_entry [OF assms(1)] multi(5)] .
  then have "list_all file_ok (i_Files i)"
    using parse_files_ok [of 0 l "i_Files i"] multi(6) decoded_list [of l] unfolding parseFiles_def by blast
  then show ?thesis
    using go_decoded(1-3) [of d, OF decoded_entry [OF assms(1)]] multi sum_lengths_in_int64 by (simp add: info_ok_vals_def)
qed


lemma small_int64: "0 \<le> n \<Longrightarrow> n \<le> 100 \<Longrightarrow> in_int64 n"
  by (simp add: in_int64_def int64_min_def int64_max_def)

lemma file_dict_decoded:
  assumes "file_ok f"
  shows "wf_bval (file_dict f) \<and> norm (file_dict f) = file_dict f \<and> height (file_dict f) \<le> 2"
proof -
  have "height (BList (map BString (f_Path f))) \<le> 1" using height_BList_le [of 0 "map BString (f_Path f)" 1] by simp
  then show ?thesis
    using assms height_BDict_le [of 0 "[(ascii ''length'', BInt (f_Length f)), (ascii ''path'', BList (map BString (f_Path f)))]" 2]
    by (simp add: file_dict_def file_ok_def list_all_iff small_int64 map_id_iff)
qed

lemma info_dict_ok:
  assumes "info_ok_vals i"
  shows "decoded (info_dict i)" "height (info_dict i) \<le> 4"
proof -
  have files: "wf_bval (BList (map file_dict (i_Files i))) \<and> norm (BList (map file_dict (i_Files i))) = BList (map file_dict (i_Files i))
      \<and> height (BList (map file_dict (i_Files i))) \<le> 3"
    using assms file_dict_decoded height_BList_le [of 0 "map file_dict (i_Files i)" 3]
    by (fastforce simp: info_ok_vals_def list_all_iff)
  let ?e = "if IsSingleFile i then (ascii ''length'', BInt (i_Length i)) else (ascii ''files'', BList (map file_dict (i_Files i)))"
  let ?d = "?e # [(ascii ''name'', BString (i_Name i)), (ascii ''piece length'', BInt (i_PieceLength i)), (ascii ''pieces'', BBytes (i_Pieces i))]"
  have w: "wf_bval (snd ?e)" "norm (snd ?e) = snd ?e" "height (snd ?e) \<le> 3" "in_int64 (int (length (fst ?e)))"
    using files assms by (auto simp: info_ok_vals_def small_int64)
  have "wf_bval (BDict ?d)" using assms w(1,4) by (cases "IsSingleFile i") (simp_all add: info_ok_vals_def small_int64)
  moreover have "norm (BDict ?d) = BDict ?d" using assms w(2) by (cases "IsSingleFile i") (simp_all add: info_ok_vals_def)
  moreover have "height (BDict ?d) \<le> 4" using height_BDict_le [of 0 ?d 4] w(3) by simp
  ultimately show "decoded (info_dict i)" "height (info_dict i) \<le> 4"
    by (simp_all add: decoded_def info_dict_def maxDecodeDepth_def del: height.simps)
qed

lemmas info_dict_decoded = info_dict_ok(1)
lemmas info_dict_height = info_dict_ok(2)

text \<open>C29: The hand-written serialisation of an info is the one the general encoder gives for its dictionary.
  When an info was read from a dictionary, the string that is hashed to get the info hash is the bencoding of that
  dictionary (the string other clients hash) exactly when the dictionary has no keys but the ones the program keeps:
  then the hash is right, and with any other key, such as \<open>private\<close>, the hashed string differs.\<close>

theorem info_hash_string:
  assumes "decoded (BDict d)" "NewInfo d = Inr i"
  shows "Encode (info_dict i) = Inr (serializeInfo i)
    \<and> (Encode (BDict d) = Inr (serializeInfo i) \<longleftrightarrow> BDict d = info_dict i)
    \<and> (i_Files i = [] \<longrightarrow> (BDict d = info_dict i \<longleftrightarrow>
         map fst d = [ascii ''length'', ascii ''name'', ascii ''piece length'', ascii ''pieces'']))"
proof -
  have ok: "decoded (info_dict i)" by (rule info_dict_decoded [OF NewInfo_ok_vals [OF assms]])
  have 2: "Encode (BDict d) = Inr (serializeInfo i) \<longleftrightarrow> BDict d = info_dict i"
  proof
    assume "BDict d = info_dict i"
    then show "Encode (BDict d) = Inr (serializeInfo i)" by (simp only: Encode_info)
  next
    assume "Encode (BDict d) = Inr (serializeInfo i)"
    then have "Encode (BDict d) = Encode (info_dict i)" by (simp only: Encode_info)
    with Encode_injective [of "BDict d" "info_dict i"] assms(1) ok show "BDict d = info_dict i" unfolding decoded_def by blast
  qed
  have 3: "BDict d = info_dict i \<longleftrightarrow> map fst d = [ascii ''length'', ascii ''name'', ascii ''piece length'', ascii ''pieces'']"
    if f: "i_Files i = []"
  proof
    assume "BDict d = info_dict i"
    then show "map fst d = [ascii ''length'', ascii ''name'', ascii ''piece length'', ascii ''pieces'']"
      using f by (simp add: info_dict_def IsSingleFile_def)
  next
    assume k: "map fst d = [ascii ''length'', ascii ''name'', ascii ''piece length'', ascii ''pieces'']"
    then obtain a b c e where d: "d = [(ascii ''length'', a), (ascii ''name'', b), (ascii ''piece length'', c), (ascii ''pieces'', e)]"
      by (auto simp: map_eq_Cons_conv)
    have nf: "go_list d ''files'' = None" by (simp add: go_list_def d)
    from assms(2) show "BDict d = info_dict i"
    proof (cases rule: NewInfo_cases)
      case single
      then show ?thesis using f by (auto simp: d go_string_def go_int_def go_slice_def info_dict_def IsSingleFile_def split: bval.splits)
    next
      case (multi l)
      with nf show ?thesis by simp
    qed
  qed
  show ?thesis using 2 3 Encode_info by blast
qed


definition sample_info :: "(bytes, bval) dict" where
  "sample_info = [(ascii ''length'', BInt 5), (ascii ''name'', BString (ascii ''a'')), (ascii ''piece length'', BInt 4),
     (ascii ''pieces'', BBytes (replicate 40 255))]"

definition private_info :: "(bytes, bval) dict" where
  "private_info = sample_info @ [(ascii ''private'', BInt 1)]"

lemma sample_info_decoded: "decoded (BDict sample_info)" "decoded (BDict private_info)"
proof -
  have "replicate 40 (255 :: byte) = 255 # replicate 39 255" using replicate_Suc [of 39 "255 :: byte"] by simp
  then obtain p :: bytes where p: "p = replicate 40 255" "\<not> utf8_valid p" "length p = 40" by (auto simp: utf8_lead_def)
  have v: "utf8_valid (ascii ''a'')" by (rule utf8_valid_ascii) (simp add: ascii_def)
  show "decoded (BDict sample_info)" unfolding sample_info_def p(1) [symmetric]
    by (simp add: decoded_def small_int64 p(2,3) v maxDecodeDepth_def)
  show "decoded (BDict private_info)" unfolding private_info_def sample_info_def p(1) [symmetric]
    by (simp add: decoded_def small_int64 p(2,3) v maxDecodeDepth_def)
qed

theorem info_hash_string_witness:
  "\<exists>i. NewInfo sample_info = Inr i \<and> NewInfo private_info = Inr i
    \<and> Encode (BDict sample_info) = Inr (serializeInfo i) \<and> Encode (BDict private_info) \<noteq> Inr (serializeInfo i)"
proof -
  let ?i = "\<lparr>i_Length = 5, i_Name = ascii ''a'', i_PieceLength = 4, i_Pieces = replicate 40 255,
    i_InfoHash = replicate 20 0, i_Files = []\<rparr>"
  have n: "NewInfo sample_info = Inr ?i" "NewInfo private_info = Inr ?i"
    by (simp_all add: NewInfo_def sample_info_def private_info_def go_string_def go_int_def go_slice_def)
  have "map fst sample_info = [ascii ''length'', ascii ''name'', ascii ''piece length'', ascii ''pieces'']"
    "map fst private_info \<noteq> [ascii ''length'', ascii ''name'', ascii ''piece length'', ascii ''pieces'']"
    by (simp_all add: sample_info_def private_info_def)
  with info_hash_string [OF sample_info_decoded(1) n(1)] info_hash_string [OF sample_info_decoded(2) n(2)] n
  show ?thesis by (intro exI [of _ ?i]) simp
qed

definition the_dict :: "bval \<Rightarrow> (bytes, bval) dict" where
  "the_dict v = (case v of BDict d \<Rightarrow> d | _ \<Rightarrow> [])"

lemma parse_files_map: "parse_files k (map file_dict fs) = Inr fs"
  by (induction fs arbitrary: k) (simp_all add: file_dict_def go_int_def go_list_def parse_path_map)

lemma NewInfo_info_dict:
  assumes "info_ok_vals i" "i_Files i \<noteq> [] \<longrightarrow> i_Length i = sum_lengths (i_Files i)" "i_InfoHash i = replicate 20 0"
  shows "NewInfo (the_dict (info_dict i)) = Inr i"
  using assms by (cases i) (simp add: NewInfo_def the_dict_def info_dict_def IsSingleFile_def go_string_def go_int_def go_slice_def go_list_def
    parseFiles_def parse_files_map)

text \<open>C17: A torrent file survives a round trip. When a torrent file is written from any valid info with an announce address, parsing
  it gives back the name, lengths, piece hashes and files, and the info hash is the SHA-1 hash of the info dictionary's bytes in the file.\<close>

theorem torrent_roundtrip:
  assumes "info_ok_vals i" "i_Files i \<noteq> [] \<longrightarrow> i_Length i = sum_lengths (i_Files i)" "i_InfoHash i = replicate 20 0"
    and "utf8_valid announce" "in_int64 (int (length announce))"
    and "Encode (BDict [(ascii ''announce'', BString announce), (ascii ''info'', info_dict i)]) = Inr contents"
  shows "\<exists>t pre post. DeserializeTorrent contents = Some (Inr t) \<and> t_Announce t = announce \<and> TrackerURLs t = [announce]
    \<and> t_Info t = i\<lparr>i_InfoHash := sha1 (serializeInfo i)\<rparr> \<and> contents = pre @ serializeInfo i @ post"
proof -
  let ?d = "[(ascii ''announce'', BString announce), (ascii ''info'', info_dict i)]"
  have ok: "decoded (info_dict i)" "height (info_dict i) \<le> 4" using info_dict_decoded [OF assms(1)] info_dict_height [OF assms(1)] .
  have "height (BDict ?d) \<le> 5" using height_BDict_le [of 0 ?d 5] ok(2) by simp
  then have h: "height (BDict ?d) \<le> maxDecodeDepth" by (simp add: maxDecodeDepth_def)
  have w: "wf_bval (BDict ?d)" "norm (BDict ?d) = BDict ?d" using ok(1) assms(4,5) by (simp_all add: decoded_def small_int64)
  obtain b where b: "Encode (BDict ?d) = Inr b" "Decode b = Inr (norm (BDict ?d))" using Encode_then_Decode [OF w(1) h] by blast
  then have dec: "Decode contents = Inr (BDict ?d)" using assms(6) w(2) by simp
  have new: "NewInfo (the_dict (info_dict i)) = Inr i" by (rule NewInfo_info_dict [OF assms(1-3)])
  obtain e where e: "info_dict i = BDict e" by (simp add: info_dict_def)
  have t: "DeserializeTorrent contents = Some (Inr \<lparr>t_Announce = announce, t_AnnounceList = [], t_Info = i\<lparr>i_InfoHash := sha1 (serializeInfo i)\<rparr>\<rparr>)"
    using new by (simp add: DeserializeTorrent_def dec newTorrentFile_def go_string_def go_list_def go_map_def the_dict_def e getInfoHash_def)
  have c: "contents = ([c_d] @ encodeString (ascii ''announce'') @ encodeString announce @ encodeString (ascii ''info'')) @ serializeInfo i @ [c_e]"
    using assms(6) unfolding Encode_sorted [OF info_keys_sorted(5)] by (simp add: encode_entry_def Encode_info)
  have "\<exists>pre post. contents = pre @ serializeInfo i @ post" using c by blast
  with t show ?thesis by (simp add: TrackerURLs_def)
qed


theorem torrent_roundtrip_witness:
  "\<exists>contents t. Encode (BDict [(ascii ''announce'', BString (ascii ''http://t/'')),
       (ascii ''info'', info_dict \<lparr>i_Length = 5, i_Name = ascii ''a'', i_PieceLength = 4, i_Pieces = [255],
          i_InfoHash = replicate 20 0, i_Files = []\<rparr>)]) = Inr contents
    \<and> DeserializeTorrent contents = Some (Inr t) \<and> i_Length (t_Info t) = 5"
proof -
  let ?i = "\<lparr>i_Length = 5, i_Name = ascii ''a'', i_PieceLength = 4, i_Pieces = [255], i_InfoHash = replicate 20 0, i_Files = []\<rparr>"
  have u: "utf8_valid (ascii ''a'')" "utf8_valid (ascii ''http://t/'')" by (rule utf8_valid_ascii, simp add: ascii_def)+
  have ok: "info_ok_vals ?i" by (simp add: info_ok_vals_def small_int64 u utf8_lead_def)
  have "in_int64 (int (length (ascii ''http://t/'')))" by (simp add: small_int64)
  note rt = torrent_roundtrip [OF ok _ _ u(2) this]
  let ?d = "[(ascii ''announce'', BString (ascii ''http://t/'')), (ascii ''info'', info_dict ?i)]"
  obtain contents where c: "Encode (BDict ?d) = Inr contents"
    using Encode_info [of ?i] unfolding Encode_sorted [OF info_keys_sorted(5)] by (simp add: encode_entry_def)
  from rt [OF _ _ c] obtain t where "DeserializeTorrent contents = Some (Inr t)" "i_Length (t_Info t) = 5" by auto
  with c show ?thesis by blast
qed

section \<open>Piece hashes\<close>

lemma piece_hashes_spec:
  "piece_hashes n buffer = (if 20 * n \<le> length buffer then Some (map (\<lambda>k. take 20 (drop (20 * k) buffer)) [0..<n]) else None)"
proof (induction n arbitrary: buffer)
  case (Suc n)
  have "map (\<lambda>k. take 20 (drop (20 * k) buffer)) [0..<Suc n] = take 20 buffer # map (\<lambda>k. take 20 (drop (20 * k) (drop 20 buffer))) [0..<n]"
    by (subst map_upt_Suc) (simp add: add.commute)
  then show ?case by (auto simp: Suc)
qed simp

lemma ceil_div20: "0 < r \<Longrightarrow> r < 20 \<Longrightarrow> (20 * q + r + 19) div 20 = Suc q" for q r :: nat
  by (rule div_nat_eqI) simp_all

lemma PieceHashes_whole:
  assumes "length (i_Pieces i) mod 20 = 0"
  shows "\<exists>hs. PieceHashes rest i = Some hs \<and> concat hs = i_Pieces i \<and> list_all (\<lambda>h. length h = 20) hs \<and> 20 * length hs = length (i_Pieces i)"
proof -
  let ?p = "i_Pieces i"
  have parts: "concat (map (\<lambda>k. take 20 (drop (20 * k) (p @ rest))) [0..<n]) = p \<and>
      list_all (\<lambda>h. length h = 20) (map (\<lambda>k. take 20 (drop (20 * k) (p @ rest))) [0..<n])" if "length p = 20 * n" for p :: bytes and n
    using that
  proof (induction n arbitrary: p)
    case (Suc n)
    have m: "map (\<lambda>k. take 20 (drop (20 * k) (p @ rest))) [0..<Suc n]
        = take 20 p # map (\<lambda>k. take 20 (drop (20 * k) (drop 20 p @ rest))) [0..<n]"
      using Suc(2) by (subst map_upt_Suc) (simp add: add.commute)
    have "length (drop 20 p) = 20 * n" using Suc(2) by simp
    from Suc(1) [OF this] show ?case unfolding m using Suc(2) by simp
  qed simp
  obtain n where n: "length ?p = 20 * n" using assms by (metis mod_0_imp_dvd dvdE)
  then have "(length ?p + 19) div 20 = n" by simp
  then show ?thesis using parts [OF n] n by (simp add: PieceHashes_def piece_hashes_spec)
qed

text \<open>Piece hashes. When the length of \<open>pieces\<close> is a multiple of 20 they are its consecutive 20-byte parts, whatever
  follows it in memory; otherwise the last one reaches into the bytes that follow, and panics when there are not
  enough of them.\<close>

theorem PieceHashes_spec:
  "(length (i_Pieces i) mod 20 = 0 \<longrightarrow> (\<exists>hs. PieceHashes rest i = Some hs \<and> concat hs = i_Pieces i
       \<and> list_all (\<lambda>h. length h = 20) hs \<and> 20 * length hs = length (i_Pieces i)))
    \<and> (length (i_Pieces i) mod 20 \<noteq> 0 \<longrightarrow>
         (PieceHashes rest i = None \<longleftrightarrow> length rest + length (i_Pieces i) mod 20 < 20))"
proof -
  let ?p = "i_Pieces i"
  have 1: "\<exists>hs. PieceHashes rest i = Some hs \<and> concat hs = ?p \<and> list_all (\<lambda>h. length h = 20) hs \<and> 20 * length hs = length ?p"
    if z: "length ?p mod 20 = 0" using PieceHashes_whole [OF z] .
  have 2: "PieceHashes rest i = None \<longleftrightarrow> length rest + length ?p mod 20 < 20" if z: "length ?p mod 20 \<noteq> 0"
  proof -
    have e: "20 * Suc q \<le> 20 * q + r + n \<longleftrightarrow> \<not> n + r < 20" for q r n :: nat by arith
    have l: "length ?p + length rest = 20 * (length ?p div 20) + length ?p mod 20 + length rest" by simp
    have "(length ?p + 19) div 20 = Suc (length ?p div 20)"
      using ceil_div20 [of "length ?p mod 20" "length ?p div 20"] z by simp
    then have "PieceHashes rest i = None \<longleftrightarrow> \<not> 20 * Suc (length ?p div 20) \<le> length ?p + length rest"
      unfolding PieceHashes_def piece_hashes_spec by simp
    then show ?thesis unfolding l e by simp
  qed
  show ?thesis using 1 2 by blast
qed

text \<open>The tracker list: the announce address first, then the other addresses of the list in their order, each once and none empty.\<close>

lemma tracker_urls_spec:
  "distinct urls \<Longrightarrow> distinct (tracker_urls us urls) \<and> set (tracker_urls us urls) = set urls \<union> (set us - {[]})
    \<and> (\<exists>more. tracker_urls us urls = urls @ more)"
proof (induction us urls rule: tracker_urls.induct)
  case (2 u us urls)
  then show ?case by (auto split: if_splits)
qed simp

theorem PieceHashes_spec_witness:
  "PieceHashes [] \<lparr>i_Length = 5, i_Name = [], i_PieceLength = 4, i_Pieces = [1, 2, 3], i_InfoHash = [], i_Files = []\<rparr> = None"
  using PieceHashes_spec [of "\<lparr>i_Length = 5, i_Name = [], i_PieceLength = 4, i_Pieces = [1, 2, 3], i_InfoHash = [], i_Files = []\<rparr>" "[]"] by simp

section \<open>Magnet links\<close>

definition hex_char :: "byte \<Rightarrow> byte" where
  "hex_char n = (if n < 10 then 0x30 + n else 0x61 + (n - 10))"

definition hex_encode :: "bytes \<Rightarrow> bytes" where
  "hex_encode bs = concat (map (\<lambda>b. [hex_char (drop_bit 4 b), hex_char (b AND 0xF)]) bs)"


lemma hex_table: "list_all (\<lambda>n. hex_digit (hex_char n) = Some n \<and> hex_char n \<noteq> 0x75) (map of_nat [0..<16])"
  by code_simp

lemma nibble_table:
  fixes n :: byte
  assumes "list_all P (map of_nat [0..<16])" "n < 16"
  shows "P n"
proof -
  have "unat n < 16" using assms(2) by (simp add: word_less_nat_alt)
  then have "unat n \<in> set [0..<16]" by simp
  moreover have "n = of_nat (unat n)" by simp
  ultimately have "n \<in> set (map of_nat [0..<16])" by (metis image_eqI list.set_map)
  with assms(1) show ?thesis unfolding list_all_iff by blast
qed

lemma hex_digit_char: "n < 16 \<Longrightarrow> hex_digit (hex_char n) = Some n" "n < 16 \<Longrightarrow> hex_char n \<noteq> 0x75"
  using nibble_table [OF hex_table] by simp_all

lemma nibbles: "drop_bit 4 b < 16" "b AND 0xF < 16" "drop_bit 4 b * 16 + (b AND 0xF) = b" for b :: byte
proof -
  have d: "unat (drop_bit 4 b) = unat b div 16" unfolding unat_drop_bit_eq by (simp add: drop_bit_eq_div)
  have "b AND 0xF = take_bit 4 b" unfolding take_bit_eq_mask mask_eq_exp_minus_1 by (rule arg_cong [of _ _ "\<lambda>m. b AND m"]) simp
  have m: "unat (b AND 0xF) = unat b mod 16" unfolding \<open>b AND 0xF = take_bit 4 b\<close> unsigned_take_bit_eq take_bit_eq_mod by (simp add: unat_mod_distrib)
  have u: "unat b < 256" using unsigned_less [of b, where 'a = nat] by simp
  show "drop_bit 4 b < 16" using d u by (simp add: word_less_nat_alt)
  show "b AND 0xF < 16" using m by (simp add: word_less_nat_alt)
  have "unat b div 16 * 16 + unat b mod 16 < 256" using u by simp
  then have "unat (drop_bit 4 b * 16 + (b AND 0xF)) = unat b" using d m by (simp add: unat_word_ariths)
  then show "drop_bit 4 b * 16 + (b AND 0xF) = b" by (simp add: word_unat_eq_iff)
qed

lemma hex_roundtrip: "hex_decode (hex_encode bs) = Some bs"
  by (induction bs) (simp_all add: hex_encode_def hex_digit_char nibbles)

lemma replace_none: "old \<noteq> [] \<Longrightarrow> hd old \<notin> set s \<Longrightarrow> replace_all old s = s"
proof (induction s)
  case (Cons c s)
  then have "take (length old) (c # s) \<noteq> old" by (cases old) auto
  then have "replace_all old (c # s) = c # replace_all old s" by (subst replace_all.simps) simp
  with Cons show ?case by simp
qed (simp add: replace_all.simps)

declare replace_all.simps [simp del]

text \<open>A magnet link for an info hash, written as \<open>urn:btih:\<close> and the hash in hexadecimal, is parsed to that hash and its trackers; without \<open>xt\<close> parameter
  the parser panics, and a hexadecimal string of the wrong length is padded with zeros or cut instead of being refused.\<close>

theorem DeserializeMagnet_spec:
  "(length h = 20 \<longrightarrow> DeserializeMagnet [ascii ''urn:btih:'' @ hex_encode h] tr
      = Some (Some \<lparr>mg_TrackerURLs = tr, mg_InfoHash = h, mg_HexInfoHash = hex_encode h\<rparr>))
    \<and> DeserializeMagnet [] tr = None
    \<and> (\<exists>hex. DeserializeMagnet [ascii ''urn:btih:'' @ hex_encode h] tr
         = Some (Some \<lparr>mg_TrackerURLs = tr, mg_InfoHash = take 20 (h @ replicate 20 0), mg_HexInfoHash = hex\<rparr>))"
proof -
  have p: "ascii ''urn:btih:'' \<noteq> []" "hd (ascii ''urn:btih:'') = 0x75" by (simp_all add: ascii_def)
  have "0x75 \<notin> set (hex_encode h)"
  proof
    assume "0x75 \<in> set (hex_encode h)"
    then obtain b where "0x75 = hex_char (drop_bit 4 b) \<or> 0x75 = hex_char (b AND 0xF)" by (auto simp: hex_encode_def)
    then show False using hex_digit_char(2) nibbles(1,2) by metis
  qed
  then have "replace_all (ascii ''urn:btih:'') (hex_encode h) = hex_encode h" using p by (intro replace_none) simp_all
  moreover have "replace_all (ascii ''urn:btih:'') (ascii ''urn:btih:'' @ s) = replace_all (ascii ''urn:btih:'') s" for s
    using p by (subst replace_all.simps) simp
  ultimately have r: "replace_all (ascii ''urn:btih:'') (ascii ''urn:btih:'' @ hex_encode h) = hex_encode h" by simp
  show ?thesis by (auto simp: DeserializeMagnet_def r hex_roundtrip)
qed

theorem DeserializeMagnet_spec_witness:
  "DeserializeMagnet [ascii ''urn:btih:'' @ hex_encode (replicate 20 0xAB)] [] \<noteq> None \<and> DeserializeMagnet [] [] = None"
  using DeserializeMagnet_spec [of "replicate 20 0xAB" "[]"] by auto

end
