(* ===== verification/Metadata.thy ===== *)
theory Metadata
  imports Handshake BlockTransfer Metainfo
begin

text \<open>
  The download of the info dictionary from a peer, for a magnet link: \<open>RequestMetadataPiece\<close> and
  \<open>DownloadMetadata\<close> of \<open>internal/peer/peer.go\<close>. \<open>maxAlloc\<close> is the largest capacity the runtime
  can allocate: \<open>make\<close> panics when the capacity is negative or larger.
\<close>

datatype metadata_error = ExtensionFailed peer_error | NoUtMetadata | ZeroMetadataSize
  | MetadataRequest peer_error | MetadataMessage byte | MetadataPieceInvalid metadata_parse_error
  | MetadataHashMismatch | MetadataInvalid dec_error | MetadataNotInfo | MetadataInfo meta_error

definition MetadataPieceSize :: int where "MetadataPieceSize = 16384"

definition metadata_request :: "byte \<Rightarrow> int \<Rightarrow> bytes" where
  "metadata_request utMetadataID piece = utMetadataID # ascii ''d8:msg_typei0e5:piecei'' @ itoa piece @ ascii ''ee''"

definition RequestMetadataPiece ::
    "byte \<Rightarrow> int \<Rightarrow> peer_state \<Rightarrow> ((metadata_error + metadata_piece) \<times> peer_state) option" where
  "RequestMetadataPiece utMetadataID piece p =
     (case SendMessage 20 (metadata_request utMetadataID piece) p of
        None \<Rightarrow> None
      | Some (Inl e, p) \<Rightarrow> Some (Inl (MetadataRequest e), p)
      | Some (Inr msg, p) \<Rightarrow>
          if m_ID msg \<noteq> 20 then Some (Inl (MetadataMessage (m_ID msg)), p)
          else (case ParseMetadataPiece (m_Payload msg) of
                  Inl e \<Rightarrow> Some (Inl (MetadataPieceInvalid e), p)
                | Inr piece \<Rightarrow> Some (Inr piece, p)))"

text \<open>The loop, with the number of pieces still to ask for.\<close>

fun request_pieces ::
    "byte \<Rightarrow> nat \<Rightarrow> int \<Rightarrow> bytes \<Rightarrow> peer_state \<Rightarrow> ((metadata_error + bytes) \<times> peer_state) option" where
  "request_pieces utMetadataID 0 i metadata p = Some (Inr metadata, p)"
| "request_pieces utMetadataID (Suc n) i metadata p =
     (case RequestMetadataPiece utMetadataID i p of
        None \<Rightarrow> None
      | Some (Inl e, p) \<Rightarrow> Some (Inl e, p)
      | Some (Inr piece, p) \<Rightarrow> request_pieces utMetadataID n (i + 1) (metadata @ mp_Data piece) p)"

definition parse_metadata :: "magnet_link \<Rightarrow> bytes \<Rightarrow> metadata_error + torrent_info" where
  "parse_metadata magnet metadata =
     (if HashPiece metadata \<noteq> mg_InfoHash magnet then Inl MetadataHashMismatch
      else (case Decode metadata of
              Inl e \<Rightarrow> Inl (MetadataInvalid e)
            | Inr (BDict infoDict) \<Rightarrow> (case NewInfo infoDict of Inl e \<Rightarrow> Inl (MetadataInfo e) | Inr info \<Rightarrow> Inr info)
            | Inr _ \<Rightarrow> Inl MetadataNotInfo))"

definition DownloadMetadata ::
    "int \<Rightarrow> magnet_link \<Rightarrow> peer_state \<Rightarrow> ((metadata_error + torrent_info) \<times> peer_state) option" where
  "DownloadMetadata maxAlloc magnet p =
     (case ExtensionHandshake p of
        None \<Rightarrow> None
      | Some (Inl e, p) \<Rightarrow> Some (Inl (ExtensionFailed e), p)
      | Some (Inr extResp, p) \<Rightarrow>
          (let size = MetadataSize extResp
           in if UtMetadataID extResp = 0 then Some (Inl NoUtMetadata, p)
              else if size = 0 then Some (Inl ZeroMetadataSize, p)
              else (let numPieces = go_div (wrap64 (size + MetadataPieceSize - 1)) MetadataPieceSize
                    in if size < 0 \<or> maxAlloc < size then None
                       else (case request_pieces (word_of_int (UtMetadataID extResp)) (nat numPieces) 0 [] p of
                               None \<Rightarrow> None
                             | Some (Inl e, p) \<Rightarrow> Some (Inl e, p)
                             | Some (Inr metadata, p) \<Rightarrow>
                                 Some (parse_metadata magnet (if size < int (length metadata) then take (nat size) metadata else metadata), p)))))"

section \<open>A peer that has the metadata\<close>

definition chunk :: "bytes \<Rightarrow> nat \<Rightarrow> bytes" where
  "chunk md k = take 16384 (drop (16384 * k) md)"

definition data_dict :: "bytes \<Rightarrow> nat \<Rightarrow> bval" where
  "data_dict md k = BDict [(ascii ''msg_type'', BInt 1), (ascii ''piece'', BInt (int k)), (ascii ''total_size'', BInt (int (length md)))]"

text \<open>The payloads of the peer's extension handshake and of its data messages.\<close>

definition ext_dict :: "byte \<Rightarrow> bytes \<Rightarrow> bval" where
  "ext_dict x md = BDict [(ascii ''m'', BDict [(ascii ''ut_metadata'', BInt (uint x))]), (ascii ''metadata_size'', BInt (int (length md)))]"

definition encoded :: "bval \<Rightarrow> bytes" where
  "encoded v = (case Encode v of Inr b \<Rightarrow> b)"

definition metadata_replies :: "byte \<Rightarrow> bytes \<Rightarrow> (byte \<times> bytes) list" where
  "metadata_replies x md =
     (20, 0 # encoded (ext_dict x md)) # map (\<lambda>k. (20, 1 # encoded (data_dict md k) @ chunk md k)) [0..<(length md + 16383) div 16384]"

lemma concat_chunks: "concat (map (chunk md) [0..<n]) = take (16384 * n) md"
  by (induction n) (simp_all add: chunk_def take_add [symmetric] add.commute)

lemma sorted_keys [simp]:
  "sorted_dict [(ascii ''msg_type'', a), (ascii ''piece'', b), (ascii ''total_size'', c)]"
  "sorted_dict [(ascii ''m'', a), (ascii ''metadata_size'', b)]" "sorted_dict [(ascii ''ut_metadata'', a)]"
  by (simp_all add: sorted_dict_Cons, simp_all add: ascii_def)

lemma replies_ok:
  assumes "int (length md) < 2 ^ 62" "int k < 2 ^ 62"
  shows "wf_bval (data_dict md k) \<and> norm (data_dict md k) = data_dict md k \<and> height (data_dict md k) \<le> maxDecodeDepth"
    and "wf_bval (ext_dict x md) \<and> norm (ext_dict x md) = ext_dict x md \<and> height (ext_dict x md) \<le> maxDecodeDepth"
proof -
  have x: "0 \<le> uint x" "uint x < 256" using unsigned_less [of x, where 'a = int] by simp_all
  have i: "in_int64 n" if "0 \<le> n" "n < 2 ^ 62" for n using that by (simp add: in_int64_def int64_min_def int64_max_def)
  have "uint x < 2 ^ 62" using x(2) by (rule less_trans) simp
  then have "in_int64 (uint x)" "in_int64 (int (length md))" "in_int64 (int k)"
    using i x(1) assms by simp_all
  then show "wf_bval (data_dict md k) \<and> norm (data_dict md k) = data_dict md k \<and> height (data_dict md k) \<le> maxDecodeDepth"
    "wf_bval (ext_dict x md) \<and> norm (ext_dict x md) = ext_dict x md \<and> height (ext_dict x md) \<le> maxDecodeDepth"
    by (simp_all add: data_dict_def ext_dict_def small_int64 maxDecodeDepth_def)
qed

lemma encoded_reads:
  assumes "wf_bval v \<and> norm v = v \<and> height v \<le> maxDecodeDepth"
  shows "Decode (encoded v) = Inr v" "DecodeAt (encoded v @ rest) 0 = Inr (v, length (encoded v))"
proof -
  obtain b where b: "Encode v = Inr b" "Decode b = Inr (norm v)" "\<And>rest. DecodeAt (b @ rest) 0 = Inr (norm v, length b)"
    using Encode_then_Decode assms by blast
  then have "encoded v = b" by (simp add: encoded_def)
  then show "Decode (encoded v) = Inr v" "DecodeAt (encoded v @ rest) 0 = Inr (v, length (encoded v))" using b assms by auto
qed

lemma key_neq [simp]:
  "ascii ''msg_type'' \<noteq> ascii ''piece''" "ascii ''msg_type'' \<noteq> ascii ''total_size''" "ascii ''piece'' \<noteq> ascii ''total_size''"
  "ascii ''m'' \<noteq> ascii ''metadata_size''" 
  by (simp_all add: ascii_def)

lemma ParseMetadataPiece_data:
  assumes "int (length md) < 2 ^ 62" "int k < 2 ^ 62"
  shows "ParseMetadataPiece (1 # encoded (data_dict md k) @ chunk md k)
    = Inr \<lparr>mp_Piece = int k, mp_TotalSize = int (length md), mp_Data = chunk md k\<rparr>"
proof -
  note r = encoded_reads [OF replies_ok(1) [OF assms]]
  have "encoded (data_dict md k) \<noteq> []" using r(1) by (auto simp: Decode_def decodeAtDepth.simps data_dict_def)
  then show ?thesis using r(2) [of "chunk md k"]
    by (auto simp: ParseMetadataPiece_def data_dict_def go_int_def neq_Nil_conv)
qed

lemma parse_ext_reply:
  assumes "int (length md) < 2 ^ 62"
  shows "\<exists>r. parseExtensionHandshake (0 # encoded (ext_dict x md)) = Some (Inr r) \<and> MetadataSize r = int (length md) \<and> UtMetadataID r = uint x"
  using encoded_reads(1) [OF replies_ok(2) [OF assms, of 0]]
  by (simp add: parseExtensionHandshake_def ext_dict_def int_entries_def int_at_def List.map_filter_def)

section \<open>Sizes\<close>

lemma itoa_nat_length: "n < 10 ^ Suc k \<Longrightarrow> length (itoa_nat n) \<le> Suc k"
proof (induction k arbitrary: n)
  case (Suc k)
  then show ?case by (cases "n < 10") (simp_all add: itoa_nat.simps [of n])
qed (simp add: itoa_nat.simps)

lemma itoa_length: "0 \<le> n \<Longrightarrow> n < 2 ^ 62 \<Longrightarrow> length (itoa n) \<le> 19"
  using itoa_nat_length [of "nat n" 18] by (simp add: itoa_def nat_less_iff)

lemma reply_keys:
  "encodeString (ascii ''msg_type'') = ascii ''8:msg_type''" "encodeString (ascii ''piece'') = ascii ''5:piece''"
  "encodeString (ascii ''total_size'') = ascii ''10:total_size''" "encodeString (ascii ''m'') = ascii ''1:m''"
  "encodeString (ascii ''metadata_size'') = ascii ''13:metadata_size''" "encodeString (ascii ''ut_metadata'') = ascii ''11:ut_metadata''"
  by (simp_all add: encodeString_def itoa_def itoa_nat.simps digit_byte_def ascii_def)

lemma encoded_length:
  assumes "int (length md) < 2 ^ 62" "int k < 2 ^ 62"
  shows "length (encoded (data_dict md k)) \<le> 200" "length (encoded (ext_dict x md)) \<le> 200"
proof -
  have x: "0 \<le> uint x" "uint x < 256" using unsigned_less [of x, where 'a = int] by simp_all
  have "uint x < 2 ^ 62" using x(2) by (rule less_trans) simp
  then have l: "length (itoa (uint x)) \<le> 19" "length (itoa (int k)) \<le> 19" "length (itoa (int (length md))) \<le> 19" "length (itoa 1) \<le> 19"
    using itoa_length x(1) assms by simp_all
  show "length (encoded (data_dict md k)) \<le> 200"
    unfolding encoded_def data_dict_def Encode_sorted [OF sorted_keys(1)] using l by (simp add: encode_entry_def reply_keys encodeInt_def)
  show "length (encoded (ext_dict x md)) \<le> 200"
    unfolding encoded_def ext_dict_def Encode_sorted [OF sorted_keys(2)]
    using l by (simp add: encode_entry_def reply_keys encodeInt_def Encode_sorted [OF sorted_keys(3)] del: Encode.simps(5))
qed

section \<open>Receiving\<close>

lemma metadata_request_small: "int i < 2 ^ 62 \<Longrightarrow> small (metadata_request x (int i))"
  using itoa_length [of "int i"] by (simp add: small_def metadata_request_def)

lemma SendMessage_reply:
  assumes "small payload" "small b" "c_in (p_Conn p) = the (frame i b) @ rest" "0 < c_writes (p_Conn p)"
  shows "\<exists>msg p'. SendMessage 20 payload p = Some (Inr msg, p') \<and> m_ID msg = i \<and> m_Payload msg = b
    \<and> c_in (p_Conn p') = rest \<and> c_writes (p_Conn p') = c_writes (p_Conn p) - 1"
proof -
  obtain f where f: "frame i b = Some f" using frame_small [OF assms(2)] by blast
  let ?p = "p\<lparr>p_Conn := p_Conn p\<lparr>c_out := c_out (p_Conn p) @ [the (frame 20 payload)], c_writes := c_writes (p_Conn p) - 1\<rparr>\<rparr>"
  have "write_bytes (the (frame 20 payload)) p = (True, ?p)" using assms(4) by (simp add: write_bytes_def conn_write_def)
  moreover have "c_in (p_Conn ?p) = f @ rest" using assms(3) f by simp
  ultimately show ?thesis using read_message_frame [OF f assms(2), of ?p rest] by (simp add: SendMessage_def frame_small [OF assms(1)])
qed

lemma request_pieces_receives:
  assumes "int (length md) < 2 ^ 62" "int (i + n) < 2 ^ 62" "n \<le> c_writes (p_Conn p)"
    and "c_in (p_Conn p) = stream (map (\<lambda>k. (20, 1 # encoded (data_dict md k) @ chunk md k)) [i..<i + n]) @ rest"
  shows "\<exists>p'. request_pieces x n (int i) acc p = Some (Inr (acc @ concat (map (chunk md) [i..<i + n])), p')
    \<and> c_in (p_Conn p') = rest"
  using assms
proof (induction n arbitrary: i acc p)
  case (Suc n)
  let ?b = "\<lambda>k. 1 # encoded (data_dict md k) @ chunk md k"
  have i: "int i < 2 ^ 62" using Suc.prems(2) by simp
  have "length (?b i) \<le> 20000" using encoded_length(1) [OF Suc.prems(1) i] by (simp add: chunk_def)
  then have "small (?b i)" by (simp add: small_def)
  have u: "[i..<i + Suc n] = i # [Suc i..<Suc i + n]" by (simp add: upt_conv_Cons)
  have inp: "c_in (p_Conn p) = the (frame 20 (?b i)) @ (stream (map (\<lambda>k. (20, ?b k)) [Suc i..<Suc i + n]) @ rest)"
    using Suc.prems(4) unfolding u by (simp add: stream_def)
  have "0 < c_writes (p_Conn p)" using Suc.prems(3) by simp
  from SendMessage_reply [OF metadata_request_small [OF i] \<open>small (?b i)\<close> inp this]
  obtain msg p' where m: "SendMessage 20 (metadata_request x (int i)) p = Some (Inr msg, p')" "m_ID msg = 20" "m_Payload msg = ?b i"
      "c_in (p_Conn p') = stream (map (\<lambda>k. (20, ?b k)) [Suc i..<Suc i + n]) @ rest" "c_writes (p_Conn p') = c_writes (p_Conn p) - 1"
    by blast
  have "RequestMetadataPiece x (int i) p = Some (Inr \<lparr>mp_Piece = int i, mp_TotalSize = int (length md), mp_Data = chunk md i\<rparr>, p')"
    by (simp add: RequestMetadataPiece_def m ParseMetadataPiece_data [OF Suc.prems(1) i])
  then have step: "request_pieces x (Suc n) (int i) acc p = request_pieces x n (int (Suc i)) (acc @ chunk md i) p'" by (simp add: add.commute)
  have "n \<le> c_writes (p_Conn p')" "int (Suc i + n) < 2 ^ 62" using Suc.prems(2,3) m(5) by simp_all
  then obtain p2 where "request_pieces x n (int (Suc i)) (acc @ chunk md i) p'
        = Some (Inr ((acc @ chunk md i) @ concat (map (chunk md) [Suc i..<Suc i + n])), p2)" "c_in (p_Conn p2) = rest"
    using Suc.IH [OF Suc.prems(1) _ _ m(4)] by blast
  then show ?case unfolding u step by (simp del: upt_Suc)
qed (simp add: stream_def)

lemma num_pieces:
  assumes "int n < 2 ^ 62"
  shows "nat (go_div (wrap64 (int n + MetadataPieceSize - 1)) MetadataPieceSize) = (n + 16383) div 16384"
proof -
  have e: "int n + MetadataPieceSize - 1 = int (n + 16383)" by (simp add: MetadataPieceSize_def)
  have w: "wrap64 (int (n + 16383)) = int (n + 16383)"
    using assms by (intro wrap64_id) (simp add: in_int64_def int64_min_def int64_max_def)
  show ?thesis unfolding e w unfolding MetadataPieceSize_def by (simp add: go_div_nonneg nat_div_distrib nat_add_distrib flip: of_nat_add)
qed

lemma metadata_arrives:
  assumes "md \<noteq> []" "int (length md) < 2 ^ 62" "int (length md) \<le> maxAlloc" "x \<noteq> 0"
    and "c_in (p_Conn p) = stream (metadata_replies x md) @ rest" "length (metadata_replies x md) \<le> c_writes (p_Conn p)"
  shows "\<exists>p'. DownloadMetadata maxAlloc magnet p = Some (parse_metadata magnet md, p') \<and> c_in (p_Conn p') = rest"
proof -
  let ?n = "(length md + 16383) div 16384" let ?h = "0 # encoded (ext_dict x md)"
  let ?s = "map (\<lambda>k. (20, 1 # encoded (data_dict md k) @ chunk md k)) [0..<?n]"
  have h: "small ?h" using encoded_length(2) [OF assms(2), of 0 x] by (simp add: small_def)
  have e: "small extension_payload" by (simp add: small_def extension_payload_def)
  have "c_in (p_Conn p) = the (frame 20 ?h) @ (stream ?s @ rest)" using assms(5) by (simp add: metadata_replies_def stream_def)
  from SendMessage_reply [OF e h this] obtain msg p1 where m: "SendMessage 20 extension_payload p = Some (Inr msg, p1)" "m_ID msg = 20" "m_Payload msg = ?h"
      "c_in (p_Conn p1) = stream ?s @ rest" "c_writes (p_Conn p1) = c_writes (p_Conn p) - 1"
    using assms(6) by (fastforce simp: metadata_replies_def)
  obtain r where r: "ExtensionHandshake p = Some (Inr r, p1)" "MetadataSize r = int (length md)" "UtMetadataID r = uint x"
    using parse_ext_reply [OF assms(2), of x] by (auto simp: ExtensionHandshake_def m)
  have n: "int (0 + ?n) < 2 ^ 62" using assms(2) by simp
  have w: "?n \<le> c_writes (p_Conn p1)" using assms(6) m(5) by (simp add: metadata_replies_def)
  obtain p2 where q: "request_pieces x ?n 0 [] p1 = Some (Inr (concat (map (chunk md) [0..<?n])), p2)" "c_in (p_Conn p2) = rest"
    using request_pieces_receives [OF assms(2) n w, of rest x "[]"] m(4) by auto
  have "length md \<le> 16384 * ?n" by simp
  then have all: "concat (map (chunk md) [0..<?n]) = md" by (simp add: concat_chunks)
  show ?thesis
    using assms(1,3,4) q unfolding all
    by (simp add: DownloadMetadata_def r num_pieces [OF assms(2)] uint_0_iff)
qed

lemma DownloadMetadata_checked:
  assumes "DownloadMetadata maxAlloc magnet q = Some (Inr info, q')"
  shows "\<exists>md. parse_metadata magnet md = Inr info"
  using assms by (auto simp: DownloadMetadata_def Let_def split: option.splits sum.splits prod.splits if_splits)

text \<open>C36: Metadata of a magnet link. A peer that answers in order with the pieces of the info dictionary the link
  names gives the download exactly the info of that dictionary; and whatever bytes any other peer sends, an info that the
  download from it returns was read from a dictionary with the same SHA-1 hash, and is the same info when the bytes are the same.\<close>

theorem DownloadMetadata_spec:
  assumes "info_ok_vals i" "i_Files i \<noteq> [] \<longrightarrow> i_Length i = sum_lengths (i_Files i)" "i_InfoHash i = replicate 20 0"
    and "mg_InfoHash magnet = getInfoHash i"
    and "int (length (serializeInfo i)) < 2 ^ 62" "int (length (serializeInfo i)) \<le> maxAlloc" "x \<noteq> 0"
    and "c_in (p_Conn p) = stream (metadata_replies x (serializeInfo i)) @ rest"
    and "length (metadata_replies x (serializeInfo i)) \<le> c_writes (p_Conn p)"
  shows "(\<exists>p'. DownloadMetadata maxAlloc magnet p = Some (Inr i, p') \<and> c_in (p_Conn p') = rest)
    \<and> (DownloadMetadata maxAlloc magnet q = Some (Inr info, q') \<longrightarrow>
        (\<exists>md d. HashPiece md = getInfoHash i \<and> Decode md = Inr (BDict d) \<and> NewInfo d = Inr info \<and> (md = serializeInfo i \<longrightarrow> info = i)))"
proof -
  let ?md = "serializeInfo i"
  have d: "Decode ?md = Inr (info_dict i)"
    using Encode_then_Decode [of "info_dict i"] info_dict_ok [OF assms(1)] Encode_info [of i]
    by (force simp: decoded_def maxDecodeDepth_def)
  have di: "info_dict i = BDict (the_dict (info_dict i))" by (simp add: info_dict_def the_dict_def)
  have ok: "parse_metadata magnet ?md = Inr i"
    unfolding parse_metadata_def using d NewInfo_info_dict [OF assms(1-3)] assms(4) di
    by (auto simp: getInfoHash_def HashPiece_def split: bval.splits)
  have ne: "?md \<noteq> []" using d by (auto simp: Decode_def decodeAtDepth.simps info_dict_def)
  have 1: "\<exists>p'. DownloadMetadata maxAlloc magnet p = Some (Inr i, p') \<and> c_in (p_Conn p') = rest"
    using metadata_arrives [OF ne assms(5-9), of magnet] ok by simp
  have 2: "\<exists>md d. HashPiece md = getInfoHash i \<and> Decode md = Inr (BDict d) \<and> NewInfo d = Inr info \<and> (md = ?md \<longrightarrow> info = i)"
    if r: "DownloadMetadata maxAlloc magnet q = Some (Inr info, q')"
  proof -
    obtain md where m: "parse_metadata magnet md = Inr info" using DownloadMetadata_checked [OF r] by blast
    then obtain d where "HashPiece md = getInfoHash i" "Decode md = Inr (BDict d)" "NewInfo d = Inr info"
      using assms(4) by (auto simp: parse_metadata_def split: if_splits sum.splits bval.splits)
    moreover have "md = ?md \<longrightarrow> info = i" using m ok by auto
    ultimately show ?thesis by blast
  qed
  show ?thesis using 1 2 by blast
qed

theorem DownloadMetadata_spec_witness:
  "\<exists>i p p'. i_Length i = 5 \<and> DownloadMetadata (2 ^ 48) \<lparr>mg_TrackerURLs = [], mg_InfoHash = getInfoHash i, mg_HexInfoHash = []\<rparr> p
    = Some (Inr i, p')"
proof -
  let ?i = "\<lparr>i_Length = 5, i_Name = ascii ''a'', i_PieceLength = 4, i_Pieces = [255], i_InfoHash = replicate 20 0, i_Files = []\<rparr>"
  let ?r = "metadata_replies 1 (serializeInfo ?i)"
  let ?p = "(sample_peer [])\<lparr>p_Conn := \<lparr>c_in = stream ?r, c_out = [], c_writes = length ?r\<rparr>\<rparr>"
  let ?m = "\<lparr>mg_TrackerURLs = [], mg_InfoHash = getInfoHash ?i, mg_HexInfoHash = []\<rparr>"
  have "length (serializeInfo ?i) < 100"
    by (simp add: serializeInfo_def counted_string_def IsSingleFile_def itoa_def itoa_nat.simps)
  moreover have u: "utf8_valid (ascii ''a'')" by (rule utf8_valid_ascii) (simp add: ascii_def)
  moreover have "info_ok_vals ?i" by (simp add: info_ok_vals_def small_int64 u utf8_lead_def)
  ultimately have "\<exists>p'. DownloadMetadata (2 ^ 48) ?m ?p = Some (Inr ?i, p')"
    using DownloadMetadata_spec [of ?i ?m "2 ^ 48" 1 ?p "[]" ?p ?i ?p] by auto
  then show ?thesis by (intro exI [of _ ?i]) auto
qed

end
