(* ===== verification/Tracker.thy ===== *)
theory Tracker
  imports Compact Metainfo
begin

text \<open>
  The tracker clients of \<open>internal/tracker\<close>: UDP (\<open>udp.go\<close>), HTTP (\<open>http.go\<close>), the list of trackers
  tried in turn (\<open>multi.go\<close>) and what they share (\<open>tracker.go\<close>, \<open>constants.go\<close>, \<open>errors.go\<close>).
  Sockets are scripts of events; random numbers and the address parser of the standard library are arguments.
\<close>

section \<open>Requests and responses\<close>

record announce_request =
  a_InfoHash :: bytes
  a_PeerID :: bytes
  a_IP :: u32
  a_Port :: u16
  a_Uploaded :: u64
  a_Downloaded :: u64
  a_Left :: u64
  a_Event :: u32

text \<open>The interval is a duration in nanoseconds.\<close>

record announce_response =
  r_Interval :: int
  r_Peers :: "addrport list"

record file_stats =
  Seeders :: u32
  Completed :: u32
  Leechers :: u32

definition Second :: int where "Second = 1000000000"
definition UDPProtocolID :: u64 where "UDPProtocolID = 0x41727101980"
definition ActionConnect :: u32 where "ActionConnect = 0"
definition ActionAnnounce :: u32 where "ActionAnnounce = 1"
definition ActionScrape :: u32 where "ActionScrape = 2"
definition ActionError :: u32 where "ActionError = 3"
definition EventNone :: u32 where "EventNone = 0"
definition EventCompleted :: u32 where "EventCompleted = 1"
definition EventStarted :: u32 where "EventStarted = 2"
definition EventStopped :: u32 where "EventStopped = 3"

definition EventStrings :: "u32 \<Rightarrow> bytes option" where
  "EventStrings e =
     (if e = EventCompleted then Some (ascii ''completed'')
      else if e = EventStarted then Some (ascii ''started'')
      else if e = EventStopped then Some (ascii ''stopped'') else None)"

text \<open>\<open>TrackerError\<close> is a failure the tracker reports; the other constructors up to the transport are the reasons of a \<open>ResponseError\<close>.\<close>

datatype tracker_error = TrackerError bytes | ResponseShort nat | UnexpectedAction u32 | TransactionMismatch u32
  | ResponseDecode dec_error | ResponseNotDict | NoInterval | PeerNotDict nat | PeerNoIP nat | PeerNoPort nat | PeerBadIP nat
  | PeersType | NoFiles | HashLength nat | StatsNotDict | NoAnnounceInURL
  | SendFailed | ReceiveFailed | ErrMaxRetriesExceeded | ReconnectFailed tracker_error | HTTPFailed
  | ErrUnsupportedScheme | URLInvalid | DialFailed | NoValidTrackers nat | AllTrackersFailed "tracker_error option"

text \<open>Six bytes for each peer; the slice expressions panic when the data ends before.\<close>

fun unmarshalPeerAddresses :: "nat \<Rightarrow> bytes \<Rightarrow> addrport list option" where
  "unmarshalPeerAddresses 0 data = Some []"
| "unmarshalPeerAddresses (Suc n) data =
     (if length data < 6 then None
      else map_option (\<lambda>peers. the (of_endpoint6 (take 6 data)) # peers) (unmarshalPeerAddresses n (drop 6 data)))"

section \<open>The UDP messages\<close>

definition u32_at :: "nat \<Rightarrow> bytes \<Rightarrow> u32" where
  "u32_at k data = the (get32 (drop k data))"

definition marshalConnectRequest :: "u32 \<Rightarrow> bytes" where
  "marshalConnectRequest transactionID = be64 UDPProtocolID @ be32 ActionConnect @ be32 transactionID"

definition unmarshalConnectResponse :: "u32 \<Rightarrow> bytes \<Rightarrow> tracker_error + u64" where
  "unmarshalConnectResponse reqTransactionID resp =
     (if length resp < 16 then Inl (ResponseShort (length resp))
      else let action = u32_at 0 resp
           in if action = ActionError \<and> length resp > 8 then Inl (TrackerError (drop 8 resp))
              else if action \<noteq> ActionConnect then Inl (UnexpectedAction action)
              else let transactionID = u32_at 4 resp
                   in if transactionID \<noteq> reqTransactionID then Inl (TransactionMismatch transactionID)
                      else Inr (the (get64 (drop 8 resp))))"

definition marshalAnnounceRequest :: "u64 \<Rightarrow> announce_request \<Rightarrow> u32 \<Rightarrow> u32 \<Rightarrow> u32 \<Rightarrow> bytes" where
  "marshalAnnounceRequest connectionID req key numWant transactionID =
     be64 connectionID @ be32 ActionAnnounce @ be32 transactionID @ a_InfoHash req @ a_PeerID req
       @ be64 (a_Downloaded req) @ be64 (a_Left req) @ be64 (a_Uploaded req) @ be32 (a_Event req) @ be32 (a_IP req)
       @ be32 key @ be32 numWant @ be16 (a_Port req)"

definition unmarshalUDPAnnounceResponse :: "u32 \<Rightarrow> bytes \<Rightarrow> (tracker_error + announce_response) option" where
  "unmarshalUDPAnnounceResponse reqTransactionID data =
     (if length data < 8 then Some (Inl (ResponseShort (length data)))
      else let action = u32_at 0 data
           in if action = ActionError \<and> length data > 8 then Some (Inl (TrackerError (drop 8 data)))
              else if action \<noteq> ActionAnnounce then Some (Inl (UnexpectedAction action))
              else if length data < 20 then Some (Inl (ResponseShort (length data)))
              else let transactionID = u32_at 4 data
                   in if transactionID \<noteq> reqTransactionID then Some (Inl (TransactionMismatch transactionID))
                      else let leechers = u32_at 12 data; seeders = u32_at 16 data
                           in map_option (\<lambda>peers. Inr \<lparr>r_Interval = uint (u32_at 8 data) * Second, r_Peers = peers\<rparr>)
                                (unmarshalPeerAddresses (unat (seeders + leechers)) (drop 20 data)))"

definition marshalUDPScrapeRequest :: "u64 \<Rightarrow> bytes list \<Rightarrow> u32 \<Rightarrow> bytes" where
  "marshalUDPScrapeRequest connectionID infoHashes transactionID =
     be64 connectionID @ be32 ActionScrape @ be32 transactionID @ concat infoHashes"

text \<open>The loop over the hashes, as long as twelve more bytes are there; a repeated hash overwrites.\<close>

fun scrape_stats :: "bytes list \<Rightarrow> bytes \<Rightarrow> (bytes, file_stats) dict \<Rightarrow> (bytes, file_stats) dict" where
  "scrape_stats [] data sf = sf"
| "scrape_stats (h # hs) data sf =
     (if length data < 12 then sf
      else scrape_stats hs (drop 12 data)
             (dict_put h \<lparr>Seeders = u32_at 0 data, Completed = u32_at 4 data, Leechers = u32_at 8 data\<rparr> sf))"

definition unmarshalUDPScrapeResponse :: "u32 \<Rightarrow> bytes list \<Rightarrow> bytes \<Rightarrow> tracker_error + (bytes, file_stats) dict" where
  "unmarshalUDPScrapeResponse reqTransactionID infoHashes data =
     (if length data < 8 then Inl (ResponseShort (length data))
      else let action = u32_at 0 data
           in if action = ActionError \<and> length data > 8 then Inl (TrackerError (drop 8 data))
              else if action \<noteq> ActionScrape then Inl (UnexpectedAction action)
              else let transactionID = u32_at 4 data
                   in if transactionID \<noteq> reqTransactionID then Inl (TransactionMismatch transactionID)
                      else Inr (scrape_stats infoHashes (drop 8 data) []))"

section \<open>The UDP client\<close>

text \<open>
  What happens to one attempt: the write (or setting the deadline) fails, the deadline passes, the
  read fails, or a datagram arrives after some seconds. Times are in seconds; \<open>u_now\<close> is the clock.
  \<open>u_draws\<close> counts the random numbers drawn.
\<close>

datatype udp_event = WriteFails | DeadlinePasses | ReadFails | Arrives nat bytes

record udp_tracker =
  u_connectionID :: u64
  u_connectedAt :: "int option"
  u_n :: nat
  u_now :: int
  u_draws :: nat
  u_sent :: "bytes list"

definition connectionExpired :: "udp_tracker \<Rightarrow> bool" where
  "connectionExpired t = (case u_connectedAt t of None \<Rightarrow> False | Some at \<Rightarrow> u_now t - at \<ge> 60)"

definition getDeadline :: "udp_tracker \<Rightarrow> int" where
  "getDeadline t = 15 * 2 ^ u_n t"

text \<open>One pass of the loop body from the write on; \<open>None\<close> is \<open>continue\<close>.\<close>

definition attempt :: "bytes \<Rightarrow> udp_event \<Rightarrow> udp_tracker \<Rightarrow> (tracker_error + bytes) option \<times> udp_tracker" where
  "attempt data ev t =
     (case ev of
        WriteFails \<Rightarrow> (Some (Inl SendFailed), t)
      | DeadlinePasses \<Rightarrow>
          (None, t\<lparr>u_sent := u_sent t @ [data], u_now := u_now t + getDeadline t, u_n := u_n t + 1\<rparr>)
      | ReadFails \<Rightarrow> (Some (Inl ReceiveFailed), t\<lparr>u_sent := u_sent t @ [data]\<rparr>)
      | Arrives delay resp \<Rightarrow>
          (Some (Inr (take 4096 resp)), t\<lparr>u_sent := u_sent t @ [data], u_now := u_now t + min (int delay) (getDeadline t), u_n := 0\<rparr>))"

text \<open>A call that has used up the events is still waiting.\<close>

datatype 'a run = Waiting | Panics | Done (run_result: 'a)

text \<open>The loop with \<open>connect = true\<close>, where the expiry is not looked at.\<close>

fun send_connect :: "bytes \<Rightarrow> udp_event list \<Rightarrow> udp_tracker \<Rightarrow> ((tracker_error + bytes) \<times> udp_event list \<times> udp_tracker) run" where
  "send_connect data evs t =
     (if u_n t > 8 then Done (Inl ErrMaxRetriesExceeded, evs, t)
      else case evs of
             [] \<Rightarrow> Waiting
           | ev # evs \<Rightarrow>
               (case attempt data ev t of
                  (Some r, t) \<Rightarrow> Done (r, evs, t)
                | (None, t) \<Rightarrow> send_connect data evs t))"

declare send_connect.simps [simp del]

definition connect :: "(nat \<Rightarrow> u32) \<Rightarrow> udp_event list \<Rightarrow> udp_tracker \<Rightarrow> ((tracker_error + u64) \<times> udp_event list \<times> udp_tracker) run" where
  "connect rand evs t =
     (let transactionID = rand (u_draws t); t = t\<lparr>u_draws := u_draws t + 1\<rparr>
      in case send_connect (marshalConnectRequest transactionID) evs t of
           Waiting \<Rightarrow> Waiting
         | Panics \<Rightarrow> Panics
         | Done (Inl e, evs, t) \<Rightarrow> Done (Inl e, evs, t)
         | Done (Inr respBytes, evs, t) \<Rightarrow>
             (case unmarshalConnectResponse transactionID respBytes of
                Inl e \<Rightarrow> Done (Inl e, evs, t)
              | Inr connectionID \<Rightarrow>
                  Done (Inr connectionID, evs, t\<lparr>u_connectionID := connectionID, u_connectedAt := Some (u_now t)\<rparr>)))"

lemma send_connect_events:
  "send_connect data evs t = Done (r, evs', t') \<Longrightarrow> length evs' \<le> length evs \<and> (\<forall>b. r = Inr b \<longrightarrow> length evs' < length evs)"
proof (induction evs arbitrary: t)
  case Nil
  then show ?case by (auto simp: send_connect.simps [of data "[]" t] split: if_splits)
next
  case (Cons ev evs)
  obtain o1 t1 where a: "attempt data ev t = (o1, t1)" by fastforce
  show ?case using Cons.prems
    by (cases o1) (auto simp: send_connect.simps [of data "ev # evs" t] a split: if_splits dest!: Cons.IH)
qed

lemma connect_events: "connect rand evs t = Done (Inr c, evs', t') \<Longrightarrow> length evs' < length evs"
  by (auto simp: connect_def Let_def split: run.splits sum.splits prod.splits dest!: send_connect_events)

text \<open>
  The loop with \<open>connect = false\<close>: when the connection identifier has expired, a new one is asked for
  first. The datagram is the one the caller has built.
\<close>

function sendWithDeadline ::
    "(nat \<Rightarrow> u32) \<Rightarrow> bytes \<Rightarrow> udp_event list \<Rightarrow> udp_tracker \<Rightarrow> ((tracker_error + bytes) \<times> udp_event list \<times> udp_tracker) run" where
  "sendWithDeadline rand data evs t =
     (if u_n t > 8 then Done (Inl ErrMaxRetriesExceeded, evs, t)
      else if connectionExpired t
      then (case connect rand evs t of
              Waiting \<Rightarrow> Waiting
            | Panics \<Rightarrow> Panics
            | Done (Inl e, evs', t') \<Rightarrow> Done (Inl (ReconnectFailed e), evs', t')
            | Done (Inr c, evs', t') \<Rightarrow> sendWithDeadline rand data evs' t')
      else (case evs of
              [] \<Rightarrow> Waiting
            | ev # evs' \<Rightarrow>
                (case attempt data ev t of
                   (Some r, t') \<Rightarrow> Done (r, evs', t')
                 | (None, t') \<Rightarrow> sendWithDeadline rand data evs' t')))"
  by pat_completeness auto

termination sendWithDeadline
  by (relation "measure (\<lambda>(rand, data, evs, t). length evs)") (auto dest: connect_events)

declare sendWithDeadline.simps [simp del]

definition newUDPTracker :: "(nat \<Rightarrow> u32) \<Rightarrow> bool \<Rightarrow> int \<Rightarrow> udp_event list \<Rightarrow> ((tracker_error + udp_tracker) \<times> udp_event list) run" where
  "newUDPTracker rand dialled now evs =
     (if \<not> dialled then Done (Inl DialFailed, evs)
      else case connect rand evs \<lparr>u_connectionID = 0, u_connectedAt = None, u_n = 0, u_now = now, u_draws = 0, u_sent = []\<rparr> of
             Waiting \<Rightarrow> Waiting
           | Panics \<Rightarrow> Panics
           | Done (Inl e, evs, t) \<Rightarrow> Done (Inl e, evs)
           | Done (Inr c, evs, t) \<Rightarrow> Done (Inr t, evs))"

definition UDPAnnounce ::
    "(nat \<Rightarrow> u32) \<Rightarrow> announce_request \<Rightarrow> udp_event list \<Rightarrow> udp_tracker \<Rightarrow> ((tracker_error + announce_response) \<times> udp_event list \<times> udp_tracker) run" where
  "UDPAnnounce rand req evs t =
     (let transactionID = rand (u_draws t);
          reqBytes = marshalAnnounceRequest (u_connectionID t) req 0 0 transactionID
      in case sendWithDeadline rand reqBytes evs (t\<lparr>u_draws := u_draws t + 1\<rparr>) of
           Waiting \<Rightarrow> Waiting
         | Panics \<Rightarrow> Panics
         | Done (Inl e, evs, t) \<Rightarrow> Done (Inl e, evs, t)
         | Done (Inr respBytes, evs, t) \<Rightarrow>
             (case unmarshalUDPAnnounceResponse transactionID respBytes of
                None \<Rightarrow> Panics
              | Some r \<Rightarrow> Done (r, evs, t)))"

definition UDPScrape ::
    "(nat \<Rightarrow> u32) \<Rightarrow> bytes list \<Rightarrow> udp_event list \<Rightarrow> udp_tracker
      \<Rightarrow> ((tracker_error + (bytes, file_stats) dict) \<times> udp_event list \<times> udp_tracker) run" where
  "UDPScrape rand infoHashes evs t =
     (let transactionID = rand (u_draws t);
          reqBytes = marshalUDPScrapeRequest (u_connectionID t) infoHashes transactionID
      in case sendWithDeadline rand reqBytes evs (t\<lparr>u_draws := u_draws t + 1\<rparr>) of
           Waiting \<Rightarrow> Waiting
         | Panics \<Rightarrow> Panics
         | Done (Inl e, evs, t) \<Rightarrow> Done (Inl e, evs, t)
         | Done (Inr respBytes, evs, t) \<Rightarrow> Done (unmarshalUDPScrapeResponse transactionID infoHashes respBytes, evs, t))"

section \<open>The HTTP client\<close>

text \<open>Two characters of the hexadecimal form at a time; an odd length panics.\<close>

fun urlEncodeInfoHash :: "bytes \<Rightarrow> bytes option" where
  "urlEncodeInfoHash [] = Some []"
| "urlEncodeInfoHash [c] = None"
| "urlEncodeInfoHash (c # d # cs) = map_option (\<lambda>r. 0x25 # c # d # r) (urlEncodeInfoHash cs)"

text \<open>\<open>url.QueryEscape\<close>.\<close>

definition unreserved :: "byte \<Rightarrow> bool" where
  "unreserved c \<longleftrightarrow> (0x61 \<le> c \<and> c \<le> 0x7A) \<or> (0x41 \<le> c \<and> c \<le> 0x5A) \<or> (0x30 \<le> c \<and> c \<le> 0x39)
     \<or> c = 0x2D \<or> c = 0x5F \<or> c = 0x2E \<or> c = 0x7E"

definition upper_hex :: "byte \<Rightarrow> byte" where
  "upper_hex n = (if n < 10 then 0x30 + n else 0x41 + (n - 10))"

definition escape_byte :: "byte \<Rightarrow> bytes" where
  "escape_byte c =
     (if unreserved c then [c]
      else if c = 0x20 then [0x2B]
      else [0x25, upper_hex (drop_bit 4 c), upper_hex (c AND 0xF)])"

definition QueryEscape :: "bytes \<Rightarrow> bytes" where
  "QueryEscape s = concat (map escape_byte s)"

definition marshalHTTPAnnounceRequest :: "bytes \<Rightarrow> announce_request \<Rightarrow> bytes option" where
  "marshalHTTPAnnounceRequest url req =
     map_option (\<lambda>urlInfoHash.
         url @ ascii ''?info_hash='' @ urlInfoHash @ ascii ''&peer_id='' @ QueryEscape (a_PeerID req)
           @ ascii ''&port='' @ itoa (uint (a_Port req)) @ ascii ''&uploaded='' @ itoa (uint (a_Uploaded req))
           @ ascii ''&downloaded='' @ itoa (uint (a_Downloaded req)) @ ascii ''&left='' @ itoa (uint (a_Left req))
           @ ascii ''&compact=1'' @ (case EventStrings (a_Event req) of Some eventStr \<Rightarrow> ascii ''&event='' @ eventStr | None \<Rightarrow> []))
       (urlEncodeInfoHash (hex_encode (a_InfoHash req)))"

text \<open>\<open>ParseAddr\<close>: the address parser of \<open>net/netip\<close>.\<close>

fun peer_dicts :: "(bytes \<Rightarrow> addr option) \<Rightarrow> nat \<Rightarrow> bval list \<Rightarrow> tracker_error + addrport list" where
  "peer_dicts ParseAddr i [] = Inr []"
| "peer_dicts ParseAddr i (item # items) =
     (case item of
        BDict peerInfo \<Rightarrow>
          (case go_string peerInfo ''ip'' of
             None \<Rightarrow> Inl (PeerNoIP i)
           | Some ip \<Rightarrow>
               (case go_int peerInfo ''port'' of
                  None \<Rightarrow> Inl (PeerNoPort i)
                | Some port \<Rightarrow>
                    (case ParseAddr ip of
                       None \<Rightarrow> Inl (PeerBadIP i)
                     | Some a \<Rightarrow>
                         (case peer_dicts ParseAddr (i + 1) items of
                            Inl e \<Rightarrow> Inl e
                          | Inr peers \<Rightarrow> Inr (AddrPort a (word_of_int port) # peers)))))
      | _ \<Rightarrow> Inl (PeerNotDict i))"

definition unmarshalBencodedPeers :: "(bytes \<Rightarrow> addr option) \<Rightarrow> bval option \<Rightarrow> (tracker_error + addrport list) option" where
  "unmarshalBencodedPeers ParseAddr encPeers =
     (case encPeers of
        Some (BBytes p) \<Rightarrow> map_option Inr (unmarshalPeerAddresses (length p div 6) p)
      | Some (BString p) \<Rightarrow> map_option Inr (unmarshalPeerAddresses (length p div 6) p)
      | Some (BList p) \<Rightarrow> Some (peer_dicts ParseAddr 0 p)
      | _ \<Rightarrow> Some (Inl PeersType))"

definition unmarshalHTTPAnnounceResponse :: "(bytes \<Rightarrow> addr option) \<Rightarrow> bytes \<Rightarrow> (tracker_error + announce_response) option" where
  "unmarshalHTTPAnnounceResponse ParseAddr response =
     (case Decode response of
        Inl e \<Rightarrow> Some (Inl (ResponseDecode e))
      | Inr (BDict d) \<Rightarrow>
          (case go_string d ''failure reason'' of
             Some failure \<Rightarrow> Some (Inl (TrackerError failure))
           | None \<Rightarrow>
               (case go_int d ''interval'' of
                  None \<Rightarrow> Some (Inl NoInterval)
                | Some interval \<Rightarrow>
                    (case unmarshalBencodedPeers ParseAddr (map_of d (ascii ''peers'')) of
                       None \<Rightarrow> None
                     | Some (Inl e) \<Rightarrow> Some (Inl e)
                     | Some (Inr peers) \<Rightarrow> Some (Inr \<lparr>r_Interval = wrap64 (interval * Second), r_Peers = peers\<rparr>))))
      | Inr _ \<Rightarrow> Some (Inl ResponseNotDict))"

text \<open>\<open>http\<close>: the status and the body a GET of a URL gives, or an error of the transport.\<close>

definition status_text :: "nat \<Rightarrow> bytes \<Rightarrow> bytes" where
  "status_text code body = ascii ''HTTP '' @ itoa (int code) @ ascii '': '' @ body"

definition HTTPAnnounce ::
    "(bytes \<Rightarrow> (nat \<times> bytes) option) \<Rightarrow> (bytes \<Rightarrow> addr option) \<Rightarrow> announce_request \<Rightarrow> bytes \<Rightarrow> (tracker_error + announce_response) option" where
  "HTTPAnnounce http ParseAddr req url =
     (case marshalHTTPAnnounceRequest url req of
        None \<Rightarrow> None
      | Some u \<Rightarrow>
          (case http u of
             None \<Rightarrow> Some (Inl HTTPFailed)
           | Some (code, body) \<Rightarrow>
               if code \<noteq> 200 then Some (Inl (TrackerError (status_text code body)))
               else unmarshalHTTPAnnounceResponse ParseAddr body))"

text \<open>The scrape address: the part of the address from its last \<open>announce\<close> on, with that word replaced.\<close>

definition last_index :: "bytes \<Rightarrow> bytes \<Rightarrow> nat option" where
  "last_index w s = find (\<lambda>i. take (length w) (drop i s) = w) (rev [0..<length s + 1])"

definition scrape_url :: "bytes \<Rightarrow> bytes list \<Rightarrow> bytes option option" where
  "scrape_url url infoHashes =
     (case last_index (ascii ''announce'') url of
        None \<Rightarrow> Some None
      | Some announceLoc \<Rightarrow>
          map_option (\<lambda>hs. Some (butlast (take announceLoc url @ ascii ''scrape?'' @ drop (announceLoc + 8) url
              @ concat (map (\<lambda>h. ascii ''info_hash='' @ h @ ascii ''&'') hs))))
            (those (map (\<lambda>h. urlEncodeInfoHash (hex_encode h)) infoHashes)))"

definition int_or_zero :: "(bytes, bval) dict \<Rightarrow> string \<Rightarrow> u32" where
  "int_or_zero d k = (case go_int d k of Some n \<Rightarrow> word_of_int n | None \<Rightarrow> 0)"

text \<open>The map is gone through in the order of its keys; another order can only report another of the errors.\<close>

fun scrape_files :: "(bytes, bval) dict \<Rightarrow> (bytes, file_stats) dict \<Rightarrow> tracker_error + (bytes, file_stats) dict" where
  "scrape_files [] resp = Inr resp"
| "scrape_files ((k, v) # files) resp =
     (if length k \<noteq> 20 then Inl (HashLength (length k))
      else case v of
             BDict stats \<Rightarrow>
               scrape_files files (dict_put k \<lparr>Seeders = int_or_zero stats ''complete'',
                 Completed = int_or_zero stats ''downloaded'', Leechers = int_or_zero stats ''incomplete''\<rparr> resp)
           | _ \<Rightarrow> Inl StatsNotDict)"

definition unmarshalHTTPScrapeResponse :: "bytes \<Rightarrow> tracker_error + (bytes, file_stats) dict" where
  "unmarshalHTTPScrapeResponse data =
     (case Decode data of
        Inl e \<Rightarrow> Inl (ResponseDecode e)
      | Inr (BDict d) \<Rightarrow> (case go_map d ''files'' of None \<Rightarrow> Inl NoFiles | Some files \<Rightarrow> scrape_files files [])
      | Inr _ \<Rightarrow> Inl ResponseNotDict)"

definition HTTPScrape :: "(bytes \<Rightarrow> (nat \<times> bytes) option) \<Rightarrow> bytes list \<Rightarrow> bytes \<Rightarrow> (tracker_error + (bytes, file_stats) dict) option" where
  "HTTPScrape http infoHashes url =
     (case scrape_url url infoHashes of
        None \<Rightarrow> None
      | Some None \<Rightarrow> Some (Inl NoAnnounceInURL)
      | Some (Some u) \<Rightarrow>
          (case http u of
             None \<Rightarrow> Some (Inl HTTPFailed)
           | Some (code, body) \<Rightarrow>
               if code \<noteq> 200 then Some (Inl (TrackerError (status_text code body)))
               else Some (unmarshalHTTPScrapeResponse body)))"

section \<open>Trackers of either kind, and lists of them\<close>

text \<open>The events of a UDP tracker's socket and its random numbers go with it.\<close>

datatype tracker = UDPTracker "nat \<Rightarrow> u32" "udp_event list" udp_tracker | HTTPTracker bytes

record tracker_io =
  io_http :: "bytes \<Rightarrow> (nat \<times> bytes) option"
  io_ParseAddr :: "bytes \<Rightarrow> addr option"

text \<open>The interface \<open>Tracker\<close>.\<close>

definition TrackerAnnounce :: "tracker_io \<Rightarrow> announce_request \<Rightarrow> tracker \<Rightarrow> ((tracker_error + announce_response) \<times> tracker) run" where
  "TrackerAnnounce io req tr =
     (case tr of
        UDPTracker rand evs t \<Rightarrow>
          (case UDPAnnounce rand req evs t of
             Waiting \<Rightarrow> Waiting | Panics \<Rightarrow> Panics | Done (r, evs, t) \<Rightarrow> Done (r, UDPTracker rand evs t))
      | HTTPTracker url \<Rightarrow>
          (case HTTPAnnounce (io_http io) (io_ParseAddr io) req url of
             None \<Rightarrow> Panics | Some r \<Rightarrow> Done (r, HTTPTracker url)))"

definition TrackerScrape :: "tracker_io \<Rightarrow> bytes list \<Rightarrow> tracker \<Rightarrow> ((tracker_error + (bytes, file_stats) dict) \<times> tracker) run" where
  "TrackerScrape io infoHashes tr =
     (case tr of
        UDPTracker rand evs t \<Rightarrow>
          (case UDPScrape rand infoHashes evs t of
             Waiting \<Rightarrow> Waiting | Panics \<Rightarrow> Panics | Done (r, evs, t) \<Rightarrow> Done (r, UDPTracker rand evs t))
      | HTTPTracker url \<Rightarrow>
          (case HTTPScrape (io_http io) infoHashes url of
             None \<Rightarrow> Panics | Some r \<Rightarrow> Done (r, HTTPTracker url)))"

text \<open>
  \<open>parse\<close> gives the scheme and the host of an address; \<open>net\<close> tells for a host whether it resolves, the
  time, its events and random numbers. \<open>strings.ToLower\<close> on the scheme, which is ASCII.
\<close>

definition to_lower :: "bytes \<Rightarrow> bytes" where
  "to_lower = map (\<lambda>c. if 0x41 \<le> c \<and> c \<le> 0x5A then c + 0x20 else c)"

definition NewTracker ::
    "(bytes \<Rightarrow> (bytes \<times> bytes) option) \<Rightarrow> (bytes \<Rightarrow> bool \<times> int \<times> udp_event list \<times> (nat \<Rightarrow> u32)) \<Rightarrow> bytes \<Rightarrow> (tracker_error + tracker) run" where
  "NewTracker parse net trackerURL =
     (case parse trackerURL of
        None \<Rightarrow> Done (Inl URLInvalid)
      | Some (scheme, host) \<Rightarrow>
          (let proto = to_lower scheme
           in if proto = ascii ''udp''
              then (case net host of
                      (dialled, now, evs, rand) \<Rightarrow>
                        (case newUDPTracker rand dialled now evs of
                           Waiting \<Rightarrow> Waiting
                         | Panics \<Rightarrow> Panics
                         | Done (Inl e, evs) \<Rightarrow> Done (Inl e)
                         | Done (Inr t, evs) \<Rightarrow> Done (Inr (UDPTracker rand evs t))))
              else if proto = ascii ''http'' \<or> proto = ascii ''https'' then Done (Inr (HTTPTracker trackerURL))
              else Done (Inl ErrUnsupportedScheme)))"

fun make_trackers :: "(bytes \<Rightarrow> (tracker_error + 't) run) \<Rightarrow> bytes list \<Rightarrow> 't list run" where
  "make_trackers new [] = Done []"
| "make_trackers new (u # urls) =
     (case new u of
        Waiting \<Rightarrow> Waiting
      | Panics \<Rightarrow> Panics
      | Done (Inl e) \<Rightarrow> make_trackers new urls
      | Done (Inr tr) \<Rightarrow>
          (case make_trackers new urls of Waiting \<Rightarrow> Waiting | Panics \<Rightarrow> Panics | Done trs \<Rightarrow> Done (tr # trs)))"

definition NewMultiTracker :: "(bytes \<Rightarrow> (tracker_error + 't) run) \<Rightarrow> bytes list \<Rightarrow> (tracker_error + 't list) run" where
  "NewMultiTracker new urls =
     (case make_trackers new urls of
        Waiting \<Rightarrow> Waiting
      | Panics \<Rightarrow> Panics
      | Done trackers \<Rightarrow> Done (if trackers = [] then Inl (NoValidTrackers (length urls)) else Inr trackers))"

text \<open>The loop of \<open>Announce\<close> and \<open>Scrape\<close>, for the call \<open>ask\<close>; the trackers come back with their new states.\<close>

fun try_trackers :: "('t \<Rightarrow> ((tracker_error + 'r) \<times> 't) run) \<Rightarrow> 't list \<Rightarrow> tracker_error option \<Rightarrow> ((tracker_error + 'r) \<times> 't list) run" where
  "try_trackers ask [] lastErr = Done (Inl (AllTrackersFailed lastErr), [])"
| "try_trackers ask (tr # trs) lastErr =
     (case ask tr of
        Waiting \<Rightarrow> Waiting
      | Panics \<Rightarrow> Panics
      | Done (Inr resp, tr') \<Rightarrow> Done (Inr resp, tr' # trs)
      | Done (Inl e, tr') \<Rightarrow>
          (case try_trackers ask trs (Some e) of
             Waiting \<Rightarrow> Waiting | Panics \<Rightarrow> Panics | Done (r, trs') \<Rightarrow> Done (r, tr' # trs')))"

definition MultiAnnounce :: "tracker_io \<Rightarrow> announce_request \<Rightarrow> tracker list \<Rightarrow> ((tracker_error + announce_response) \<times> tracker list) run" where
  "MultiAnnounce io req trackers = try_trackers (TrackerAnnounce io req) trackers None"

definition MultiScrape :: "tracker_io \<Rightarrow> bytes list \<Rightarrow> tracker list \<Rightarrow> ((tracker_error + (bytes, file_stats) dict) \<times> tracker list) run" where
  "MultiScrape io infoHashes trackers = try_trackers (TrackerScrape io infoHashes) trackers None"

section \<open>The UDP exchange\<close>

lemma u32_at_append: "length a = k \<Longrightarrow> u32_at k (a @ be32 v @ rest) = v"
  by (simp add: u32_at_def)

lemma unmarshalPeerAddresses_iff: "unmarshalPeerAddresses n data = None \<longleftrightarrow> length data < 6 * n"
  by (induction n data rule: unmarshalPeerAddresses.induct) auto

lemma unmarshalPeerAddresses_records:
  "list_all v4_endpoint ps \<Longrightarrow> n \<le> length ps
    \<Longrightarrow> unmarshalPeerAddresses n (concat (map (\<lambda>a. the (endpoint6 a)) ps) @ rest) = Some (take n ps)"
proof (induction ps arbitrary: n)
  case (Cons p ps)
  then show ?case
    using endpoint.length_enc [of p] endpoint.dec_enc [of p] by (cases n) simp_all
qed simp

text \<open>The layouts of BEP 15, as the tracker sees them: the announce request by its offsets, and the response.\<close>

definition bep15_request :: "bytes \<Rightarrow> (u64 \<times> u32 \<times> announce_request) option" where
  "bep15_request b =
     (if length b < 98 \<or> get32 (drop 8 b) \<noteq> Some 1 then None
      else Some (the (get64 b), the (get32 (drop 12 b)),
        \<lparr>a_InfoHash = take 20 (drop 16 b), a_PeerID = take 20 (drop 36 b), a_IP = the (get32 (drop 84 b)),
         a_Port = the (get16 (drop 96 b)), a_Uploaded = the (get64 (drop 72 b)), a_Downloaded = the (get64 (drop 56 b)),
         a_Left = the (get64 (drop 64 b)), a_Event = the (get32 (drop 80 b))\<rparr>))"

definition bep15_response :: "u32 \<Rightarrow> u32 \<Rightarrow> u32 \<Rightarrow> u32 \<Rightarrow> addrport list \<Rightarrow> bytes" where
  "bep15_response transactionID interval leechers seeders ps =
     be32 1 @ be32 transactionID @ be32 interval @ be32 leechers @ be32 seeders @ concat (map (\<lambda>a. the (endpoint6 a)) ps)"

lemma bep15_request_marshal:
  assumes "length (a_InfoHash req) = 20" "length (a_PeerID req) = 20"
  shows "bep15_request (marshalAnnounceRequest c req key numWant tid) = Some (c, tid, req)"
proof -
  have "get16 (be16 v) = Some v" for v using get16_be16 [of v "[]"] by simp
  then show ?thesis using assms
    by (cases req) (simp add: bep15_request_def marshalAnnounceRequest_def ActionAnnounce_def)
qed

text \<open>C38: The UDP announce. A tracker that reads the request by the layout of BEP 15 gets the connection and transaction
  identifiers and every field. From a response in that layout that lists \<open>n\<close> peers, the client takes the interval and
  the first \<open>leechers + seeders\<close> (as a 32-bit sum) of them; but when these counts, which tell the size of the whole swarm,
  add up to more than the peers listed, it panics.\<close>

theorem udp_announce_exchange:
  assumes "length (a_InfoHash req) = 20" "length (a_PeerID req) = 20" "list_all v4_endpoint ps"
  shows "length (marshalAnnounceRequest c req key numWant tid) = 98
    \<and> bep15_request (marshalAnnounceRequest c req key numWant tid) = Some (c, tid, req)
    \<and> unmarshalUDPAnnounceResponse tid (bep15_response tid interval leechers seeders ps)
      = (if unat (seeders + leechers) \<le> length ps
         then Some (Inr \<lparr>r_Interval = uint interval * Second, r_Peers = take (unat (seeders + leechers)) ps\<rparr>) else None)
    \<and> (tid' \<noteq> tid \<longrightarrow> unmarshalUDPAnnounceResponse tid' (bep15_response tid interval leechers seeders ps) = Some (Inl (TransactionMismatch tid)))"
proof -
  let ?r = "bep15_response tid interval leechers seeders ps" and ?b = "concat (map (\<lambda>a. the (endpoint6 a)) ps)"
  have f: "u32_at 0 ?r = 1" "u32_at 4 ?r = tid" "u32_at 8 ?r = interval" "u32_at 12 ?r = leechers" "u32_at 16 ?r = seeders"
    "drop 20 ?r = ?b" "length ?r = 20 + length ?b"
    by (simp_all add: bep15_response_def u32_at_def)
  have l: "length ?b = 6 * length ps" using endpoint.length_encs [OF assms(3)] by simp
  have p: "unmarshalPeerAddresses n ?b = (if n \<le> length ps then Some (take n ps) else None)" for n
    using unmarshalPeerAddresses_records [OF assms(3), of n "[]"] unmarshalPeerAddresses_iff [of n ?b] l by simp
  have "unmarshalUDPAnnounceResponse t ?r = (if tid \<noteq> t then Some (Inl (TransactionMismatch tid))
      else map_option (\<lambda>peers. Inr \<lparr>r_Interval = uint interval * Second, r_Peers = peers\<rparr>) (unmarshalPeerAddresses (unat (seeders + leechers)) ?b))" for t
    unfolding unmarshalUDPAnnounceResponse_def f by (simp add: ActionError_def ActionAnnounce_def)
  then show ?thesis using bep15_request_marshal [OF assms(1,2)] assms(1,2) by (simp add: p) (simp add: marshalAnnounceRequest_def)
qed

theorem udp_announce_exchange_witness:
  "unmarshalUDPAnnounceResponse 7 (bep15_response 7 1800 1 2 [AddrPort (IPv4 [10, 0, 0, 1]) 6881]) = None"
  using udp_announce_exchange [of "\<lparr>a_InfoHash = replicate 20 1, a_PeerID = replicate 20 2, a_IP = 0, a_Port = 6881, a_Uploaded = 0,
      a_Downloaded = 0, a_Left = 1, a_Event = 2\<rparr>" "[AddrPort (IPv4 [10, 0, 0, 1]) 6881]" 0 0 0 7 1800 1 2 8]
  by (simp add: v4_endpoint_def)

section \<open>Retries\<close>

lemma send_connect_silent:
  assumes "u_n t + k = 9"
  shows "\<exists>t'. send_connect data (replicate k DeadlinePasses @ evs) t = Done (Inl ErrMaxRetriesExceeded, evs, t')
    \<and> u_n t' = 9 \<and> length (u_sent t') = length (u_sent t) + k \<and> u_now t' = u_now t + 15 * (2 ^ 9 - 2 ^ u_n t)"
  using assms
proof (induction k arbitrary: t)
  case 0
  then show ?case by (subst send_connect.simps) simp
next
  case (Suc k)
  let ?t = "t\<lparr>u_sent := u_sent t @ [data], u_now := u_now t + getDeadline t, u_n := u_n t + 1\<rparr>"
  have "send_connect data (replicate (Suc k) DeadlinePasses @ evs) t = send_connect data (replicate k DeadlinePasses @ evs) ?t"
    using Suc.prems by (subst send_connect.simps) (simp add: attempt_def)
  with Suc.IH [of ?t] Suc.prems show ?case by (auto simp: getDeadline_def algebra_simps)
qed

lemma sendWithDeadline_silent:
  assumes "u_n t + k = 9"
  shows "\<exists>e t'. sendWithDeadline rand data (replicate k DeadlinePasses @ evs) t = Done (Inl e, evs, t')
    \<and> u_n t' = 9 \<and> length (u_sent t') = length (u_sent t) + k \<and> u_now t' = u_now t + 15 * (2 ^ 9 - 2 ^ u_n t)"
  using assms
proof (induction k arbitrary: t)
  case 0
  then show ?case by (subst sendWithDeadline.simps) simp
next
  case (Suc k)
  show ?case
  proof (cases "connectionExpired t")
    case True
    let ?t = "t\<lparr>u_draws := u_draws t + 1\<rparr>"
    have "u_n ?t + Suc k = 9" using Suc.prems by simp
    from send_connect_silent [OF this, of "marshalConnectRequest (rand (u_draws t))" evs] obtain t' where
      c: "send_connect (marshalConnectRequest (rand (u_draws t))) (replicate (Suc k) DeadlinePasses @ evs) ?t = Done (Inl ErrMaxRetriesExceeded, evs, t')"
        "u_n t' = 9" "length (u_sent t') = length (u_sent t) + Suc k" "u_now t' = u_now t + 15 * (2 ^ 9 - 2 ^ u_n t)" by auto
    have "connect rand (replicate (Suc k) DeadlinePasses @ evs) t = Done (Inl ErrMaxRetriesExceeded, evs, t')"
      unfolding connect_def Let_def c(1) by simp
    then show ?thesis using Suc.prems True c(2-4) by (subst sendWithDeadline.simps) (simp del: replicate_Suc)
  next
    case False
    let ?t = "t\<lparr>u_sent := u_sent t @ [data], u_now := u_now t + getDeadline t, u_n := u_n t + 1\<rparr>"
    have "sendWithDeadline rand data (replicate (Suc k) DeadlinePasses @ evs) t = sendWithDeadline rand data (replicate k DeadlinePasses @ evs) ?t"
      using Suc.prems False by (subst sendWithDeadline.simps) (simp add: attempt_def)
    with Suc.IH [of ?t] Suc.prems show ?thesis by (auto simp: getDeadline_def algebra_simps)
  qed
qed

text \<open>A tracker that answers connection requests and nothing else: three deadlines, then the answer.\<close>

definition connect_reply :: "u32 \<Rightarrow> bytes" where
  "connect_reply transactionID = be32 0 @ be32 transactionID @ be64 1"

fun connects_only :: "(nat \<Rightarrow> u32) \<Rightarrow> nat \<Rightarrow> nat \<Rightarrow> udp_event list" where
  "connects_only rand d 0 = []"
| "connects_only rand d (Suc k) =
     [DeadlinePasses, DeadlinePasses, DeadlinePasses, Arrives 0 (connect_reply (rand d))] @ connects_only rand (d + 1) k"

lemma never_answered:
  assumes "u_n t = 0" "u_connectedAt t = Some (u_now t)"
  shows "sendWithDeadline rand data (connects_only rand (u_draws t) k) t = Waiting"
  using assms
proof (induction k arbitrary: t)
  case 0
  then show ?case by (subst sendWithDeadline.simps) (simp add: connectionExpired_def)
next
  case (Suc k)
  let ?t3 = "t\<lparr>u_sent := u_sent t @ [data, data, data], u_now := u_now t + 105, u_n := 3\<rparr>"
  let ?more = "connects_only rand (u_draws t + 1) k"
  let ?reply = "Arrives 0 (connect_reply (rand (u_draws t)))"
  let ?t4 = "?t3\<lparr>u_draws := u_draws t + 1, u_sent := u_sent t @ [data, data, data, marshalConnectRequest (rand (u_draws t))],
    u_n := 0, u_connectionID := 1, u_connectedAt := Some (u_now t + 105)\<rparr>"
  have 1: "sendWithDeadline rand data (connects_only rand (u_draws t) (Suc k)) t = sendWithDeadline rand data (?reply # ?more) ?t3"
    using Suc.prems
    by (simp, subst sendWithDeadline.simps, simp add: attempt_def connectionExpired_def getDeadline_def,
      subst sendWithDeadline.simps, simp add: attempt_def connectionExpired_def getDeadline_def,
      subst sendWithDeadline.simps, simp add: attempt_def connectionExpired_def getDeadline_def add.commute numeral_3_eq_3)
  have r: "unmarshalConnectResponse x (take 4096 (connect_reply x)) = Inr 1" for x
    using get64_be64 [of 1 "[]"] by (simp add: unmarshalConnectResponse_def connect_reply_def u32_at_def ActionError_def ActionConnect_def)
  have "connect rand (?reply # ?more) ?t3 = Done (Inr 1, ?more, ?t4)"
    using Suc.prems r [of "rand (u_draws t)"] by (simp add: connect_def Let_def send_connect.simps attempt_def getDeadline_def)
  then have "sendWithDeadline rand data (?reply # ?more) ?t3 = sendWithDeadline rand data ?more ?t4"
    using Suc.prems by (subst sendWithDeadline.simps) (simp add: connectionExpired_def)
  also have "\<dots> = Waiting" using Suc.IH [of ?t4] by simp
  finally show ?case unfolding 1 .
qed

text \<open>C37: When a UDP call returns. Against a tracker that stays silent the call ends with an error after nine attempts in all (connection
  requests included) and 7665 seconds; but the counter then stays at nine and the client is dead: every later announce,
  scrape or connect fails at once without sending anything. Against a tracker that answers
  connection requests only, the counter is reset by each of these answers, and the call never returns.\<close>

theorem udp_retries:
  "(u_n t = 0 \<longrightarrow> (\<exists>e t'. UDPAnnounce rand req (replicate 9 DeadlinePasses @ evs) t = Done (Inl e, evs, t')
        \<and> u_n t' = 9 \<and> length (u_sent t') = length (u_sent t) + 9 \<and> u_now t' = u_now t + 7665))
    \<and> (8 < u_n t \<longrightarrow> (let t' = t\<lparr>u_draws := u_draws t + 1\<rparr>
        in UDPAnnounce rand req evs t = Done (Inl ErrMaxRetriesExceeded, evs, t')
          \<and> UDPScrape rand hs evs t = Done (Inl ErrMaxRetriesExceeded, evs, t')
          \<and> connect rand evs t = Done (Inl ErrMaxRetriesExceeded, evs, t')))
    \<and> (u_n t = 0 \<and> u_connectedAt t = Some (u_now t) \<longrightarrow>
        UDPAnnounce rand req (connects_only rand (u_draws t + 1) k) t = Waiting)"
proof (intro conjI impI)
  let ?t = "t\<lparr>u_draws := u_draws t + 1\<rparr>" and ?b = "marshalAnnounceRequest (u_connectionID t) req 0 0 (rand (u_draws t))"
  show "\<exists>e t'. UDPAnnounce rand req (replicate 9 DeadlinePasses @ evs) t = Done (Inl e, evs, t')
      \<and> u_n t' = 9 \<and> length (u_sent t') = length (u_sent t) + 9 \<and> u_now t' = u_now t + 7665" if z: "u_n t = 0"
  proof -
    obtain e t' where s: "sendWithDeadline rand ?b (replicate 9 DeadlinePasses @ evs) ?t = Done (Inl e, evs, t')"
        "u_n t' = 9" "length (u_sent t') = length (u_sent t) + 9" "u_now t' = u_now t + 7665"
      using sendWithDeadline_silent [of ?t 9 rand ?b evs] z by auto
    have "UDPAnnounce rand req (replicate 9 DeadlinePasses @ evs) t = Done (Inl e, evs, t')"
      unfolding UDPAnnounce_def Let_def s(1) by simp
    with s(2-4) show ?thesis by blast
  qed
  show "let t' = t\<lparr>u_draws := u_draws t + 1\<rparr>
      in UDPAnnounce rand req evs t = Done (Inl ErrMaxRetriesExceeded, evs, t')
        \<and> UDPScrape rand hs evs t = Done (Inl ErrMaxRetriesExceeded, evs, t')
        \<and> connect rand evs t = Done (Inl ErrMaxRetriesExceeded, evs, t')" if "8 < u_n t"
    using that by (simp add: UDPAnnounce_def UDPScrape_def connect_def Let_def sendWithDeadline.simps send_connect.simps)
  show "UDPAnnounce rand req (connects_only rand (u_draws t + 1) k) t = Waiting" if "u_n t = 0 \<and> u_connectedAt t = Some (u_now t)"
    using never_answered [of ?t rand ?b k] that by (simp add: UDPAnnounce_def Let_def)
qed

theorem udp_retries_witness:
  "UDPAnnounce (\<lambda>_. 0) \<lparr>a_InfoHash = [], a_PeerID = [], a_IP = 0, a_Port = 0, a_Uploaded = 0, a_Downloaded = 0, a_Left = 0, a_Event = 0\<rparr>
     (connects_only (\<lambda>_. 0) 1 1000)
     \<lparr>u_connectionID = 5, u_connectedAt = Some 0, u_n = 0, u_now = 0, u_draws = 0, u_sent = []\<rparr> = Waiting"
  using udp_retries [of "\<lparr>u_connectionID = 5, u_connectedAt = Some 0, u_n = 0, u_now = 0, u_draws = 0, u_sent = []\<rparr>" "\<lambda>_. 0"
      "\<lparr>a_InfoHash = [], a_PeerID = [], a_IP = 0, a_Port = 0, a_Uploaded = 0, a_Downloaded = 0, a_Left = 0, a_Event = 0\<rparr>" "[]" "[]" 1000] by simp

section \<open>HTTP\<close>

text \<open>A reader of query components: \<open>%\<close> and two hexadecimal digits, and \<open>+\<close> for a space.\<close>

function unescape :: "bytes \<Rightarrow> bytes option" where
  "unescape s =
     (case s of
        [] \<Rightarrow> Some []
      | c # cs \<Rightarrow>
          if c = 0x25
          then (case cs of
                  a # b # rest \<Rightarrow>
                    (case (hex_digit a, hex_digit b, unescape rest) of (Some x, Some y, Some r) \<Rightarrow> Some ((x * 16 + y) # r) | _ \<Rightarrow> None)
                | _ \<Rightarrow> None)
          else map_option (\<lambda>r. (if c = 0x2B then 0x20 else c) # r) (unescape cs))"
  by pat_completeness auto

termination unescape
  by (relation "measure length") auto

declare unescape.simps [simp del]

lemma upper_hex_table: "list_all (\<lambda>n. hex_digit (upper_hex n) = Some n) (map of_nat [0..<16])"
  by code_simp

lemma hex_digit_upper: "n < 16 \<Longrightarrow> hex_digit (upper_hex n) = Some n"
  using nibble_table [OF upper_hex_table] .

lemma unescape_escape: "unescape (QueryEscape s) = Some s"
proof (induction s)
  case (Cons c s)
  have "unescape (escape_byte c @ QueryEscape s) = Some (c # s)"
  proof (cases "unreserved c")
    case True
    then have "c \<noteq> 0x25" "c \<noteq> 0x2B" by (auto simp: unreserved_def)
    then show ?thesis using True Cons by (simp add: escape_byte_def unescape.simps)
  next
    case False
    then show ?thesis using Cons nibbles [of c] by (simp add: escape_byte_def unescape.simps hex_digit_upper)
  qed
  then show ?case by (simp add: QueryEscape_def)
qed (simp add: QueryEscape_def unescape.simps)

lemma urlEncode_unescape: "\<exists>u. urlEncodeInfoHash (hex_encode h) = Some u \<and> unescape u = Some h"
proof (induction h)
  case (Cons b h)
  then obtain u where u: "urlEncodeInfoHash (hex_encode h) = Some u" "unescape u = Some h" by blast
  have "hex_encode (b # h) = hex_char (drop_bit 4 b) # hex_char (b AND 0xF) # hex_encode h" by (simp add: hex_encode_def)
  then show ?case using u nibbles [of b] by (simp add: unescape.simps hex_digit_char)
qed (simp add: hex_encode_def unescape.simps)

lemma compact_peers_total: "\<exists>ps. unmarshalPeerAddresses (length p div 6) p = Some ps"
  using unmarshalPeerAddresses_iff [of "length p div 6" p] by auto

lemma http_response_keys [simp]:
  "sorted_dict [(ascii ''interval'', a), (ascii ''peers'', b)]" "ascii ''interval'' \<noteq> ascii ''peers''"
  "ascii ''interval'' \<noteq> ascii ''failure reason''" "ascii ''peers'' \<noteq> ascii ''failure reason''"
  by (simp_all add: sorted_dict_Cons, simp_all add: ascii_def)

text \<open>The HTTP announce. The request escapes the info hash and the peer identifier so that unescaping gives them back,
  whatever their bytes. A compact response with any number of peers is read back: its interval and all its peers in order. No
  response at all makes the client panic.\<close>

theorem http_announce_exchange:
  assumes "list_all v4_endpoint ps" "in_int64 n" "int (6 * length ps) < 2 ^ 62"
  shows "(\<exists>u w. marshalHTTPAnnounceRequest url req = Some (url @ ascii ''?info_hash='' @ u @ ascii ''&peer_id='' @ w
        @ ascii ''&port='' @ itoa (uint (a_Port req)) @ ascii ''&uploaded='' @ itoa (uint (a_Uploaded req))
        @ ascii ''&downloaded='' @ itoa (uint (a_Downloaded req)) @ ascii ''&left='' @ itoa (uint (a_Left req)) @ ascii ''&compact=1''
        @ (case EventStrings (a_Event req) of Some s \<Rightarrow> ascii ''&event='' @ s | None \<Rightarrow> []))
      \<and> unescape u = Some (a_InfoHash req) \<and> unescape w = Some (a_PeerID req))
    \<and> (\<exists>b. Encode (BDict [(ascii ''interval'', BInt n), (ascii ''peers'', BString (concat (map (\<lambda>a. the (endpoint6 a)) ps)))]) = Inr b
      \<and> unmarshalHTTPAnnounceResponse ParseAddr b = Some (Inr \<lparr>r_Interval = wrap64 (n * Second), r_Peers = ps\<rparr>))
    \<and> unmarshalHTTPAnnounceResponse ParseAddr response \<noteq> None"
proof (intro conjI)
  show "\<exists>u w. marshalHTTPAnnounceRequest url req = Some (url @ ascii ''?info_hash='' @ u @ ascii ''&peer_id='' @ w
        @ ascii ''&port='' @ itoa (uint (a_Port req)) @ ascii ''&uploaded='' @ itoa (uint (a_Uploaded req))
        @ ascii ''&downloaded='' @ itoa (uint (a_Downloaded req)) @ ascii ''&left='' @ itoa (uint (a_Left req)) @ ascii ''&compact=1''
        @ (case EventStrings (a_Event req) of Some s \<Rightarrow> ascii ''&event='' @ s | None \<Rightarrow> []))
      \<and> unescape u = Some (a_InfoHash req) \<and> unescape w = Some (a_PeerID req)"
    using urlEncode_unescape [of "a_InfoHash req"] unescape_escape [of "a_PeerID req"]
    by (auto simp: marshalHTTPAnnounceRequest_def simp del: append_assoc)
  let ?c = "concat (map (\<lambda>a. the (endpoint6 a)) ps)"
  let ?v = "BDict [(ascii ''interval'', BInt n), (ascii ''peers'', BString ?c)]"
  have l: "length ?c = 6 * length ps" using endpoint.length_encs [OF assms(1)] by simp
  have "wf_bval ?v" using assms(2,3) l by (simp add: small_int64) (simp add: in_int64_def int64_min_def int64_max_def)
  moreover have "height ?v \<le> maxDecodeDepth" by (simp add: maxDecodeDepth_def)
  ultimately obtain b where b: "Encode ?v = Inr b" "Decode b = Inr (norm ?v)" using Encode_then_Decode by metis
  have "unmarshalPeerAddresses (length ?c div 6) ?c = Some ps"
    using unmarshalPeerAddresses_records [OF assms(1), of "length ps" "[]"] by (simp add: l)
  then have "unmarshalHTTPAnnounceResponse ParseAddr b = Some (Inr \<lparr>r_Interval = wrap64 (n * Second), r_Peers = ps\<rparr>)"
    unfolding unmarshalHTTPAnnounceResponse_def b(2) by (simp add: go_string_def go_int_def unmarshalBencodedPeers_def)
  with b(1) show "\<exists>b. Encode ?v = Inr b \<and> unmarshalHTTPAnnounceResponse ParseAddr b = Some (Inr \<lparr>r_Interval = wrap64 (n * Second), r_Peers = ps\<rparr>)"
    by blast
  have h: "(unmarshalBencodedPeers ParseAddr v = None) = False" for v
    using compact_peers_total by (auto simp: unmarshalBencodedPeers_def split: option.splits bval.splits)
  show "unmarshalHTTPAnnounceResponse ParseAddr response \<noteq> None"
    by (auto simp: unmarshalHTTPAnnounceResponse_def h simp del: not_None_eq split: sum.splits bval.splits option.splits)
qed

theorem http_announce_exchange_witness:
  "\<exists>b. Encode (BDict [(ascii ''interval'', BInt 1800), (ascii ''peers'', BString ([10, 0, 0, 1] @ be16 6881))]) = Inr b
    \<and> unmarshalHTTPAnnounceResponse (\<lambda>_. None) b = Some (Inr \<lparr>r_Interval = 1800000000000, r_Peers = [AddrPort (IPv4 [10, 0, 0, 1]) 6881]\<rparr>)"
  using http_announce_exchange [of "[AddrPort (IPv4 [10, 0, 0, 1]) 6881]" 1800]
  by (simp add: v4_endpoint_def in_int64_def int64_min_def int64_max_def endpoint6_def Second_def wrap64_id)

section \<open>Several trackers\<close>

text \<open>With several trackers a request is answered by the first that succeeds: the ones before have failed, each was asked once and
  keeps its new state, the ones behind are not asked. When all fail, the error is the last one's.\<close>

theorem multi_tracker_fallback:
  assumes "list_all2 (\<lambda>tr r. TrackerAnnounce io req tr = Done (Inl (fst r), snd r)) trs rs"
  shows "(TrackerAnnounce io req tr = Done (Inr resp, tr') \<longrightarrow> MultiAnnounce io req (trs @ tr # rest) = Done (Inr resp, map snd rs @ tr' # rest))
    \<and> MultiAnnounce io req trs = Done (Inl (AllTrackersFailed (if rs = [] then None else Some (fst (last rs)))), map snd rs)"
proof -
  have 1: "try_trackers (TrackerAnnounce io req) (trs @ tr # rest) e = Done (Inr resp, map snd rs @ tr' # rest)"
    if "TrackerAnnounce io req tr = Done (Inr resp, tr')" for e
    using assms that by (induction trs arbitrary: rs e) (auto simp: list_all2_Cons1)
  have 2: "try_trackers (TrackerAnnounce io req) trs e = Done (Inl (AllTrackersFailed (if rs = [] then e else Some (fst (last rs)))), map snd rs)" for e
    using assms by (induction trs arbitrary: rs e) (auto simp: list_all2_Cons1)
  show ?thesis unfolding MultiAnnounce_def using 1 2 by blast
qed

theorem multi_tracker_fallback_witness:
  "MultiAnnounce \<lparr>io_http = \<lambda>_. None, io_ParseAddr = \<lambda>_. None\<rparr>
      \<lparr>a_InfoHash = [], a_PeerID = [], a_IP = 0, a_Port = 0, a_Uploaded = 0, a_Downloaded = 0, a_Left = 0, a_Event = 0\<rparr> [HTTPTracker []]
    = Done (Inl (AllTrackersFailed (Some HTTPFailed)), [HTTPTracker []])"
proof -
  let ?io = "\<lparr>io_http = \<lambda>_. None, io_ParseAddr = \<lambda>_. None\<rparr>"
  let ?req = "\<lparr>a_InfoHash = [], a_PeerID = [], a_IP = 0, a_Port = 0, a_Uploaded = 0, a_Downloaded = 0, a_Left = 0, a_Event = 0\<rparr>"
  have "TrackerAnnounce ?io ?req (HTTPTracker []) = Done (Inl HTTPFailed, HTTPTracker [])"
    by (simp add: TrackerAnnounce_def HTTPAnnounce_def marshalHTTPAnnounceRequest_def hex_encode_def)
  then show ?thesis using multi_tracker_fallback [of ?io ?req "[HTTPTracker []]" "[(HTTPFailed, HTTPTracker [])]"] by simp
qed

end
