(* ===== verification/Seeder.thy ===== *)
theory Seeder
  imports Handshake PieceManager PexManager
begin

text \<open>
  The seeder of \<open>internal/seeder\<close>: accepting connections (\<open>seeder.go\<close>), the loop that serves a peer
  (\<open>seed_peer.go\<close>) and the choker (\<open>choker.go\<close>). The goroutines interleave over the map of peers; a
  step is one accepted connection, one connection set up, one message served, one round of the choker, one announcement
  of a piece or one PEX message. A peer is known by the remote address of its connection. \<open>None\<close> is a panic.
\<close>

section \<open>State\<close>

record seeder_config =
  ListenPort :: int
  MaxPeers :: int
  UnchokeSlots :: int
  UnchokeInterval :: int

text \<open>Seconds.\<close>

definition DefaultSeederConfig :: seeder_config where
  "DefaultSeederConfig = \<lparr>ListenPort = 6881, MaxPeers = 50, UnchokeSlots = 4, UnchokeInterval = 30\<rparr>"

text \<open>\<open>sp_lastSent\<close> and \<open>sp_pexing\<close> belong to the peer's PEX loop: what it has sent, and whether it still runs.\<close>

record seed_peer =
  sp_peer :: peer_state
  sp_interested :: bool
  sp_lastSent :: "addrport list"
  sp_pexing :: bool

type_synonym block_server = "int \<Rightarrow> u32 \<Rightarrow> u32 \<Rightarrow> bytes option option"

text \<open>\<open>sd_pending\<close>: accepted connections whose \<open>handleConn\<close> has not got past the handshakes.\<close>

record seeder =
  sd_config :: seeder_config
  sd_infoHash :: bytes
  sd_blockServer :: block_server
  sd_bitfield :: bytes
  sd_numPieces :: nat
  sd_peers :: "(addrport, seed_peer) dict"
  sd_pending :: "(addrport \<times> conn) list"

definition New_seeder :: "bytes \<Rightarrow> nat \<Rightarrow> block_server \<Rightarrow> bytes \<Rightarrow> seeder_config \<Rightarrow> seeder" where
  "New_seeder infoHash numPieces blockServer bitfield cfg =
     \<lparr>sd_config = cfg, sd_infoHash = infoHash, sd_blockServer = blockServer, sd_bitfield = bitfield,
      sd_numPieces = numPieces, sd_peers = [], sd_pending = []\<rparr>"

definition addPeer :: "addrport \<Rightarrow> seed_peer \<Rightarrow> seeder \<Rightarrow> seeder" where
  "addPeer addr sp s = s\<lparr>sd_peers := dict_put addr sp (sd_peers s)\<rparr>"

definition removePeer :: "addrport \<Rightarrow> seeder \<Rightarrow> seeder" where
  "removePeer addr s = s\<lparr>sd_peers := dict_del addr (sd_peers s)\<rparr>"

section \<open>Connections\<close>

definition acceptConn :: "addrport \<Rightarrow> conn \<Rightarrow> seeder \<Rightarrow> seeder" where
  "acceptConn addr c s =
     (if int (length (sd_peers s)) \<ge> MaxPeers (sd_config s) then s
      else s\<lparr>sd_pending := sd_pending s @ [(addr, c)]\<rparr>)"

text \<open>The extension handshake of \<open>handleConn\<close>; its failure is only logged.\<close>

definition seed_extensions :: "handshake \<Rightarrow> peer_state \<Rightarrow> peer_state option" where
  "seed_extensions h p =
     (if h_Reserved h ! 5 AND 0x10 \<noteq> 0
      then (case ExtensionHandshake p of
              None \<Rightarrow> None
            | Some (Inl e, p) \<Rightarrow> Some p
            | Some (Inr extResp, p) \<Rightarrow> Some (if UtPexID extResp > 0 then p\<lparr>p_UtPexID := UtPexID extResp\<rparr> else p))
      else Some p)"

text \<open>\<open>handleConn\<close> up to the start of \<open>serve\<close>: inside, \<open>None\<close> is a connection that is closed.\<close>

definition handshake_conn :: "conn \<Rightarrow> seeder \<Rightarrow> peer_state option option" where
  "handshake_conn c s =
     (case ServerHandshake c (sd_infoHash s) of
        Inl e \<Rightarrow> Some None
      | Inr (p, h) \<Rightarrow>
          if p_ID p = PeerID then Some None
          else (case SendBitfield (sd_bitfield s) p of
                  None \<Rightarrow> None
                | Some (False, p) \<Rightarrow> Some None
                | Some (True, p) \<Rightarrow>
                    map_option (\<lambda>p. Some (p\<lparr>p_BlockServer := Some (sd_blockServer s)\<rparr>)) (seed_extensions h p)))"

definition handleConn :: "addrport \<Rightarrow> conn \<Rightarrow> seeder \<Rightarrow> seeder option" where
  "handleConn addr c s =
     map_option (\<lambda>r. case r of
         None \<Rightarrow> s
       | Some p \<Rightarrow> addPeer addr \<lparr>sp_peer = p, sp_interested = False, sp_lastSent = [], sp_pexing = p_UtPexID p > 0\<rparr> s)
       (handshake_conn c s)"

section \<open>Serving\<close>

definition serve_message :: "peer_message \<Rightarrow> seed_peer \<Rightarrow> seed_peer option" where
  "serve_message msg sp =
     (if IsKeepAlive msg then Some sp
      else if m_ID msg = 2 then Some (sp\<lparr>sp_interested := True\<rparr>)
      else if m_ID msg = 3 then Some (sp\<lparr>sp_interested := False\<rparr>)
      else if m_ID msg = 6 then map_option (\<lambda>(ok, p). sp\<lparr>sp_peer := p\<rparr>) (HandleRequest (m_Payload msg) (sp_peer sp))
      else if m_ID msg = 4 then Some (sp\<lparr>sp_peer := on_have (m_Payload msg) (sp_peer sp)\<rparr>)
      else if m_ID msg = 20 then Some (sp\<lparr>sp_peer := HandleExtension (m_Payload msg) (sp_peer sp)\<rparr>)
      else Some sp)"

text \<open>One round of \<open>serve\<close>; a read error ends it and the peer is removed.\<close>

definition serve :: "addrport \<Rightarrow> seeder \<Rightarrow> seeder option" where
  "serve addr s =
     (case map_of (sd_peers s) addr of
        None \<Rightarrow> Some s
      | Some sp \<Rightarrow>
          (case read_message (sp_peer sp) of
             (Inl e, p) \<Rightarrow> Some (removePeer addr s)
           | (Inr msg, p) \<Rightarrow> map_option (\<lambda>sp. addPeer addr sp s) (serve_message msg (sp\<lparr>sp_peer := p\<rparr>))))"

section \<open>The choker\<close>

text \<open>A failed send is only logged; \<open>sendHave\<close> and the two for choking hold the peer's write lock.\<close>

definition send_to :: "(peer_state \<Rightarrow> (bool \<times> peer_state) option) \<Rightarrow> seed_peer \<Rightarrow> seed_peer option" where
  "send_to send sp = map_option (\<lambda>(ok, p). sp\<lparr>sp_peer := p\<rparr>) (send (sp_peer sp))"

definition sendChoke :: "seed_peer \<Rightarrow> seed_peer option" where "sendChoke = send_to SendChoke"
definition sendUnchoke :: "seed_peer \<Rightarrow> seed_peer option" where "sendUnchoke = send_to SendUnchoke"
definition sendHave :: "u32 \<Rightarrow> seed_peer \<Rightarrow> seed_peer option" where "sendHave index = send_to (SendHave index)"

definition update_peers :: "(addrport \<Rightarrow> seed_peer \<Rightarrow> seed_peer option) \<Rightarrow> (addrport, seed_peer) dict \<Rightarrow> (addrport, seed_peer) dict option" where
  "update_peers f d = those (map (\<lambda>(a, sp). map_option (Pair a) (f a sp)) d)"

definition choke_peer :: "bool \<Rightarrow> seed_peer \<Rightarrow> seed_peer option" where
  "choke_peer shouldUnchoke sp =
     (let p = sp_peer sp
      in if shouldUnchoke \<and> p_AmChoking p then sendUnchoke (sp\<lparr>sp_peer := p\<lparr>p_AmChoking := False\<rparr>\<rparr>)
         else if \<not> shouldUnchoke \<and> \<not> p_AmChoking p then sendChoke (sp\<lparr>sp_peer := p\<lparr>p_AmChoking := True\<rparr>\<rparr>)
         else Some sp)"

text \<open>\<open>shuffle\<close>: the permutation the random numbers make.\<close>

definition tick :: "(addrport list \<Rightarrow> addrport list) \<Rightarrow> seeder \<Rightarrow> seeder option" where
  "tick shuffle s =
     (let interested = map fst (filter (\<lambda>e. sp_interested (snd e)) (sd_peers s))
      in if interested = [] then Some s
         else let limit = min (UnchokeSlots (sd_config s)) (int (length interested));
                  toUnchoke = take (nat limit) (shuffle interested)
              in map_option (\<lambda>peers. s\<lparr>sd_peers := peers\<rparr>) (update_peers (\<lambda>a. choke_peer (a \<in> set toUnchoke)) (sd_peers s)))"

section \<open>Announcing pieces and peers\<close>

definition broadcastHave :: "int \<Rightarrow> seeder \<Rightarrow> seeder option" where
  "broadcastHave index s =
     map_option (\<lambda>peers. s\<lparr>sd_bitfield := SetPiece (sd_bitfield s) index, sd_peers := peers\<rparr>)
       (update_peers (\<lambda>_. sendHave (word_of_int index)) (sd_peers s))"

definition getPeerAddrs :: "addrport \<Rightarrow> seeder \<Rightarrow> (addrport, addrport) dict" where
  "getPeerAddrs excludeAddr s = map (\<lambda>(a, sp). (a, p_AddrPort (sp_peer sp))) (filter (\<lambda>e. fst e \<noteq> excludeAddr) (sd_peers s))"

text \<open>One tick of \<open>pexSendLoop\<close>; \<open>order\<close> and \<open>order'\<close> are the orders in which the maps are gone through.\<close>

definition pexSend ::
    "((addrport \<times> addrport) list \<Rightarrow> (addrport \<times> addrport) list) \<Rightarrow> (addrport list \<Rightarrow> addrport list) \<Rightarrow> addrport \<Rightarrow> seeder \<Rightarrow> seeder option" where
  "pexSend order order' addr s =
     (case map_of (sd_peers s) addr of
        None \<Rightarrow> Some s
      | Some sp \<Rightarrow>
          if \<not> sp_pexing sp then Some s
          else (let current = getPeerAddrs addr s;
                    added = map snd (take PEXMaxAdded (filter (\<lambda>e. fst e \<notin> set (sp_lastSent sp)) (order current)));
                    dropped = filter (\<lambda>a. a \<notin> fst ` set current) (order' (sp_lastSent sp))
                in if added = [] \<and> dropped = [] then Some s
                   else map_option (\<lambda>(r, p). addPeer addr
                            (case r of
                               Inl e \<Rightarrow> sp\<lparr>sp_peer := p, sp_pexing := False\<rparr>
                             | Inr _ \<Rightarrow> sp\<lparr>sp_peer := p, sp_lastSent := map fst current\<rparr>) s)
                          (SendPEX \<lparr>Added = added, AddedF = replicate (length added) 0, Dropped = dropped\<rparr> (sp_peer sp))))"

section \<open>Interleavings\<close>

datatype seeder_event = Accepts addrport conn | Handles addrport conn | Serves addrport | Ticks "addrport list \<Rightarrow> addrport list"
  | HasPieceNow int | PexTicks "(addrport \<times> addrport) list \<Rightarrow> (addrport \<times> addrport) list" "addrport list \<Rightarrow> addrport list" addrport

text \<open>A pending connection is handled with what has arrived on it by then.\<close>

fun seeder_step :: "seeder_event \<Rightarrow> seeder \<Rightarrow> seeder option" where
  "seeder_step (Accepts addr c) s = Some (acceptConn addr c s)"
| "seeder_step (Handles addr c) s =
     (if addr \<in> fst ` set (sd_pending s)
      then handleConn addr c (s\<lparr>sd_pending := filter (\<lambda>e. fst e \<noteq> addr) (sd_pending s)\<rparr>) else Some s)"
| "seeder_step (Serves addr) s = serve addr s"
| "seeder_step (Ticks shuffle) s = tick shuffle s"
| "seeder_step (HasPieceNow index) s = broadcastHave index s"
| "seeder_step (PexTicks order order' addr) s = pexSend order order' addr s"

definition fair_event :: "seeder_event \<Rightarrow> bool" where
  "fair_event ev \<longleftrightarrow> (\<forall>sh. ev = Ticks sh \<longrightarrow> (\<forall>l. mset (sh l) = mset l))
     \<and> (\<forall>o1 o2 a. ev = PexTicks o1 o2 a \<longrightarrow> (\<forall>l. mset (o1 l) = mset l) \<and> (\<forall>l. mset (o2 l) = mset l))"

inductive seeder_reachable :: "seeder \<Rightarrow> seeder \<Rightarrow> bool" for s0 where
  start: "seeder_reachable s0 s0"
| move: "seeder_reachable s0 s \<Longrightarrow> fair_event ev \<Longrightarrow> seeder_step ev s = Some s' \<Longrightarrow> seeder_reachable s0 s'"

section \<open>What steps leave alone\<close>

definition fixed :: "peer_state \<Rightarrow> (block_server option \<times> addrport \<times> int) \<times> bool" where
  "fixed p = ((p_BlockServer p, p_AddrPort p, p_UtPexID p), p_AmChoking p)"

lemma fixed_simps [simp]:
  "fixed (p\<lparr>p_Conn := c\<rparr>) = fixed p" "fixed (p\<lparr>p_BitField := b\<rparr>) = fixed p" "fixed (on_have b p) = fixed p" "fixed (HandleExtension b p) = fixed p"
  by (simp_all add: fixed_def on_have_def HandleExtension_def split: sum.split)

declare read_message_less [simp del] write_bytes_in [simp del] SendOnly_in [simp del] HandleRequest_in [simp del] server_frame(1,2) [simp del]

lemma fixed_read: "read_message p = (r, p') \<Longrightarrow> fixed p' = fixed p"
  by (auto simp: read_message_def split: prod.splits)

lemma fixed_write: "write_bytes b p = (ok, p') \<Longrightarrow> fixed p' = fixed p"
  by (auto simp: write_bytes_def split: prod.splits)

lemma fixed_SendOnly: "SendOnly i b p = Some (ok, p') \<Longrightarrow> fixed p' = fixed p"
  by (auto simp: SendOnly_def dest: fixed_write)

lemma fixed_HandleRequest: "HandleRequest b p = Some (ok, p') \<Longrightarrow> fixed p' = fixed p"
  by (auto simp: HandleRequest_def Let_def split: option.splits if_splits dest: fixed_SendOnly)

lemma fixed_serve: "serve_message msg sp = Some sp' \<Longrightarrow> fixed (sp_peer sp') = fixed (sp_peer sp)
    \<and> sp_lastSent sp' = sp_lastSent sp \<and> sp_pexing sp' = sp_pexing sp"
  by (auto simp: serve_message_def split: if_splits dest: fixed_HandleRequest)

lemma fixed_send_to:
  assumes "send_to (SendOnly i b) sp = Some sp'"
  shows "fixed (sp_peer sp') = fixed (sp_peer sp) \<and> sp_lastSent sp' = sp_lastSent sp \<and> sp_pexing sp' = sp_pexing sp"
  using assms by (auto simp: send_to_def dest: fixed_SendOnly)

lemma choke_peer_fixed:
  assumes "choke_peer u sp = Some sp'"
  shows "fst (fixed (sp_peer sp')) = fst (fixed (sp_peer sp)) \<and> p_AmChoking (sp_peer sp') = (\<not> u)
    \<and> sp_lastSent sp' = sp_lastSent sp \<and> sp_pexing sp' = sp_pexing sp"
  using assms by (auto simp: choke_peer_def Let_def sendUnchoke_def sendChoke_def SendUnchoke_def SendChoke_def
      split: if_splits dest!: fixed_send_to) (auto simp: fixed_def)

lemma update_peers_map:
  "update_peers f d = Some d' \<Longrightarrow> map fst d' = map fst d \<and> (\<forall>a. rel_option (\<lambda>sp sp'. f a sp = Some sp') (map_of d a) (map_of d' a))"
  by (induction d arbitrary: d') (auto simp: update_peers_def split: option.splits)

lemma addPeer_simps [simp]:
  "sd_config (addPeer a sp s) = sd_config s" "sd_blockServer (addPeer a sp s) = sd_blockServer s" "sd_infoHash (addPeer a sp s) = sd_infoHash s"
  "sd_config (removePeer a s) = sd_config s" "sd_blockServer (removePeer a s) = sd_blockServer s" "sd_infoHash (removePeer a s) = sd_infoHash s"
  by (simp_all add: addPeer_def removePeer_def)

section \<open>The invariant\<close>

definition unchoked :: "seeder \<Rightarrow> addrport set" where
  "unchoked s = {a. \<exists>sp. map_of (sd_peers s) a = Some sp \<and> \<not> p_AmChoking (sp_peer sp)}"

definition peer_inv :: "seeder \<Rightarrow> seed_peer \<Rightarrow> bool" where
  "peer_inv s sp \<longleftrightarrow> p_BlockServer (sp_peer sp) = Some (sd_blockServer s) \<and> p_AddrPort (sp_peer sp) = AddrPort NoAddr 0
     \<and> sp_lastSent sp = [] \<and> (sp_pexing sp \<longrightarrow> p_UtPexID (sp_peer sp) > 0)"

definition seeder_inv :: "seeder \<Rightarrow> bool" where
  "seeder_inv s \<longleftrightarrow> sorted_dict (sd_peers s) \<and> (\<forall>a sp. map_of (sd_peers s) a = Some sp \<longrightarrow> peer_inv s sp)
     \<and> card (unchoked s) \<le> nat (UnchokeSlots (sd_config s))"

lemma finite_unchoked [simp]: "finite (unchoked s)"
proof -
  have "unchoked s \<subseteq> dom (map_of (sd_peers s))" by (auto simp: unchoked_def)
  then show ?thesis using finite_dom_map_of finite_subset by blast
qed

lemma peer_inv_fixed:
  "peer_inv s sp \<Longrightarrow> fst (fixed (sp_peer sp')) = fst (fixed (sp_peer sp)) \<Longrightarrow> sp_lastSent sp' = sp_lastSent sp \<Longrightarrow> sp_pexing sp' = sp_pexing sp
    \<Longrightarrow> peer_inv s sp'"
  by (auto simp: peer_inv_def fixed_def)

lemma addPeer_inv:
  assumes "seeder_inv s" "peer_inv s sp" "p_AmChoking (sp_peer sp) \<or> a \<in> unchoked s"
  shows "seeder_inv (addPeer a sp s)"
proof -
  have "unchoked (addPeer a sp s) \<subseteq> unchoked s" using assms(3) by (auto simp: unchoked_def addPeer_def split: if_splits)
  then have "card (unchoked (addPeer a sp s)) \<le> card (unchoked s)" by (simp add: card_mono)
  then show ?thesis using assms(1,2) by (auto simp: seeder_inv_def addPeer_def peer_inv_def)
qed

lemma removePeer_inv:
  assumes "seeder_inv s"
  shows "seeder_inv (removePeer a s)"
proof -
  have "unchoked (removePeer a s) \<subseteq> unchoked s" by (auto simp: unchoked_def removePeer_def split: if_splits)
  then have "card (unchoked (removePeer a s)) \<le> card (unchoked s)" by (simp add: card_mono)
  then show ?thesis using assms by (auto simp: seeder_inv_def removePeer_def peer_inv_def split: if_splits)
qed

lemma update_peers_inv:
  assumes "seeder_inv s" "update_peers f (sd_peers s) = Some d"
    and "\<And>a sp sp'. f a sp = Some sp' \<Longrightarrow> fst (fixed (sp_peer sp')) = fst (fixed (sp_peer sp)) \<and> sp_lastSent sp' = sp_lastSent sp \<and> sp_pexing sp' = sp_pexing sp"
    and "card (unchoked (s\<lparr>sd_peers := d\<rparr>)) \<le> nat (UnchokeSlots (sd_config s))"
  shows "seeder_inv (s\<lparr>sd_peers := d\<rparr>)"
proof -
  note u = update_peers_map [OF assms(2)]
  have "sorted_dict d" using assms(1) u by (simp add: seeder_inv_def sorted_dict_def)
  moreover have "peer_inv s sp'" if "map_of d a = Some sp'" for a sp'
  proof -
    from u have "rel_option (\<lambda>sp sp'. f a sp = Some sp') (map_of (sd_peers s) a) (map_of d a)" by blast
    with that obtain sp where "map_of (sd_peers s) a = Some sp" "f a sp = Some sp'" by (cases "map_of (sd_peers s) a") auto
    then show ?thesis using assms(1,3) peer_inv_fixed by (metis seeder_inv_def)
  qed
  ultimately show ?thesis using assms(4) by (simp add: seeder_inv_def peer_inv_def)
qed

lemma unchoked_update:
  assumes "update_peers f (sd_peers s) = Some d" "\<And>a sp sp'. f a sp = Some sp' \<Longrightarrow> p_AmChoking (sp_peer sp') = (\<not> P a sp)"
  shows "unchoked (s\<lparr>sd_peers := d\<rparr>) = {a. \<exists>sp. map_of (sd_peers s) a = Some sp \<and> P a sp}"
proof (intro set_eqI iffI)
  fix a
  have u: "rel_option (\<lambda>sp sp'. f a sp = Some sp') (map_of (sd_peers s) a) (map_of d a)" using update_peers_map [OF assms(1)] by blast
  show "a \<in> {a. \<exists>sp. map_of (sd_peers s) a = Some sp \<and> P a sp}" if "a \<in> unchoked (s\<lparr>sd_peers := d\<rparr>)"
    using that u assms(2) by (cases "map_of (sd_peers s) a") (auto simp: unchoked_def)
  show "a \<in> unchoked (s\<lparr>sd_peers := d\<rparr>)" if "a \<in> {a. \<exists>sp. map_of (sd_peers s) a = Some sp \<and> P a sp}"
    using that u assms(2) by (cases "map_of d a") (auto simp: unchoked_def)
qed

definition interested_peers :: "seeder \<Rightarrow> addrport list" where
  "interested_peers s = map fst (filter (\<lambda>e. sp_interested (snd e)) (sd_peers s))"

lemma interested_known: "a \<in> set (interested_peers s) \<Longrightarrow> map_of (sd_peers s) a \<noteq> None"
  by (auto simp: interested_peers_def map_of_eq_None_iff)

lemma tick_unchoked:
  assumes "tick shuffle s = Some s'" "\<And>l. mset (shuffle l) = mset l" "interested_peers s \<noteq> []"
  shows "unchoked s' = set (take (nat (UnchokeSlots (sd_config s))) (shuffle (interested_peers s)))"
    and "\<exists>d. update_peers (\<lambda>a. choke_peer (a \<in> unchoked s')) (sd_peers s) = Some d \<and> s' = s\<lparr>sd_peers := d\<rparr>"
proof -
  let ?i = "interested_peers s" and ?slots = "UnchokeSlots (sd_config s)"
  let ?t = "take (nat (min ?slots (int (length ?i)))) (shuffle ?i)"
  have l: "length (shuffle ?i) = length ?i" "set (shuffle ?i) = set ?i" using assms(2) by (metis size_mset, metis set_mset_mset)
  have t: "?t = take (nat ?slots) (shuffle ?i)" using l(1) by (simp add: min_def)
  obtain d where d: "update_peers (\<lambda>a. choke_peer (a \<in> set ?t)) (sd_peers s) = Some d" "s' = s\<lparr>sd_peers := d\<rparr>"
    using assms(1,3) unfolding tick_def Let_def interested_peers_def [symmetric] by auto
  have "unchoked s' = {a. \<exists>sp. map_of (sd_peers s) a = Some sp \<and> a \<in> set ?t}"
    unfolding d(2) by (rule unchoked_update [OF d(1), where P = "\<lambda>a sp. a \<in> set ?t"]) (auto dest: choke_peer_fixed)
  also have "\<dots> = set ?t" using interested_known l(2) by (fastforce dest: in_set_takeD)
  finally show u: "unchoked s' = set (take (nat ?slots) (shuffle ?i))" unfolding t .
  show "\<exists>d. update_peers (\<lambda>a. choke_peer (a \<in> unchoked s')) (sd_peers s) = Some d \<and> s' = s\<lparr>sd_peers := d\<rparr>"
    using d unfolding u t by blast
qed

lemma tick_inv:
  assumes "seeder_inv s" "tick shuffle s = Some s'" "\<And>l. mset (shuffle l) = mset l"
  shows "seeder_inv s'"
proof (cases "interested_peers s = []")
  case True
  then show ?thesis using assms(1,2) unfolding tick_def Let_def interested_peers_def [symmetric] by simp
next
  case False
  note t = tick_unchoked [OF assms(2,3) False]
  then obtain d where d: "update_peers (\<lambda>a. choke_peer (a \<in> unchoked s')) (sd_peers s) = Some d" "s' = s\<lparr>sd_peers := d\<rparr>" by blast
  have "card (unchoked s') \<le> nat (UnchokeSlots (sd_config s))"
    unfolding t(1) by (rule order_trans [OF card_length]) simp
  then show ?thesis using update_peers_inv [OF assms(1) d(1)] choke_peer_fixed d(2) by auto
qed

lemma broadcast_inv:
  assumes "seeder_inv s" "broadcastHave index s = Some s'"
  shows "seeder_inv s'"
proof -
  obtain d where d: "update_peers (\<lambda>_. sendHave (word_of_int index)) (sd_peers s) = Some d"
      "s' = (s\<lparr>sd_peers := d\<rparr>)\<lparr>sd_bitfield := SetPiece (sd_bitfield s) index\<rparr>"
    using assms(2) by (auto simp: broadcastHave_def)
  have f: "fixed (sp_peer sp') = fixed (sp_peer sp) \<and> sp_lastSent sp' = sp_lastSent sp \<and> sp_pexing sp' = sp_pexing sp"
    if "sendHave (word_of_int index) sp = Some sp'" for sp sp'
    using that by (auto simp: sendHave_def SendHave_def dest: fixed_send_to)
  have u: "unchoked (s\<lparr>sd_peers := d\<rparr>) = unchoked s"
    unfolding unchoked_def [of s] by (rule unchoked_update [OF d(1)]) (use f in \<open>auto simp: fixed_def\<close>)
  have "card (unchoked (s\<lparr>sd_peers := d\<rparr>)) \<le> nat (UnchokeSlots (sd_config s))" using assms(1) unfolding u by (simp add: seeder_inv_def)
  then have "seeder_inv (s\<lparr>sd_peers := d\<rparr>)" using update_peers_inv [OF assms(1) d(1)] f by (metis (no_types, lifting))
  then show ?thesis by (simp add: d(2) seeder_inv_def unchoked_def peer_inv_def)
qed

lemma fixed_SendMessage:
  assumes "SendMessage i b p = Some (r, p')"
  shows "fixed p' = fixed p"
proof -
  obtain f where f: "frame i b = Some f" using assms by (cases "frame i b") (auto simp: SendMessage_def)
  obtain ok p1 where w: "write_bytes f p = (ok, p1)" by fastforce
  then have "fixed p1 = fixed p" by (rule fixed_write)
  then show ?thesis using assms fixed_read [of p1 r p'] by (cases ok) (simp_all add: SendMessage_def f w)
qed

lemma fixed_ExtensionHandshake:
  assumes "ExtensionHandshake p = Some (r, p')"
  shows "fixed p' = fixed p"
proof -
  obtain x p1 where s: "SendMessage 20 extension_payload p = Some (x, p1)"
    using assms by (cases "SendMessage 20 extension_payload p") (auto simp: ExtensionHandshake_def)
  then show ?thesis using assms fixed_SendMessage [OF s] by (cases x) (auto simp: ExtensionHandshake_def split: if_splits)
qed

lemma seed_extensions_fixed:
  assumes "seed_extensions h p = Some p'"
  shows "p_AmChoking p' = p_AmChoking p \<and> p_AddrPort p' = p_AddrPort p"
proof (cases "ExtensionHandshake p")
  case (Some rp)
  obtain r q where q: "rp = (r, q)" by fastforce
  then have "fixed q = fixed p" using fixed_ExtensionHandshake Some by blast
  then show ?thesis using assms Some q by (cases r) (auto simp: seed_extensions_def fixed_def split: if_splits)
qed (use assms in \<open>simp add: seed_extensions_def split: if_splits\<close>)

lemma handshake_conn_peer:
  assumes "handshake_conn c s = Some (Some p)"
  shows "p_AmChoking p \<and> p_AddrPort p = AddrPort NoAddr 0 \<and> p_BlockServer p = Some (sd_blockServer s)"
proof -
  obtain p0 h where p0: "ServerHandshake c (sd_infoHash s) = Inr (p0, h)"
    using assms by (cases "ServerHandshake c (sd_infoHash s)") (auto simp: handshake_conn_def)
  obtain ok p1 where p1: "SendBitfield (sd_bitfield s) p0 = Some (ok, p1)"
    using assms by (cases "SendBitfield (sd_bitfield s) p0") (auto simp: handshake_conn_def p0 split: if_splits)
  obtain p2 where p2: "seed_extensions h p1 = Some p2" "p = p2\<lparr>p_BlockServer := Some (sd_blockServer s)\<rparr>"
    using assms by (cases ok) (auto simp: handshake_conn_def p0 p1 split: if_splits)
  have "p_AmChoking p0 \<and> p_AddrPort p0 = AddrPort NoAddr 0"
    using p0 by (auto simp: ServerHandshake_def accepted_peer_def split: sum.splits prod.splits if_splits bool.splits)
  moreover have "fixed p1 = fixed p0" using p1 by (auto simp: SendBitfield_def dest: fixed_SendOnly)
  ultimately have "p_AmChoking p1 \<and> p_AddrPort p1 = AddrPort NoAddr 0" by (simp add: fixed_def)
  with seed_extensions_fixed [OF p2(1)] p2(2) show ?thesis by simp
qed

lemma handleConn_inv:
  assumes "seeder_inv s" "handleConn a c s = Some s'"
  shows "seeder_inv s'"
  using assms by (auto simp: handleConn_def peer_inv_def split: option.splits dest!: handshake_conn_peer intro!: addPeer_inv)

lemma serve_inv:
  assumes "seeder_inv s" "serve a s = Some s'"
  shows "seeder_inv s'"
proof (cases "map_of (sd_peers s) a")
  case None
  then show ?thesis using assms by (simp add: serve_def)
next
  case (Some sp)
  obtain r p where r: "read_message (sp_peer sp) = (r, p)" by fastforce
  then have f: "fixed p = fixed (sp_peer sp)" by (rule fixed_read)
  show ?thesis
  proof (cases r)
    case (Inl e)
    then show ?thesis using assms Some r by (auto simp: serve_def intro: removePeer_inv)
  next
    case (Inr msg)
    then obtain sp' where s: "serve_message msg (sp\<lparr>sp_peer := p\<rparr>) = Some sp'" "s' = addPeer a sp' s"
      using assms(2) Some r by (auto simp: serve_def)
    then have e: "fixed (sp_peer sp') = fixed (sp_peer sp) \<and> sp_lastSent sp' = sp_lastSent sp \<and> sp_pexing sp' = sp_pexing sp"
      using fixed_serve f by fastforce
    have "peer_inv s sp" using assms(1) Some by (simp add: seeder_inv_def)
    then have "peer_inv s sp'" using peer_inv_fixed [of s sp sp'] e by simp
    moreover have "p_AmChoking (sp_peer sp') \<or> a \<in> unchoked s" using e Some by (auto simp: fixed_def unchoked_def)
    ultimately show ?thesis using addPeer_inv [OF assms(1)] s(2) by simp
  qed
qed

text \<open>No peer of the seeder has an address, so no PEX message with an addition can be written.\<close>

lemma getPeerAddrs_none: "seeder_inv s \<Longrightarrow> e \<in> set (getPeerAddrs a s) \<Longrightarrow> snd e = AddrPort NoAddr 0"
  by (auto simp: getPeerAddrs_def seeder_inv_def peer_inv_def sorted_dict_distinct)

lemma SendPEX_no_addr:
  assumes "p_UtPexID p \<noteq> 0" "AddrPort NoAddr 0 \<in> set (Added msg)"
  shows "SendPEX msg p = None"
proof -
  have "those (map endpoint6 (Added msg)) = None" using assms(2) by (rule those_None) (simp add: endpoint6_def)
  then show ?thesis using assms(1) by (simp add: SendPEX_def EncodePEXMessage_def CompactPeers_def)
qed

lemma pexSend_cases:
  assumes "seeder_inv s" "map_of (sd_peers s) a = Some sp" "sp_pexing sp" "\<And>l. mset (order l) = mset l" "\<And>l. mset (order' l) = mset l"
  shows "pexSend order order' a s = (if dict_del a (sd_peers s) = [] then Some s else None)"
proof -
  have "peer_inv s sp" using assms(1,2) by (simp add: seeder_inv_def)
  then have sp: "sp_lastSent sp = []" "p_UtPexID (sp_peer sp) \<noteq> 0" using assms(3) by (auto simp: peer_inv_def)
  have o': "order' [] = []" using assms(5) [of "[]"] by simp
  let ?c = "getPeerAddrs a s"
  have c: "?c = [] \<longleftrightarrow> dict_del a (sd_peers s) = []" by (simp add: getPeerAddrs_def dict_del_def)
  have l: "length (order ?c) = length ?c" "set (order ?c) = set ?c" using assms(4) by (metis size_mset, metis set_mset_mset)
  show ?thesis
  proof (cases "?c = []")
    case True
    then have "order ?c = []" using l by simp
    then show ?thesis using assms(2,3) True c sp o' by (simp add: pexSend_def Let_def)
  next
    case False
    let ?added = "map snd (take PEXMaxAdded (order ?c))"
    have "order ?c \<noteq> []" using False l(1) by (metis length_0_conv)
    then obtain e es where o: "order ?c = e # es" by (cases "order ?c") auto
    then have "e \<in> set ?c" using l(2) by (metis list.set_intros(1))
    then have "snd e = AddrPort NoAddr 0" by (rule getPeerAddrs_none [OF assms(1)])
    then have ne: "?added \<noteq> []" "AddrPort NoAddr 0 \<in> set ?added" by (simp_all add: o PEXMaxAdded_def)
    then show ?thesis using assms(2,3) False c sp o' ne by (simp add: pexSend_def Let_def SendPEX_no_addr)
  qed
qed

lemma pending_inv: "seeder_inv s \<Longrightarrow> seeder_inv (s\<lparr>sd_pending := x\<rparr>)"
  by (simp add: seeder_inv_def unchoked_def peer_inv_def)

lemma pexSend_config:
  "pexSend order order' a s = Some s' \<Longrightarrow> sd_config s' = sd_config s \<and> sd_blockServer s' = sd_blockServer s \<and> sd_infoHash s' = sd_infoHash s"
  by (auto simp: pexSend_def Let_def split: if_splits option.splits prod.splits)

lemma seeder_inv_reachable:
  assumes "seeder_reachable (New_seeder infoHash n bs bf cfg) s"
  shows "seeder_inv s \<and> sd_config s = cfg \<and> sd_blockServer s = bs \<and> sd_infoHash s = infoHash"
  using assms
proof (induction rule: seeder_reachable.induct)
  case start
  show ?case by (simp add: New_seeder_def seeder_inv_def unchoked_def)
next
  case (move s ev s')
  have keep: "sd_config s' = sd_config s \<and> sd_blockServer s' = sd_blockServer s \<and> sd_infoHash s' = sd_infoHash s"
    using move(3) by (cases ev) (auto simp: acceptConn_def handleConn_def serve_def tick_def broadcastHave_def
        Let_def split: if_splits option.splits prod.splits sum.splits dest: pexSend_config)
  have "seeder_inv s'"
  proof (cases ev)
    case (Accepts a c)
    then show ?thesis using move pending_inv by (auto simp: acceptConn_def split: if_splits)
  next
    case (Handles a c)
    then show ?thesis using move handleConn_inv [OF pending_inv] by (auto split: if_splits)
  next
    case (Serves a)
    then show ?thesis using move serve_inv by auto
  next
    case (Ticks sh)
    then show ?thesis using move tick_inv by (auto simp: fair_event_def)
  next
    case (HasPieceNow i)
    then show ?thesis using move broadcast_inv by auto
  next
    case (PexTicks o1 o2 a)
    then have p: "pexSend o1 o2 a s = Some s'" "\<And>l. mset (o1 l) = mset l" "\<And>l. mset (o2 l) = mset l" using move(2,3) by (auto simp: fair_event_def)
    show ?thesis
    proof (cases "map_of (sd_peers s) a")
      case None
      then show ?thesis using p(1) move.IH by (simp add: pexSend_def)
    next
      case (Some sp)
      show ?thesis
      proof (cases "sp_pexing sp")
        case True
        have "seeder_inv s" using move.IH by simp
        then show ?thesis using pexSend_cases [OF _ Some True p(2,3)] p(1) by (simp split: if_splits)
      next
        case False
        then show ?thesis using Some p(1) move.IH by (simp add: pexSend_def)
      qed
    qed
  qed
  with keep move.IH show ?case by simp
qed

text \<open>C34: The choker. In every reachable state at most \<open>UnchokeSlots\<close> peers are unchoked, and a peer that is choked gets no
  data. After a round with interested peers, exactly the first \<open>UnchokeSlots\<close> of the shuffled interested peers
  are unchoked: all of them when there are not more than slots, and nobody who is not interested; each peer whose
  state changed has been sent the message that says so. But a round in which nobody is interested changes nothing, so a peer that lost interest stays unchoked.\<close>

theorem choker_spec:
  assumes "seeder_reachable (New_seeder infoHash n bs bf cfg) s" "\<And>l. mset (shuffle l) = mset l"
  shows "card (unchoked s) \<le> nat (UnchokeSlots cfg)
    \<and> (\<exists>s'. tick shuffle s = Some s' \<and> (if interested_peers s = [] then s' = s
         else unchoked s' = set (take (nat (UnchokeSlots cfg)) (shuffle (interested_peers s))) \<and> unchoked s' \<subseteq> set (interested_peers s)
          \<and> (int (length (interested_peers s)) \<le> UnchokeSlots cfg \<longrightarrow> unchoked s' = set (interested_peers s))
          \<and> (\<forall>a sp sp'. map_of (sd_peers s) a = Some sp \<and> map_of (sd_peers s') a = Some sp' \<longrightarrow>
               choke_peer (a \<in> unchoked s') sp = Some sp')))"
proof -
  have inv: "seeder_inv s" "sd_config s = cfg" using seeder_inv_reachable [OF assms(1)] by auto
  have total: "\<exists>sp'. choke_peer u sp = Some sp'" for u sp
    using frame_small [of "[]"] by (auto simp: choke_peer_def Let_def sendUnchoke_def sendChoke_def send_to_def SendUnchoke_def SendChoke_def SendOnly_def small_def)
  have up: "\<exists>d. update_peers (\<lambda>a. choke_peer (P a)) ps = Some d" for P ps
  proof -
    have "those (map (\<lambda>(a, sp). map_option (Pair a) (choke_peer (P a) sp)) ps) \<noteq> None"
      using total those_all [of ps "\<lambda>(a, sp). map_option (Pair a) (choke_peer (P a) sp)"] by fastforce
    then show ?thesis by (auto simp: update_peers_def)
  qed
  define P where "P a \<longleftrightarrow> a \<in> set (take (nat (min (UnchokeSlots (sd_config s)) (int (length (interested_peers s))))) (shuffle (interested_peers s)))" for a
  obtain d where "update_peers (\<lambda>a. choke_peer (P a)) (sd_peers s) = Some d" using up by blast
  then have "\<exists>s'. tick shuffle s = Some s'" unfolding tick_def Let_def interested_peers_def [symmetric] P_def by simp
  then obtain s' where t: "tick shuffle s = Some s'" by blast
  have "unchoked s' = set (take (nat (UnchokeSlots cfg)) (shuffle (interested_peers s))) \<and> unchoked s' \<subseteq> set (interested_peers s)
      \<and> (int (length (interested_peers s)) \<le> UnchokeSlots cfg \<longrightarrow> unchoked s' = set (interested_peers s))
      \<and> (\<forall>a sp sp'. map_of (sd_peers s) a = Some sp \<and> map_of (sd_peers s') a = Some sp' \<longrightarrow> choke_peer (a \<in> unchoked s') sp = Some sp')"
    if "interested_peers s \<noteq> []"
  proof -
    note u = tick_unchoked [OF t assms(2) that]
    have l: "length (shuffle (interested_peers s)) = length (interested_peers s)" "set (shuffle (interested_peers s)) = set (interested_peers s)"
      using assms(2) by (metis size_mset, metis set_mset_mset)
    obtain d where d: "update_peers (\<lambda>a. choke_peer (a \<in> unchoked s')) (sd_peers s) = Some d" "s' = s\<lparr>sd_peers := d\<rparr>" using u(2) by blast
    have "choke_peer (a \<in> unchoked s') sp = Some sp'" if "map_of (sd_peers s) a = Some sp" "map_of (sd_peers s') a = Some sp'" for a sp sp'
    proof -
      have "rel_option (\<lambda>sp sp'. choke_peer (a \<in> unchoked s') sp = Some sp') (map_of (sd_peers s) a) (map_of d a)" using update_peers_map [OF d(1)] by blast
      then show ?thesis using that d(2) by simp
    qed
    then show ?thesis using u(1) l inv(2) by (auto dest: in_set_takeD)
  qed
  moreover have "s' = s" if "interested_peers s = []" using t that unfolding tick_def Let_def interested_peers_def [symmetric] by simp
  moreover have "card (unchoked s) \<le> nat (UnchokeSlots cfg)" using inv by (simp add: seeder_inv_def)
  ultimately show ?thesis using t unfolding if_bool_eq_conj by blast
qed

section \<open>Clients of the program itself\<close>

text \<open>The seeder turns away every other client of the program. All instances identify themselves by the same constant
  \<open>PeerID\<close>, and the test against connections to itself compares that identifier, so whoever opens a
  connection with a handshake the program writes, for whatever info hash, is never added as a peer.\<close>

theorem own_clients_rejected:
  assumes "length h = 20" "c_in c = constructHandshakeMessage h ext @ rest"
  shows "handleConn addr c s = Some s"
proof -
  have "readHandshake c = (Inr (our_handshake h ext), c\<lparr>c_in := rest\<rparr>)" using assms by (rule readHandshake_ours)
  then have "handshake_conn c s = Some None"
    by (auto simp: handshake_conn_def ServerHandshake_def accepted_peer_def our_handshake_def split: prod.splits bool.splits)
  then show ?thesis by (simp add: handleConn_def)
qed

theorem own_clients_rejected_witness:
  "handleConn (AddrPort (IPv4 [10, 0, 0, 2]) 50000) \<lparr>c_in = constructHandshakeMessage (replicate 20 1) True, c_out = [], c_writes = 5\<rparr>
      (New_seeder (replicate 20 1) 1 (\<lambda>_ _ _. Some None) [0x80] DefaultSeederConfig)
    = Some (New_seeder (replicate 20 1) 1 (\<lambda>_ _ _. Some None) [0x80] DefaultSeederConfig)"
  by (rule own_clients_rejected [of "replicate 20 1" _ True "[]"]) simp_all

section \<open>What a served peer gets\<close>

lemma read_full_out: "read_full n c = (r, c') \<Longrightarrow> c_out c' = c_out c"
  by (auto simp: read_full_def split: if_splits)

lemma ReadMessage_out:
  assumes "ReadMessage c = (r, c')"
  shows "c_out c' = c_out c"
proof -
  obtain o1 c1 where o1: "read_full 4 c = (o1, c1)" by fastforce
  show ?thesis
  proof (cases o1)
    case (Some b)
    obtain o2 c2 where o2: "read_full (unat (the (get32 b))) c1 = (o2, c2)" by fastforce
    show ?thesis using assms read_full_out [OF o1] read_full_out [OF o2]
      by (cases o2; cases "the (get32 b) = 0") (simp_all add: ReadMessage_def Let_def o1 Some o2)
  qed (use assms read_full_out [OF o1] in \<open>simp add: ReadMessage_def o1\<close>)
qed

lemma out_read:
  assumes "read_message p = (r, p')"
  shows "c_out (p_Conn p') = c_out (p_Conn p)"
proof -
  obtain r0 c where c: "ReadMessage (p_Conn p) = (r0, c)" by fastforce
  then have "p' = p\<lparr>p_Conn := c\<rparr>" using assms by (simp add: read_message_def)
  then show ?thesis using ReadMessage_out [OF c] by simp
qed

lemma out_SendOnly:
  assumes "SendOnly i b p = Some (ok, p')"
  shows "\<exists>f. frame i b = Some f \<and> c_out (p_Conn p') = c_out (p_Conn p) @ (if ok then [f] else [])"
proof (cases "frame i b")
  case (Some f)
  then have "(ok, p') = (if c_writes (p_Conn p) = 0 then (False, p\<lparr>p_Conn := p_Conn p\<rparr>)
      else (True, p\<lparr>p_Conn := (p_Conn p)\<lparr>c_out := c_out (p_Conn p) @ [f], c_writes := c_writes (p_Conn p) - 1\<rparr>\<rparr>))"
    using assms by (simp add: SendOnly_def write_bytes_def conn_write_def split: if_splits)
  then show ?thesis using Some by (cases "c_writes (p_Conn p) = 0") simp_all
qed (use assms in \<open>simp add: SendOnly_def\<close>)

lemma out_HandleRequest:
  assumes "HandleRequest b p = Some (ok, p')"
  shows "c_out (p_Conn p') = c_out (p_Conn p) \<or>
    (\<exists>gb i off len x f. p_BlockServer p = Some gb \<and> \<not> p_AmChoking p \<and> gb (uint i) off len = Some (Some x)
      \<and> frame 7 (be32 i @ be32 off @ x) = Some f \<and> c_out (p_Conn p') = c_out (p_Conn p) @ [f])"
proof (cases "p_BlockServer p")
  case (Some gb)
  let ?i = "the (get32 b)" and ?b = "the (get32 (drop 4 b))" and ?l = "the (get32 (drop 8 b))"
  show ?thesis
  proof (cases "p_AmChoking p \<or> length b < 12 \<or> ?l > 131072 \<or> gb (uint ?i) ?b ?l = Some None")
    case True
    then show ?thesis using assms Some by (auto simp: HandleRequest_def Let_def split: if_splits option.splits)
  next
    case False
    then obtain x where x: "gb (uint ?i) ?b ?l = Some (Some x)" using assms Some by (auto simp: HandleRequest_def Let_def split: option.splits)
    then have "SendOnly 7 (be32 ?i @ be32 ?b @ x) p = Some (ok, p')" using assms Some False by (simp add: HandleRequest_def Let_def)
    from out_SendOnly [OF this] Some x False show ?thesis by (cases ok) auto
  qed
qed (use assms in \<open>simp add: HandleRequest_def\<close>)

lemma GetBlock_served:
  assumes "pm_reachable good pieces pm" "GetBlock pm i off len = Some (Some x)"
  shows "\<exists>d. GetPieceData i pm = Some (Some d) \<and> good (nat i) d \<and> unat (off + len) \<le> length d \<and> x = take (unat (off + len) - unat off) (drop (unat off) d)"
proof (cases "GetPieceData i pm")
  case (Some r)
  then obtain d where "r = Some d" "good (nat i) d" using completed_data [OF assms(1), of i] by auto
  then show ?thesis using assms(2) Some by (auto simp: GetBlock_def Let_def split: if_splits)
qed (use assms(2) in \<open>simp add: GetBlock_def\<close>)

text \<open>C33: Serving. In every reachable state of a seeder over a reachable piece manager, one message of a peer is answered with
  nothing, or, only if the peer is unchoked, with one piece message; its block is the range asked for of a completed piece
  whose data is good (in the download: has the hash of the torrent). The peer's own choice of messages changes nobody else's state.\<close>

theorem seeder_serves_good:
  assumes "pm_reachable good pieces pm" "seeder_reachable (New_seeder infoHash n (GetBlock pm) bf cfg) s"
    and "map_of (sd_peers s) a = Some sp" "serve a s = Some s'"
  shows "(\<forall>b. b \<noteq> a \<longrightarrow> map_of (sd_peers s') b = map_of (sd_peers s) b)
    \<and> (case map_of (sd_peers s') a of None \<Rightarrow> True
       | Some sp' \<Rightarrow> c_out (p_Conn (sp_peer sp')) = c_out (p_Conn (sp_peer sp)) \<or>
           (\<exists>i b l d f. \<not> p_AmChoking (sp_peer sp) \<and> GetPieceData (uint i) pm = Some (Some d) \<and> good (unat i) d
              \<and> unat (b + l) \<le> length d
              \<and> frame 7 (be32 i @ be32 b @ take (unat (b + l) - unat b) (drop (unat b) d)) = Some f
              \<and> c_out (p_Conn (sp_peer sp')) = c_out (p_Conn (sp_peer sp)) @ [f]))"
proof -
  have inv: "seeder_inv s" "sd_blockServer s = GetBlock pm" using seeder_inv_reachable [OF assms(2)] by auto
  then have bs: "p_BlockServer (sp_peer sp) = Some (GetBlock pm)" using assms(3) by (auto simp: seeder_inv_def peer_inv_def)
  obtain r p where r: "read_message (sp_peer sp) = (r, p)" by fastforce
  note out = out_read [OF r]
  show ?thesis
  proof (cases r)
    case (Inl e)
    then have "s' = removePeer a s" using assms(3,4) r by (simp add: serve_def)
    then show ?thesis by (simp add: removePeer_def)
  next
    case (Inr msg)
    then obtain sp' where s: "serve_message msg (sp\<lparr>sp_peer := p\<rparr>) = Some sp'" "s' = addPeer a sp' s"
      using assms(3,4) r by (auto simp: serve_def)
    have p: "p_BlockServer p = Some (GetBlock pm)" "p_AmChoking p = p_AmChoking (sp_peer sp)"
      using fixed_read [OF r] bs by (auto simp: fixed_def)
    have "c_out (p_Conn (sp_peer sp')) = c_out (p_Conn p) \<or>
        (\<exists>i off len x f. \<not> p_AmChoking p \<and> GetBlock pm (uint i) off len = Some (Some x)
          \<and> frame 7 (be32 i @ be32 off @ x) = Some f \<and> c_out (p_Conn (sp_peer sp')) = c_out (p_Conn p) @ [f])"
    proof (cases "\<not> IsKeepAlive msg \<and> m_ID msg = 6")
      case True
      then obtain ok q where q: "HandleRequest (m_Payload msg) p = Some (ok, q)" "sp' = sp\<lparr>sp_peer := q\<rparr>"
        using s(1) by (auto simp: serve_message_def)
      from out_HandleRequest [OF q(1)] p(1) q(2) show ?thesis by auto
    next
      case False
      then show ?thesis using s(1) by (auto simp: serve_message_def split: if_splits)
    qed
    then have "c_out (p_Conn (sp_peer sp')) = c_out (p_Conn (sp_peer sp)) \<or>
           (\<exists>i b l d f. \<not> p_AmChoking (sp_peer sp) \<and> GetPieceData (uint i) pm = Some (Some d) \<and> good (unat i) d
              \<and> unat (b + l) \<le> length d
              \<and> frame 7 (be32 i @ be32 b @ take (unat (b + l) - unat b) (drop (unat b) d)) = Some f
              \<and> c_out (p_Conn (sp_peer sp')) = c_out (p_Conn (sp_peer sp)) @ [f])"
      using GetBlock_served [OF assms(1)] out p(2) by (metis unat_eq_nat_uint)
    then show ?thesis using s(2) by (simp add: addPeer_def)
  qed
qed

section \<open>Two peers\<close>

text \<open>A peer that speaks the extension protocol with \<open>ut_pex\<close>, and declares itself interested.\<close>

definition other_handshake :: "bytes \<Rightarrow> bytes \<Rightarrow> handshake" where
  "other_handshake h i = \<lparr>h_PstrLen = 19, h_Pstr = ProtocolString, h_Reserved = (replicate 8 0)[5 := 0x10], h_InfoHash = h, h_PeerID = i\<rparr>"

definition other_client :: "bytes \<Rightarrow> bytes \<Rightarrow> conn" where
  "other_client h i = \<lparr>c_in = 19 # ProtocolString @ (replicate 8 0)[5 := 0x10] @ h @ i
      @ the (frame 20 (0 # ascii ''d1:md6:ut_pexi1eee'')) @ the (frame 2 []), c_out = [], c_writes = 10\<rparr>"

definition two_peers :: "seeder_event list" where
  "two_peers = [Accepts (AddrPort (IPv4 [10, 0, 0, 1]) 1) (other_client (replicate 20 1) (replicate 20 2)),
     Handles (AddrPort (IPv4 [10, 0, 0, 1]) 1) (other_client (replicate 20 1) (replicate 20 2)), Serves (AddrPort (IPv4 [10, 0, 0, 1]) 1),
     Accepts (AddrPort (IPv4 [10, 0, 0, 2]) 2) (other_client (replicate 20 1) (replicate 20 3)),
     Handles (AddrPort (IPv4 [10, 0, 0, 2]) 2) (other_client (replicate 20 1) (replicate 20 3))]"

fun run_events :: "seeder_event list \<Rightarrow> seeder \<Rightarrow> seeder option" where
  "run_events [] s = Some s"
| "run_events (ev # evs) s = (case seeder_step ev s of None \<Rightarrow> None | Some s \<Rightarrow> run_events evs s)"

lemma run_reachable: "seeder_reachable s0 s \<Longrightarrow> list_all fair_event evs \<Longrightarrow> run_events evs s = Some s' \<Longrightarrow> seeder_reachable s0 s'"
  by (induction evs arbitrary: s) (auto split: option.splits intro: move)

lemma ext_decode: "Decode (ascii ''d1:md6:ut_pexi1eee'') = Inr (BDict [(ascii ''m'', BDict [(ascii ''ut_pex'', BInt 1)])])"
  by code_simp

lemma handshake_conn_other:
  assumes "length h = 20" "length i = 20" "i \<noteq> PeerID" "sd_infoHash s = h" "small (sd_bitfield s)"
  shows "\<exists>p. handshake_conn (other_client h i) s = Some (Some p) \<and> p_UtPexID p = 1 \<and> c_in (p_Conn p) = the (frame 2 []) \<and> 0 < c_writes (p_Conn p)"
proof -
  let ?e = "0 # ascii ''d1:md6:ut_pexi1eee''"
  let ?rest = "the (frame 20 ?e) @ the (frame 2 [])"
  let ?c = "other_client h i"
  have r: "read_full 68 ?c = (Some (19 # ProtocolString @ (replicate 8 0)[5 := 0x10] @ h @ i), ?c\<lparr>c_in := ?rest\<rparr>)"
    using assms(1,2) by (simp add: read_full_def other_client_def)
  have h: "readHandshake ?c = (Inr (other_handshake h i), ?c\<lparr>c_in := ?rest\<rparr>)"
    using assms(1,2) by (simp add: readHandshake_def r Let_def other_handshake_def)
  let ?c1 = "?c\<lparr>c_in := ?rest, c_out := [constructHandshakeMessage h True], c_writes := 9\<rparr>"
  have sh: "ServerHandshake ?c h = Inr (accepted_peer ?c1 i, other_handshake h i)"
    unfolding ServerHandshake_def h by (simp add: conn_write_def other_client_def other_handshake_def)
  obtain f where f: "frame 5 (sd_bitfield s) = Some f" using frame_small [OF assms(5)] by blast
  let ?p2 = "(accepted_peer ?c1 i)\<lparr>p_Conn := ?c1\<lparr>c_out := [constructHandshakeMessage h True, f], c_writes := 8\<rparr>\<rparr>"
  have bf: "SendBitfield (sd_bitfield s) (accepted_peer ?c1 i) = Some (True, ?p2)"
    by (simp add: SendBitfield_def SendOnly_def f write_bytes_def conn_write_def accepted_peer_def)
  have e: "small ?e" "small extension_payload" by (simp_all add: small_def extension_payload_def)
  obtain g where g: "frame 20 ?e = Some g" using frame_small [OF e(1)] by blast
  let ?p3 = "?p2\<lparr>p_Conn := ?c1\<lparr>c_in := the (frame 2 []), c_out := [constructHandshakeMessage h True, f, the (frame 20 extension_payload)], c_writes := 7\<rparr>\<rparr>"
  let ?w = "?p2\<lparr>p_Conn := ?c1\<lparr>c_out := [constructHandshakeMessage h True, f, the (frame 20 extension_payload)], c_writes := 7\<rparr>\<rparr>"
  have "write_bytes (the (frame 20 extension_payload)) ?p2 = (True, ?w)" by (simp add: write_bytes_def conn_write_def accepted_peer_def)
  moreover have "read_message ?w = (Inr \<lparr>m_Length = of_nat (length ?e + 1), m_ID = 20, m_Payload = ?e\<rparr>, ?p3)"
    using read_message_frame [OF g e(1), of ?w "the (frame 2 [])"] by (simp add: g)
  ultimately have "SendMessage 20 extension_payload ?p2 = Some (Inr \<lparr>m_Length = of_nat (length ?e + 1), m_ID = 20, m_Payload = ?e\<rparr>, ?p3)"
    using frame_small [OF e(2), of 20] by (simp add: SendMessage_def)
  moreover have "\<exists>x. parseExtensionHandshake ?e = Some (Inr x) \<and> UtPexID x = 1"
    by (simp add: parseExtensionHandshake_def ext_decode int_entries_def int_at_def List.map_filter_def)
  ultimately obtain x where "ExtensionHandshake ?p2 = Some (Inr x, ?p3)" "UtPexID x = 1" by (auto simp: ExtensionHandshake_def)
  then have "seed_extensions (other_handshake h i) ?p2 = Some (?p3\<lparr>p_UtPexID := 1\<rparr>)" by (simp add: seed_extensions_def other_handshake_def)
  then show ?thesis using sh bf assms(3,4) by (simp add: handshake_conn_def) (simp add: accepted_peer_def)
qed

text \<open>The two peers connect; the first has sent its message. The pieces served are those of \<open>pm\<close>.\<close>

definition sample_seeder :: "block_server \<Rightarrow> seeder" where
  "sample_seeder bs = New_seeder (replicate 20 1) 1 bs [0x80] DefaultSeederConfig"

lemma two_peers_connected:
  obtains s where "run_events two_peers (sample_seeder bs) = Some s" "map fst (sd_peers s) = [AddrPort (IPv4 [10, 0, 0, 1]) 1, AddrPort (IPv4 [10, 0, 0, 2]) 2]"
    "list_all (\<lambda>e. sp_pexing (snd e)) (sd_peers s)" "interested_peers s = [AddrPort (IPv4 [10, 0, 0, 1]) 1]"
proof -
  let ?a1 = "AddrPort (IPv4 [10, 0, 0, 1]) 1" and ?a2 = "AddrPort (IPv4 [10, 0, 0, 2]) 2"
  let ?c1 = "other_client (replicate 20 1) (replicate 20 2)" and ?c2 = "other_client (replicate 20 1) (replicate 20 3)"
  let ?s = "sample_seeder bs" let ?s1 = "?s\<lparr>sd_pending := []\<rparr>"
  have PeerID: "hd PeerID = 0x6C" by (simp add: PeerID_def ascii_def)
  have "replicate 20 x \<noteq> PeerID" if "x \<noteq> 0x6C" for x
  proof -
    have "hd (replicate 20 x) = x" by simp
    then show ?thesis using that PeerID by metis
  qed
  then have ids: "replicate 20 2 \<noteq> PeerID" "replicate 20 3 \<noteq> PeerID" by simp_all
  have sm: "small [0x80]" "small []" by (simp_all add: small_def)
  obtain p1 where p1: "handshake_conn ?c1 ?s1 = Some (Some p1)" "p_UtPexID p1 = 1" "c_in (p_Conn p1) = the (frame 2 [])" "0 < c_writes (p_Conn p1)"
    using handshake_conn_other [of "replicate 20 1" "replicate 20 2" ?s1] ids sm by (auto simp: sample_seeder_def New_seeder_def)
  let ?sp1 = "\<lparr>sp_peer = p1, sp_interested = False, sp_lastSent = [], sp_pexing = True\<rparr>"
  obtain g where g: "frame 2 [] = Some g" using frame_small [OF sm(2)] by blast
  obtain m q where r: "read_message p1 = (Inr m, q)" "m_ID m = 2" "\<not> IsKeepAlive m"
    using read_message_frame [OF g sm(2), of p1 "[]"] p1(3) g ReadMessage_frame(2) [OF g sm(2), of "\<lparr>c_in = g, c_out = [], c_writes = 0\<rparr>" "[]"]
    by (auto simp: IsKeepAlive_def)
  let ?sp1' = "\<lparr>sp_peer = q, sp_interested = True, sp_lastSent = [], sp_pexing = True\<rparr>"
  let ?s2 = "?s1\<lparr>sd_peers := [(?a1, ?sp1')]\<rparr>"
  obtain p2 where p2: "handshake_conn ?c2 ?s2 = Some (Some p2)" "p_UtPexID p2 = 1"
    using handshake_conn_other [of "replicate 20 1" "replicate 20 3" ?s2] ids sm by (auto simp: sample_seeder_def New_seeder_def)
  let ?sp2 = "\<lparr>sp_peer = p2, sp_interested = False, sp_lastSent = [], sp_pexing = True\<rparr>"
  have lt: "?a1 < ?a2" by (simp add: less_addrport_def less_addr_def)
  have "run_events two_peers ?s = Some (?s2\<lparr>sd_peers := [(?a1, ?sp1'), (?a2, ?sp2)]\<rparr>)"
    using lt p1 p2 r by (simp add: two_peers_def acceptConn_def handleConn_def addPeer_def serve_def serve_message_def
      sample_seeder_def New_seeder_def DefaultSeederConfig_def)
  then show thesis by (rule that) (simp_all add: interested_peers_def)
qed

lemma two_peers_reachable:
  assumes "run_events two_peers (sample_seeder bs) = Some s"
  shows "seeder_reachable (New_seeder (replicate 20 1) 1 bs [0x80] DefaultSeederConfig) s"
proof -
  have "list_all fair_event two_peers" by (simp add: two_peers_def fair_event_def)
  then show ?thesis using run_reachable [OF start _ assms] by (simp add: sample_seeder_def)
qed

theorem choker_spec_witness:
  "\<exists>s s'. run_events two_peers (sample_seeder (GetBlock sample_manager)) = Some s \<and> tick rev s = Some s'
    \<and> unchoked s' = {AddrPort (IPv4 [10, 0, 0, 1]) 1}"
proof -
  obtain s where s: "run_events two_peers (sample_seeder (GetBlock sample_manager)) = Some s"
      "map fst (sd_peers s) = [AddrPort (IPv4 [10, 0, 0, 1]) 1, AddrPort (IPv4 [10, 0, 0, 2]) 2]"
      "list_all (\<lambda>e. sp_pexing (snd e)) (sd_peers s)" "interested_peers s = [AddrPort (IPv4 [10, 0, 0, 1]) 1]"
    by (rule two_peers_connected)
  have "mset (rev l) = mset l" for l :: "addrport list" by simp
  from choker_spec [OF two_peers_reachable [OF s(1)] this] obtain s' where
    "tick rev s = Some s'" "unchoked s' = set (take (nat (UnchokeSlots DefaultSeederConfig)) (rev (interested_peers s)))"
    using s(4) by auto
  then have "unchoked s' = {AddrPort (IPv4 [10, 0, 0, 1]) 1}" unfolding s(4) by (simp add: DefaultSeederConfig_def)
  with s(1) \<open>tick rev s = Some s'\<close> show ?thesis by blast
qed

theorem seeder_serves_good_witness:
  "\<exists>s sp. run_events two_peers (sample_seeder (GetBlock sample_manager)) = Some s
    \<and> map_of (sd_peers s) (AddrPort (IPv4 [10, 0, 0, 2]) 2) = Some sp
    \<and> (\<forall>s'. serve (AddrPort (IPv4 [10, 0, 0, 2]) 2) s = Some s' \<longrightarrow>
        map_of (sd_peers s') (AddrPort (IPv4 [10, 0, 0, 1]) 1) = map_of (sd_peers s) (AddrPort (IPv4 [10, 0, 0, 1]) 1))"
proof -
  obtain s where s: "run_events two_peers (sample_seeder (GetBlock sample_manager)) = Some s"
      "map fst (sd_peers s) = [AddrPort (IPv4 [10, 0, 0, 1]) 1, AddrPort (IPv4 [10, 0, 0, 2]) 2]"
      "list_all (\<lambda>e. sp_pexing (snd e)) (sd_peers s)" "interested_peers s = [AddrPort (IPv4 [10, 0, 0, 1]) 1]"
    by (rule two_peers_connected)
  from s(2,3) obtain sp where "map_of (sd_peers s) (AddrPort (IPv4 [10, 0, 0, 2]) 2) = Some sp" by (auto simp: map_eq_Cons_conv)
  with seeder_serves_good [OF sample_manager_reachable two_peers_reachable [OF s(1)] this] s(1) show ?thesis by auto
qed

section \<open>PEX\<close>

text \<open>C40: PEX ends the seeder. The peers of accepted connections have no address, so as soon as two peers are connected, the next tick of
  the PEX loop of either of them panics, and the process ends; with one peer a tick does nothing.\<close>

theorem seeder_pex_panics:
  assumes "seeder_reachable (New_seeder infoHash n bs bf cfg) s" "map_of (sd_peers s) a = Some sp" "sp_pexing sp"
    and "fair_event (PexTicks order order' a)"
  shows "seeder_step (PexTicks order order' a) s = (if length (sd_peers s) \<ge> 2 then None else Some s)"
proof -
  have inv: "seeder_inv s" using seeder_inv_reachable [OF assms(1)] by simp
  have "pexSend order order' a s = (if dict_del a (sd_peers s) = [] then Some s else None)"
    using pexSend_cases [OF inv assms(2,3)] assms(4) by (simp add: fair_event_def)
  moreover have "dict_del a (sd_peers s) = [] \<longleftrightarrow> \<not> length (sd_peers s) \<ge> 2"
  proof -
    have d: "distinct (map fst (sd_peers s))" using inv by (simp add: seeder_inv_def sorted_dict_distinct)
    have "a \<in> fst ` set (sd_peers s)" using assms(2) by (metis map_of_eq_None_iff option.distinct(1))
    then show ?thesis using d by (cases "sd_peers s" rule: list.exhaust; cases "tl (sd_peers s)") (auto simp: dict_del_def)
  qed
  ultimately show ?thesis by simp
qed

theorem seeder_pex_panics_witness:
  "\<exists>s. run_events two_peers (sample_seeder (GetBlock sample_manager)) = Some s \<and> length (sd_peers s) = 2
    \<and> seeder_step (PexTicks id id (AddrPort (IPv4 [10, 0, 0, 1]) 1)) s = None"
proof -
  obtain s where s: "run_events two_peers (sample_seeder (GetBlock sample_manager)) = Some s"
      "map fst (sd_peers s) = [AddrPort (IPv4 [10, 0, 0, 1]) 1, AddrPort (IPv4 [10, 0, 0, 2]) 2]"
      "list_all (\<lambda>e. sp_pexing (snd e)) (sd_peers s)" "interested_peers s = [AddrPort (IPv4 [10, 0, 0, 1]) 1]"
    by (rule two_peers_connected)
  from s(2,3) obtain sp where sp: "map_of (sd_peers s) (AddrPort (IPv4 [10, 0, 0, 1]) 1) = Some sp" "sp_pexing sp" by (auto simp: map_eq_Cons_conv)
  have "length (sd_peers s) = 2" using s(2) by (metis length_map list.size(3,4) numeral_2_eq_2 One_nat_def add_Suc_right add_0_right)
  then show ?thesis
    using seeder_pex_panics [OF two_peers_reachable [OF s(1)] sp, of id id] s(1) by (simp add: fair_event_def)
qed

end
