(* ===== verification/Downloader.thy ===== *)
theory Downloader
  imports Worker Metadata Tracker
begin

text \<open>
  A download from beginning to end: \<open>downloader.go\<close>, \<open>config.go\<close> and \<open>tracker_updater.go\<close> of
  \<open>internal/downloader\<close>. The workers themselves are in \<^theory_text>\<open>Worker\<close>.
\<close>

section \<open>Configuration\<close>

text \<open>The tracker is a parameter; timeouts are in seconds.\<close>

record 't download_config =
  MaxWorkers :: int
  MaxRetries :: int
  PipelineDepth :: int
  Timeout :: int
  PieceSelector :: "selector option"
  cfg_Tracker :: "'t option"
  AnnounceReq :: announce_request
  AnnounceInterval :: int
  StorageDir :: bytes

definition no_request :: announce_request where
  "no_request = \<lparr>a_InfoHash = replicate 20 0, a_PeerID = replicate 20 0, a_IP = 0, a_Port = 0, a_Uploaded = 0,
     a_Downloaded = 0, a_Left = 0, a_Event = 0\<rparr>"

text \<open>\<open>rnd\<close>: the random number source of the selector.\<close>

definition DefaultDownloadConfig :: "nat \<Rightarrow> 't download_config" where
  "DefaultDownloadConfig rnd = \<lparr>MaxWorkers = 50, MaxRetries = 3, PipelineDepth = 0, Timeout = 3000,
     PieceSelector = Some (RarestFirstSelector rnd), cfg_Tracker = None, AnnounceReq = no_request, AnnounceInterval = 0, StorageDir = []\<rparr>"

definition WithMaxWorkers :: "int \<Rightarrow> 't download_config \<Rightarrow> 't download_config" where
  "WithMaxWorkers n c = (if n > 0 then c\<lparr>MaxWorkers := n\<rparr> else c)"

definition WithMaxRetries :: "int \<Rightarrow> 't download_config \<Rightarrow> 't download_config" where
  "WithMaxRetries n c = (if n > 0 then c\<lparr>MaxRetries := n\<rparr> else c)"

definition WithPieceSelector :: "selector \<Rightarrow> 't download_config \<Rightarrow> 't download_config" where
  "WithPieceSelector s c = c\<lparr>PieceSelector := Some s\<rparr>"

definition WithTracker :: "'t \<Rightarrow> announce_request \<Rightarrow> 't download_config \<Rightarrow> 't download_config" where
  "WithTracker tr req c = c\<lparr>cfg_Tracker := Some tr, AnnounceReq := req\<rparr>"

definition WithAnnounceInterval :: "int \<Rightarrow> 't download_config \<Rightarrow> 't download_config" where
  "WithAnnounceInterval d c = c\<lparr>AnnounceInterval := d\<rparr>"

definition WithStorageDir :: "bytes \<Rightarrow> 't download_config \<Rightarrow> 't download_config" where
  "WithStorageDir dir c = c\<lparr>StorageDir := dir\<rparr>"

section \<open>Starting\<close>

text \<open>Piece lengths are 32-bit numbers: the last one is the rest, computed modulo \<open>2 ^ 32\<close>.\<close>

definition piece_infos :: "torrent_info \<Rightarrow> bytes list \<Rightarrow> piece_info list" where
  "piece_infos info pieceHashes =
     (let numPieces = length pieceHashes;
          pieceLength = word_of_int (i_PieceLength info) :: u32
      in map (\<lambda>i. \<lparr>pi_Index = i, pi_Hash = pieceHashes ! i,
             pi_Length = (if i = numPieces - 1 then word_of_int (i_Length info) - pieceLength * of_nat (numPieces - 1) else pieceLength)\<rparr>)
           [0..<numPieces])"

text \<open>
  \<open>Download\<close> up to the start of the goroutines. \<open>made\<close> and \<open>fs\<close>: whether the storage directory could be
  made, and what is in it; without a store the download goes on. \<open>rest\<close> is what follows \<open>Pieces\<close> in memory
  (see \<^theory_text>\<open>Metainfo\<close>). \<open>None\<close> is a panic.
\<close>

definition open_store :: "'t download_config \<Rightarrow> bool \<Rightarrow> files \<Rightarrow> nat \<Rightarrow> torrent_info \<Rightarrow> disk_store option" where
  "open_store cfg made fs numPieces info =
     (if StorageDir cfg = [] then None
      else case NewDiskStore made fs numPieces (uint (word_of_int (i_PieceLength info) :: u32)) (i_Length info) of
             Inl e \<Rightarrow> None
           | Inr ds \<Rightarrow> Some ds)"

definition start_download ::
    "'t download_config \<Rightarrow> bool \<Rightarrow> files \<Rightarrow> bytes \<Rightarrow> torrent_info \<Rightarrow> (string \<times> addrport) list \<Rightarrow> swarm option" where
  "start_download cfg made fs rest info peers =
     map_option (\<lambda>pieceHashes.
        let pieces = piece_infos info pieceHashes;
            store = open_store cfg made fs (length pieceHashes) info;
            numWorkers = min (MaxWorkers cfg) (int (length peers))
        in start_swarm numWorkers (NewPieceManager pieces numWorkers store) (i_InfoHash info) peers)
       (PieceHashes rest info)"

definition pick_selector :: "nat \<Rightarrow> 't download_config \<Rightarrow> selector" where
  "pick_selector rnd cfg = (case PieceSelector cfg of None \<Rightarrow> RarestFirstSelector rnd | Some s \<Rightarrow> s)"

section \<open>Announcing progress\<close>

record 't tracker_updater =
  tu_tracker :: 't
  tu_announceReq :: announce_request
  tu_totalLength :: int
  tu_pieceLength :: int

definition NewTrackerUpdater :: "'t \<Rightarrow> announce_request \<Rightarrow> int \<Rightarrow> int \<Rightarrow> 't tracker_updater" where
  "NewTrackerUpdater tr req totalLength pieceLength =
     \<lparr>tu_tracker = tr, tu_announceReq = req, tu_totalLength = totalLength, tu_pieceLength = pieceLength\<rparr>"

definition computeLeft :: "piece_manager \<Rightarrow> 't tracker_updater \<Rightarrow> u64 \<times> u64" where
  "computeLeft pm tu =
     (let completed = fst (Progress pm);
          total = word_of_int (tu_totalLength tu);
          downloadedBytes = of_nat completed * word_of_int (tu_pieceLength tu);
          downloadedBytes = (if downloadedBytes > total then total else downloadedBytes)
      in (downloadedBytes, total - downloadedBytes))"

text \<open>\<open>announce\<close>: one call of the tracker. An update gives the new interval in nanoseconds, zero after an error.\<close>

type_synonym 't announcer = "announce_request \<Rightarrow> 't \<Rightarrow> (tracker_error + announce_response) \<times> 't"

definition sendUpdate :: "'t announcer \<Rightarrow> piece_manager \<Rightarrow> 't tracker_updater \<Rightarrow> int \<times> announce_request \<times> 't tracker_updater" where
  "sendUpdate announce pm tu =
     (let (downloaded, left) = computeLeft pm tu;
          req = (tu_announceReq tu)\<lparr>a_Event := EventNone, a_Downloaded := downloaded, a_Left := left\<rparr>
      in case announce req (tu_tracker tu) of
           (Inl e, tr) \<Rightarrow> (0, req, tu\<lparr>tu_tracker := tr\<rparr>)
         | (Inr resp, tr) \<Rightarrow> (r_Interval resp, req, tu\<lparr>tu_tracker := tr\<rparr>))"

definition sendCompleted :: "'t announcer \<Rightarrow> 't tracker_updater \<Rightarrow> announce_request \<times> 't tracker_updater" where
  "sendCompleted announce tu =
     (let req = (tu_announceReq tu)\<lparr>a_Event := EventCompleted, a_Downloaded := word_of_int (tu_totalLength tu), a_Left := 0\<rparr>
      in (req, tu\<lparr>tu_tracker := snd (announce req (tu_tracker tu))\<rparr>))"

definition sendStopped :: "'t announcer \<Rightarrow> piece_manager \<Rightarrow> 't tracker_updater \<Rightarrow> announce_request \<times> 't tracker_updater" where
  "sendStopped announce pm tu =
     (let (downloaded, left) = computeLeft pm tu;
          req = (tu_announceReq tu)\<lparr>a_Event := EventStopped, a_Downloaded := downloaded, a_Left := left\<rparr>
      in (req, tu\<lparr>tu_tracker := snd (announce req (tu_tracker tu))\<rparr>))"

text \<open>
  \<open>Run\<close>: a list of wake-ups, each with the state of the piece manager then; the requests sent and the interval
  of the ticker afterwards. It ends at the first cancellation or completion.
\<close>

datatype wake_up = Cancelled piece_manager | Completed_all | Ticked piece_manager

fun updater_loop :: "'t announcer \<Rightarrow> int \<Rightarrow> wake_up list \<Rightarrow> 't tracker_updater \<Rightarrow> announce_request list \<times> int" where
  "updater_loop announce interval [] tu = ([], interval)"
| "updater_loop announce interval (w # ws) tu =
     (case w of
        Cancelled pm \<Rightarrow> ([fst (sendStopped announce pm tu)], interval)
      | Completed_all \<Rightarrow> ([fst (sendCompleted announce tu)], interval)
      | Ticked pm \<Rightarrow>
          (let (newInterval, req, tu) = sendUpdate announce pm tu;
               (reqs, i) = updater_loop announce (if newInterval > 0 \<and> newInterval \<noteq> interval then newInterval else interval) ws tu
           in (req # reqs, i)))"

definition updater_run :: "'t announcer \<Rightarrow> int \<Rightarrow> wake_up list \<Rightarrow> 't tracker_updater \<Rightarrow> announce_request list \<times> int" where
  "updater_run announce interval ws tu = updater_loop announce (if interval \<le> 0 then 1800 * Second else interval) ws tu"

section \<open>Saving the files\<close>

text \<open>
  A cleaned path: whether it is rooted, and its elements. \<open>clean\<close> goes through the elements between slashes as
  \<open>filepath.Clean\<close> does: empty ones and \<open>.\<close> are dropped, \<open>..\<close> takes the last element away, or stays at the front of a path that is not rooted.
\<close>

type_synonym path = "bool \<times> bytes list"

fun split_slash :: "bytes \<Rightarrow> bytes list" where
  "split_slash [] = [[]]"
| "split_slash (c # cs) =
     (if c = 0x2F then [] # split_slash cs
      else (case split_slash cs of e # es \<Rightarrow> (c # e) # es | [] \<Rightarrow> [[c]]))"

definition dot :: bytes where "dot = [0x2E]"
definition dotdot :: bytes where "dotdot = [0x2E, 0x2E]"

definition clean_step :: "bool \<Rightarrow> bytes list \<Rightarrow> bytes \<Rightarrow> bytes list" where
  "clean_step rooted es e =
     (if e = [] \<or> e = dot then es
      else if e = dotdot
      then (if es \<noteq> [] \<and> last es \<noteq> dotdot then butlast es else if rooted then es else es @ [dotdot])
      else es @ [e])"

definition clean_path :: "bytes \<Rightarrow> path" where
  "clean_path s = (let rooted = (s \<noteq> [] \<and> hd s = 0x2F) in (rooted, foldl (clean_step rooted) [] (split_slash s)))"

text \<open>\<open>Join\<close> on a clean first element, and \<open>Dir\<close>.\<close>

definition join_path :: "path \<Rightarrow> bytes list \<Rightarrow> path" where
  "join_path p elems = (fst p, foldl (clean_step (fst p)) (snd p) (concat (map split_slash elems)))"

definition dir_of :: "bytes \<Rightarrow> path" where
  "dir_of s = clean_path (rev (dropWhile (\<lambda>c. c \<noteq> 0x2F) (rev s)))"

definition dir_path :: "path \<Rightarrow> path" where
  "dir_path p = (fst p, butlast (snd p))"

datatype save_error = MkdirFailed path | WriteFailed path

text \<open>
  What can fail: making the directory of a path, and writing a file; a write that fails may leave part of the data.
  The slice of the data may reach into \<open>spare\<close>, the rest of its capacity.
\<close>

record save_io =
  io_mkdir :: "path \<Rightarrow> bool"
  io_write :: "path \<Rightarrow> nat option"

definition write_whole :: "save_io \<Rightarrow> path \<Rightarrow> bytes \<Rightarrow> (path \<Rightarrow> bytes option) \<Rightarrow> (save_error + unit) \<times> (path \<Rightarrow> bytes option)" where
  "write_whole io p content fs =
     (case io_write io p of
        None \<Rightarrow> (Inr (), fs(p \<mapsto> content))
      | Some k \<Rightarrow> (Inl (WriteFailed p), fs(p \<mapsto> take k content)))"

fun save_files ::
    "save_io \<Rightarrow> path \<Rightarrow> bytes \<Rightarrow> bytes \<Rightarrow> int \<Rightarrow> file_info list \<Rightarrow> (path \<Rightarrow> bytes option)
      \<Rightarrow> ((save_error + unit) \<times> (path \<Rightarrow> bytes option)) option" where
  "save_files io baseDir content spare offset [] fs = Some (Inr (), fs)"
| "save_files io baseDir content spare offset (f # files) fs =
     (let filePath = join_path baseDir (f_Path f); parentDir = dir_path filePath
      in if \<not> io_mkdir io parentDir then Some (Inl (MkdirFailed parentDir), fs)
         else let end_offset = wrap64 (offset + f_Length f)
              in if offset < 0 \<or> end_offset < offset \<or> end_offset > int (length content + length spare) then None
                 else (case write_whole io filePath (take (nat (end_offset - offset)) (drop (nat offset) (content @ spare))) fs of
                         (Inl e, fs) \<Rightarrow> Some (Inl e, fs)
                       | (Inr _, fs) \<Rightarrow> save_files io baseDir content spare end_offset files fs))"

definition SaveFile ::
    "save_io \<Rightarrow> torrent_info \<Rightarrow> bytes \<Rightarrow> bytes \<Rightarrow> bytes \<Rightarrow> (path \<Rightarrow> bytes option) \<Rightarrow> ((save_error + unit) \<times> (path \<Rightarrow> bytes option)) option" where
  "SaveFile io info downloadPath content spare fs =
     (if IsSingleFile info then Some (write_whole io (clean_path downloadPath) content fs)
      else let baseDir = join_path (dir_of downloadPath) [i_Name info]
           in if \<not> io_mkdir io baseDir then Some (Inl (MkdirFailed baseDir), fs)
              else save_files io baseDir content spare 0 (GetFiles info) fs)"

section \<open>Magnet links\<close>

datatype magnet_error = MagnetHash | MagnetTracker tracker_error | MagnetDial | MagnetHandshakeFailed peer_error | MagnetBitfield peer_error

text \<open>
  \<open>ConnectToMagnetPeer\<close>: \<open>xt\<close> and \<open>tr\<close> are the query values of the link, \<open>new\<close> makes the trackers, \<open>ask\<close> announces
  to one of them and \<open>dial\<close> connects. The first peer is taken from the answer without a look at its length.
\<close>

definition magnet_request :: "bytes \<Rightarrow> announce_request" where
  "magnet_request infoHash = no_request\<lparr>a_InfoHash := infoHash\<rparr>"

definition magnet_peer :: "addrport \<Rightarrow> conn \<Rightarrow> peer_state" where
  "magnet_peer ap c = \<lparr>p_AddrPort = ap, p_ID = replicate 20 0, p_Conn = c, p_Choked = False, p_BitField = [],
     p_BlockServer = None, p_AmChoking = False, p_UtPexID = 0, p_OnPEX = False, p_pex_received = []\<rparr>"

definition ConnectToMagnetPeer ::
    "bytes list \<Rightarrow> bytes list \<Rightarrow> (bytes \<Rightarrow> (tracker_error + 't) run) \<Rightarrow> (announce_request \<Rightarrow> 't \<Rightarrow> ((tracker_error + announce_response) \<times> 't) run)
      \<Rightarrow> (addrport \<Rightarrow> conn option) \<Rightarrow> (magnet_error + (peer_state \<times> magnet_link)) run" where
  "ConnectToMagnetPeer xt tr new ask dial =
     (case DeserializeMagnet xt tr of
        None \<Rightarrow> Panics
      | Some None \<Rightarrow> Done (Inl MagnetHash)
      | Some (Some magnet) \<Rightarrow>
          (case NewMultiTracker new (mg_TrackerURLs magnet) of
             Waiting \<Rightarrow> Waiting
           | Panics \<Rightarrow> Panics
           | Done (Inl e) \<Rightarrow> Done (Inl (MagnetTracker e))
           | Done (Inr trackers) \<Rightarrow>
               (case try_trackers (ask (magnet_request (mg_InfoHash magnet))) trackers None of
                  Waiting \<Rightarrow> Waiting
                | Panics \<Rightarrow> Panics
                | Done (Inl e, _) \<Rightarrow> Done (Inl (MagnetTracker e))
                | Done (Inr ann, _) \<Rightarrow>
                    (case r_Peers ann of
                       [] \<Rightarrow> Panics
                     | ap # _ \<Rightarrow>
                         (case dial ap of
                            None \<Rightarrow> Done (Inl MagnetDial)
                          | Some c \<Rightarrow>
                              (case MagnetHandshake (mg_InfoHash magnet) (magnet_peer ap c) of
                                 (Inl e, p) \<Rightarrow> Done (Inl (MagnetHandshakeFailed e))
                               | (Inr h, p) \<Rightarrow>
                                   (case ReadBitfield p of
                                      (Inl e, p) \<Rightarrow> Done (Inl (MagnetBitfield e))
                                    | (Inr m, p) \<Rightarrow> Done (Inr (p, magnet)))))))))"

section \<open>The lengths of the pieces\<close>

lemma uint_of_small: "0 \<le> n \<Longrightarrow> n < 2 ^ 32 \<Longrightarrow> uint (word_of_int n :: u32) = n"
  by (simp add: uint_word_of_int)

lemma piece_infos_length:
  assumes "0 < i_PieceLength info" "i_PieceLength info < 2 ^ 32" "i < length hs"
    and "i_PieceLength info * int (length hs - 1) < i_Length info" "i_Length info \<le> i_PieceLength info * int (length hs)"
  shows "uint (pi_Length (piece_infos info hs ! i))
    = (if i = length hs - 1 then i_Length info - i_PieceLength info * int (length hs - 1) else i_PieceLength info)"
proof (cases "i = length hs - 1")
  case True
  have "i_PieceLength info * int (length hs) = i_PieceLength info * int (length hs - 1) + i_PieceLength info"
    using assms(3) by (cases "length hs") (simp_all add: algebra_simps)
  then have "uint (word_of_int (i_Length info - i_PieceLength info * int (length hs - 1)) :: u32)
      = i_Length info - i_PieceLength info * int (length hs - 1)"
    using assms by (intro uint_of_small) linarith+
  then show ?thesis using True assms(3) by (simp add: piece_infos_def Let_def of_int_diff)
next
  case False
  then show ?thesis using assms uint_of_small [of "i_PieceLength info"] by (simp add: piece_infos_def Let_def)
qed

text \<open>The pieces of a torrent. When the piece length and the total length fit the number of hashes, every piece has its
  index and its hash, all but the last have the piece length, and the lengths add up to the total; this
  holds also for torrents of 4 GiB and more, although every length is computed in 32 bits.\<close>

theorem piece_infos_spec:
  assumes "0 < i_PieceLength info" "i_PieceLength info < 2 ^ 32" "hs \<noteq> []"
    and "i_PieceLength info * int (length hs - 1) < i_Length info" "i_Length info \<le> i_PieceLength info * int (length hs)"
  shows "map pi_Index (piece_infos info hs) = [0..<length hs] \<and> map pi_Hash (piece_infos info hs) = hs
    \<and> list_all (\<lambda>p. uint (pi_Length p) = i_PieceLength info) (butlast (piece_infos info hs))
    \<and> sum_list (map (uint \<circ> pi_Length) (piece_infos info hs)) = i_Length info"
proof -
  let ?p = "piece_infos info hs" and ?n = "length hs"
  have l: "length ?p = ?n" by (simp add: piece_infos_def Let_def)
  then have ne: "?p \<noteq> []" using assms(3) by auto
  note u = piece_infos_length [OF assms(1,2) _ assms(4,5)]
  have b: "butlast (map (uint \<circ> pi_Length) ?p) = replicate (?n - 1) (i_PieceLength info)"
    by (rule nth_equalityI) (simp_all add: l nth_butlast u)
  have "sum_list (map (uint \<circ> pi_Length) ?p) = sum_list (butlast (map (uint \<circ> pi_Length) ?p) @ [last (map (uint \<circ> pi_Length) ?p)])"
    using l assms(3) by (subst append_butlast_last_id) auto
  also have "last (map (uint \<circ> pi_Length) ?p) = uint (pi_Length (?p ! (?n - 1)))" by (subst last_conv_nth) (use ne l assms(3) in simp_all)
  also have "\<dots> = i_Length info - i_PieceLength info * int (?n - 1)" using u [of "?n - 1"] assms(3) by simp
  finally have "sum_list (map (uint \<circ> pi_Length) ?p) = i_Length info" unfolding b by (simp add: sum_list_replicate o_def)
  moreover have "map uint (map pi_Length (butlast ?p)) = replicate (?n - 1) (i_PieceLength info)" using b by (simp add: map_butlast)
  then have "list_all (\<lambda>p. uint (pi_Length p) = i_PieceLength info) (butlast ?p)"
  proof -
    have "set (map uint (map pi_Length (butlast ?p))) \<subseteq> {i_PieceLength info}"
      unfolding \<open>map uint (map pi_Length (butlast ?p)) = replicate (?n - 1) (i_PieceLength info)\<close> by auto
    then show ?thesis by (auto simp: list_all_iff)
  qed
  moreover have "map pi_Index ?p = [0..<?n]" "map pi_Hash ?p = hs"
    by (simp_all add: piece_infos_def Let_def o_def map_nth)
  ultimately show ?thesis by blast
qed

theorem piece_infos_spec_witness:
  "sum_list (map (uint \<circ> pi_Length) (piece_infos \<lparr>i_Length = 5, i_Name = [], i_PieceLength = 4, i_Pieces = [], i_InfoHash = [], i_Files = []\<rparr> [[1], [2]])) = 5"
  using piece_infos_spec [of "\<lparr>i_Length = 5, i_Name = [], i_PieceLength = 4, i_Pieces = [], i_InfoHash = [], i_Files = []\<rparr>" "[[1], [2]]"] by simp

section \<open>From the torrent to the bytes\<close>

text \<open>A download gives the torrent's bytes. The pieces are those the info dictionary lists; a start without a
  usable store is a reachable swarm, and from every reachable swarm in which all pieces are complete the bytes handed out are pieces
  whose SHA-1 hashes, put together, are exactly the \<open>pieces\<close> string of the torrent, each at its place.\<close>

theorem download_matches_torrent:
  assumes "length (i_Pieces info) mod 20 = 0"
  shows "\<exists>hs. PieceHashes rest info = Some hs
    \<and> (start_download cfg made fs rest info peers = Some s0 \<longrightarrow> StorageDir cfg = [] \<or> \<not> made \<longrightarrow>
         swarm_reachable (piece_infos info hs) (i_InfoHash info) s0)
    \<and> (swarm_reachable (piece_infos info hs) (i_InfoHash info) s \<longrightarrow> IsFinished (sh_pm (sw_shared s)) \<longrightarrow>
         (\<exists>ps. collectResults (sh_pm (sw_shared s)) = Inr (concat ps) \<and> concat (map HashPiece ps) = i_Pieces info \<and> length ps = length hs))"
proof -
  obtain n where n: "length (i_Pieces info) = 20 * n" using assms by (metis mod_0_imp_dvd dvdE)
  obtain hs where hs: "PieceHashes rest info = Some hs" "concat hs = i_Pieces info"
    using PieceHashes_whole [of info rest] assms by blast
  have pi: "map pi_Hash (piece_infos info hs) = hs" "length (piece_infos info hs) = length hs"
      "\<And>i. i < length (piece_infos info hs) \<Longrightarrow> pi_Index (piece_infos info hs ! i) = i"
    by (simp_all add: piece_infos_def Let_def o_def map_nth)
  have "swarm_reachable (piece_infos info hs) (i_InfoHash info) s0"
    if "start_download cfg made fs rest info peers = Some s0" "StorageDir cfg = [] \<or> \<not> made"
    using that by (auto simp: start_download_def hs(1) Let_def open_store_def NewDiskStore_def intro: swarm_reachable.fresh)
  moreover have "\<exists>ps. collectResults (sh_pm (sw_shared s)) = Inr (concat ps) \<and> concat (map HashPiece ps) = i_Pieces info \<and> length ps = length hs"
    if r: "swarm_reachable (piece_infos info hs) (i_InfoHash info) s" and f: "IsFinished (sh_pm (sw_shared s))"
  proof -
    obtain ps where ps: "collectResults (sh_pm (sw_shared s)) = Inr (concat ps)" "map HashPiece ps = map pi_Hash (piece_infos info hs)"
      using download_hashes [OF r pi(3) f] by blast
    then have "map HashPiece ps = hs" using pi(1) by simp
    moreover then have "length ps = length hs" by (metis length_map)
    ultimately show ?thesis using ps(1) hs(2) by auto
  qed
  ultimately show ?thesis using hs(1) by blast
qed

theorem download_matches_torrent_witness:
  "\<exists>ps. collectResults (sh_pm (sw_shared (start_swarm 0 (NewPieceManager [] 0 None) [] []))) = Inr (concat ps) \<and> map HashPiece ps = []"
proof -
  let ?info = "\<lparr>i_Length = 0, i_Name = [], i_PieceLength = 4, i_Pieces = [], i_InfoHash = [], i_Files = []\<rparr>"
  let ?cfg = "DefaultDownloadConfig 0 :: unit download_config"
  let ?s = "start_swarm 0 (NewPieceManager [] 0 None) [] []"
  have h: "PieceHashes [] ?info = Some []" by (simp add: PieceHashes_def)
  have s: "start_download ?cfg True Map.empty [] ?info [] = Some ?s"
    by (simp add: start_download_def h piece_infos_def open_store_def DefaultDownloadConfig_def)
  have f: "IsFinished (sh_pm (sw_shared ?s))" by (simp add: IsFinished_def start_swarm_def NewPieceManager_def)
  have "length (i_Pieces ?info) mod 20 = 0" by simp
  from download_matches_torrent [OF this, of "[]" ?cfg True Map.empty "[]" ?s ?s] h s f
  show ?thesis by (auto simp: DefaultDownloadConfig_def)
qed

section \<open>What the tracker is told\<close>

lemma computeLeft_spec:
  assumes "0 \<le> tu_totalLength tu" "tu_totalLength tu < 2 ^ 63" "0 \<le> tu_pieceLength tu" "int (fst (Progress pm)) * tu_pieceLength tu < 2 ^ 63"
  shows "uint (fst (computeLeft pm tu)) = min (int (fst (Progress pm)) * tu_pieceLength tu) (tu_totalLength tu)"
    and "uint (fst (computeLeft pm tu)) + uint (snd (computeLeft pm tu)) = tu_totalLength tu"
proof -
  let ?n = "int (fst (Progress pm)) * tu_pieceLength tu" and ?t = "tu_totalLength tu"
  let ?d = "of_nat (fst (Progress pm)) * word_of_int (tu_pieceLength tu) :: u64"
  have small: "uint (word_of_int k :: u64) = k" if "0 \<le> k" "k < 2 ^ 63" for k using that by (simp add: uint_word_of_int)
  have d: "?d = word_of_int ?n" by simp
  have n: "0 \<le> ?n" using assms(3) by simp
  have ud: "uint ?d = ?n" unfolding d using small [OF n assms(4)] .
  have ut: "uint (word_of_int ?t :: u64) = ?t" using small assms(1,2) .
  have c: "computeLeft pm tu = ((if ?d > word_of_int ?t then word_of_int ?t else ?d), word_of_int ?t - (if ?d > word_of_int ?t then word_of_int ?t else ?d))"
    by (simp add: computeLeft_def Let_def)
  have lt: "?d > word_of_int ?t \<longleftrightarrow> ?n > ?t" unfolding word_less_def ud ut ..
  show 1: "uint (fst (computeLeft pm tu)) = min ?n ?t" unfolding c lt using ud ut by simp
  have "uint (word_of_int ?t - fst (computeLeft pm tu)) = ?t - min ?n ?t"
  proof -
    have "uint (fst (computeLeft pm tu)) \<le> uint (word_of_int ?t :: u64)" unfolding 1 ut by simp
    then show ?thesis using uint_sub_lem [of "fst (computeLeft pm tu)" "word_of_int ?t :: u64"] 1 ut by simp
  qed
  then show "uint (fst (computeLeft pm tu)) + uint (snd (computeLeft pm tu)) = ?t" unfolding c using 1 c by simp
qed

definition honest_request :: "int \<Rightarrow> announce_request \<Rightarrow> bool" where
  "honest_request n r \<longleftrightarrow> uint (a_Downloaded r) + uint (a_Left r) = n"

lemma updater_loop_spec:
  assumes "0 \<le> n" "n < 2 ^ 63" "0 \<le> tu_pieceLength tu" "tu_totalLength tu = n"
    and "\<And>pm. Cancelled pm \<in> set ws \<or> Ticked pm \<in> set ws \<Longrightarrow> int (fst (Progress pm)) * tu_pieceLength tu < 2 ^ 63"
  shows "list_all (honest_request n) (fst (updater_loop announce interval ws tu))
    \<and> list_all (\<lambda>r. a_Event r = EventNone) (butlast (fst (updater_loop announce interval ws tu)))
    \<and> (\<forall>ticks rest. ws = map Ticked ticks @ Completed_all # rest \<longrightarrow>
        length (fst (updater_loop announce interval ws tu)) = length ticks + 1
        \<and> a_Event (last (fst (updater_loop announce interval ws tu))) = EventCompleted
        \<and> a_Left (last (fst (updater_loop announce interval ws tu))) = 0)"
  using assms
proof (induction ws arbitrary: interval tu)
  case (Cons w ws)
  note c = computeLeft_spec(2) [of tu]
  show ?case
  proof (cases w)
    case (Cancelled pm)
    have "honest_request n (fst (sendStopped announce pm tu))"
      using c [of pm] Cons.prems Cancelled by (auto simp: sendStopped_def honest_request_def Let_def split: prod.split)
    then show ?thesis using Cancelled by (auto simp: Cons_eq_append_conv map_eq_Cons_conv)
  next
    case Completed_all
    have "uint (word_of_int n :: u64) = n" using Cons.prems(1,2) by (simp add: uint_word_of_int)
    then show ?thesis using Completed_all Cons.prems(4)
      by (auto simp: sendCompleted_def honest_request_def Let_def Cons_eq_append_conv map_eq_Cons_conv)
  next
    case (Ticked pm)
    obtain itv req tu' where u: "sendUpdate announce pm tu = (itv, req, tu')" by (cases "sendUpdate announce pm tu") auto
    have t: "tu_pieceLength tu' = tu_pieceLength tu" "tu_totalLength tu' = n" "honest_request n req" "a_Event req = EventNone"
      using u c [of pm] Cons.prems Ticked
      by (auto simp: sendUpdate_def Let_def honest_request_def split: prod.splits sum.splits)
    let ?i = "if itv > 0 \<and> itv \<noteq> interval then itv else interval"
    have l: "fst (updater_loop announce interval (w # ws) tu) = req # fst (updater_loop announce ?i ws tu')"
      by (simp add: Ticked u split: prod.split)
    have p: "int (fst (Progress q)) * tu_pieceLength tu' < 2 ^ 63" if "Cancelled q \<in> set ws \<or> Ticked q \<in> set ws" for q
      using that Cons.prems(5) [of q] t(1) by auto
    have "0 \<le> tu_pieceLength tu'" using t(1) Cons.prems(3) by simp
    note IH = Cons.IH [OF Cons.prems(1,2) this t(2) p, of ?i]
    show ?thesis
    proof (intro conjI allI impI)
      show "list_all (honest_request n) (fst (updater_loop announce interval (w # ws) tu))" unfolding l using IH t(3) by simp
      show "list_all (\<lambda>r. a_Event r = EventNone) (butlast (fst (updater_loop announce interval (w # ws) tu)))" unfolding l using IH t(4) by simp
      fix ticks rest assume e: "w # ws = map Ticked ticks @ Completed_all # rest"
      then obtain ts where ts: "ticks = pm # ts" "ws = map Ticked ts @ Completed_all # rest" using Ticked by (cases ticks) auto
      from IH ts(2) have r: "length (fst (updater_loop announce ?i ws tu')) = length ts + 1"
          "a_Event (last (fst (updater_loop announce ?i ws tu'))) = EventCompleted" "a_Left (last (fst (updater_loop announce ?i ws tu'))) = 0"
        by blast+
      then have "fst (updater_loop announce ?i ws tu') \<noteq> []" by auto
      then show "length (fst (updater_loop announce interval (w # ws) tu)) = length ticks + 1"
        "a_Event (last (fst (updater_loop announce interval (w # ws) tu))) = EventCompleted"
        "a_Left (last (fst (updater_loop announce interval (w # ws) tu))) = 0"
        unfolding l using r ts(1) by simp_all
    qed
  qed
qed simp

text \<open>C39: What the tracker is told during a download. In every request the bytes downloaded and left add up to the total length;
  all requests but the last are plain updates; and when the download completes, the last one is \<open>completed\<close> with nothing left. The
  bytes downloaded are those of the completed pieces, cut off at the total length: when the short last piece is among them
  and others are missing, more is reported than there is.\<close>

theorem tracker_updates_spec:
  assumes "0 \<le> tu_totalLength tu" "tu_totalLength tu < 2 ^ 63" "0 \<le> tu_pieceLength tu"
    and "\<And>pm. Cancelled pm \<in> set ws \<or> Ticked pm \<in> set ws \<Longrightarrow> int (fst (Progress pm)) * tu_pieceLength tu < 2 ^ 63"
    and "reqs = fst (updater_run announce interval ws tu)"
  shows "list_all (\<lambda>r. uint (a_Downloaded r) + uint (a_Left r) = tu_totalLength tu) reqs
    \<and> list_all (\<lambda>r. a_Event r = EventNone) (butlast reqs)
    \<and> (\<forall>ticks rest. ws = map Ticked ticks @ Completed_all # rest \<longrightarrow>
        length reqs = length ticks + 1 \<and> a_Event (last reqs) = EventCompleted \<and> a_Left (last reqs) = 0)
    \<and> (Ticked pm \<in> set ws \<longrightarrow> uint (fst (computeLeft pm tu)) = min (int (fst (Progress pm)) * tu_pieceLength tu) (tu_totalLength tu))"
proof -
  have h: "(\<lambda>r. uint (a_Downloaded r) + uint (a_Left r) = tu_totalLength tu) = honest_request (tu_totalLength tu)"
    by (rule ext) (simp add: honest_request_def)
  note l = updater_loop_spec [OF assms(1,2,3) refl, where announce = announce and ws = ws
      and interval = "if interval \<le> 0 then 1800 * Second else interval", OF assms(4)]
  have "Ticked pm \<in> set ws \<longrightarrow> uint (fst (computeLeft pm tu)) = min (int (fst (Progress pm)) * tu_pieceLength tu) (tu_totalLength tu)"
    using computeLeft_spec(1) [OF assms(1-3)] assms(4) by blast
  then show ?thesis unfolding assms(5) updater_run_def h using l by blast
qed

theorem tracker_updates_spec_witness:
  "\<exists>reqs. reqs = fst (updater_run (\<lambda>req tr. (Inl HTTPFailed, tr)) 0 [Ticked sample_manager, Completed_all] (NewTrackerUpdater () no_request 3 2))
    \<and> length reqs = 2 \<and> list_all (\<lambda>r. uint (a_Downloaded r) + uint (a_Left r) = 3) reqs"
proof -
  let ?tu = "NewTrackerUpdater () no_request 3 2" and ?ws = "[Ticked sample_manager, Completed_all]"
  let ?reqs = "fst (updater_run (\<lambda>req tr. (Inl HTTPFailed, tr)) 0 ?ws ?tu)"
  have p: "fst (Progress sample_manager) = 1" by (simp add: Progress_def sample_manager_eval)
  have t: "tu_totalLength ?tu = 3" "tu_pieceLength ?tu = 2" by (simp_all add: NewTrackerUpdater_def)
  have pre: "int (fst (Progress q)) * tu_pieceLength ?tu < 2 ^ 63" if "Cancelled q \<in> set ?ws \<or> Ticked q \<in> set ?ws" for q
    using that p t by auto
  have "0 \<le> tu_totalLength ?tu" "tu_totalLength ?tu < 2 ^ 63" "0 \<le> tu_pieceLength ?tu" unfolding t by simp_all
  note sp = tracker_updates_spec [OF this, where ws = ?ws and announce = "\<lambda>req tr. (Inl HTTPFailed, tr)" and interval = 0 and pm = sample_manager,
      OF pre refl, unfolded t]
  have "?ws = map Ticked [sample_manager] @ Completed_all # []" by simp
  then have "length ?reqs = length [sample_manager] + 1" using sp by blast
  then have "length ?reqs = 2" by simp
  moreover have "list_all (\<lambda>r. uint (a_Downloaded r) + uint (a_Left r) = 3) ?reqs" using sp by blast
  ultimately have "length ?reqs = 2 \<and> list_all (\<lambda>r. uint (a_Downloaded r) + uint (a_Left r) = 3) ?reqs" ..
  then show ?thesis by blast
qed

section \<open>The files on disk\<close>

definition plain :: "bytes \<Rightarrow> bool" where
  "plain e \<longleftrightarrow> e \<noteq> [] \<and> e \<noteq> dot \<and> e \<noteq> dotdot \<and> 0x2F \<notin> set e"

lemma split_plain: "0x2F \<notin> set e \<Longrightarrow> split_slash e = [e]"
  by (induction e) auto

lemma clean_plain: "plain e \<Longrightarrow> clean_step rooted es e = es @ [e]"
  by (simp add: clean_step_def plain_def)

lemma join_plain: "list_all plain es \<Longrightarrow> join_path p es = (fst p, snd p @ es)"
proof -
  assume a: "list_all plain es"
  then have "concat (map split_slash es) = es" by (induction es) (auto simp: split_plain plain_def)
  moreover from a have "foldl (clean_step r) xs es = xs @ es" for r xs by (induction es arbitrary: xs) (auto simp: clean_plain)
  ultimately show ?thesis by (simp add: join_path_def)
qed

text \<open>The parts the files should get.\<close>

fun parts_of :: "bytes \<Rightarrow> int list \<Rightarrow> bytes list" where
  "parts_of content [] = []"
| "parts_of content (n # ns) = take (nat n) content # parts_of (drop (nat n) content) ns"

lemma concat_parts: "list_all (\<lambda>n. 0 \<le> n) ns \<Longrightarrow> sum_list ns = int (length content) \<Longrightarrow> concat (parts_of content ns) = content"
proof (induction content ns rule: parts_of.induct)
  case (2 content n ns)
  have "0 \<le> sum_list ns" using 2(2) by (simp add: list_all_iff sum_list_nonneg)
  then have "sum_list ns = int (length (drop (nat n) content))" using 2(2,3) by simp
  then show ?case using 2 by simp
qed simp

lemma length_parts: "list_all (\<lambda>n. 0 \<le> n) ns \<Longrightarrow> sum_list ns = int (length content) \<Longrightarrow> map (int \<circ> length) (parts_of content ns) = ns"
proof (induction content ns rule: parts_of.induct)
  case (2 content n ns)
  have "0 \<le> sum_list ns" using 2(2) by (simp add: list_all_iff sum_list_nonneg)
  then have "sum_list ns = int (length (drop (nat n) content))" "n \<le> int (length content)" using 2(2,3) by simp_all
  then show ?case using 2 by simp
qed simp

lemma save_files_parts:
  assumes "\<And>p. io_mkdir io p" "\<And>p. io_write io p = None" "list_all (\<lambda>f. list_all plain (f_Path f)) files" "distinct (map f_Path files)"
    and "list_all (\<lambda>n. 0 \<le> n) (map f_Length files)" "0 \<le> offset" "offset + sum_list (map f_Length files) = int (length content)" "int (length content) < 2 ^ 62"
  shows "\<exists>fs'. save_files io base content spare offset files fs = Some (Inr (), fs')
    \<and> map (\<lambda>f. fs' (fst base, snd base @ f_Path f)) files = map Some (parts_of (drop (nat offset) content) (map f_Length files))
    \<and> (\<forall>p. p \<notin> (\<lambda>f. (fst base, snd base @ f_Path f)) ` set files \<longrightarrow> fs' p = fs p)"
  using assms(3-8)
proof (induction files arbitrary: offset fs)
  case (Cons f files)
  let ?p = "(fst base, snd base @ f_Path f)" and ?n = "f_Length f"
  have n: "0 \<le> ?n" "0 \<le> sum_list (map f_Length files)" using Cons.prems(3) by (auto simp: list_all_iff intro!: sum_list_nonneg)
  have e: "offset + ?n \<le> int (length content)" using Cons.prems(5) n(2) by simp
  have w: "wrap64 (offset + ?n) = offset + ?n"
    using Cons.prems(4,6) n(1) e by (intro wrap64_id) (simp add: in_int64_def int64_min_def int64_max_def)
  have part: "take (nat (offset + ?n - offset)) (drop (nat offset) (content @ spare)) = take (nat ?n) (drop (nat offset) content)"
    using Cons.prems(4) n(1) e by (simp add: nat_le_iff)
  let ?fs = "fs(?p \<mapsto> take (nat ?n) (drop (nat offset) content))"
  have "save_files io base content spare offset (f # files) fs = save_files io base content spare (offset + ?n) files ?fs"
    using Cons.prems(1,4) n(1) e assms(1,2) by (simp add: w part join_plain write_whole_def Let_def)
  moreover have prems: "list_all (\<lambda>f. list_all plain (f_Path f)) files" "distinct (map f_Path files)" "list_all (\<lambda>n. 0 \<le> n) (map f_Length files)"
      "0 \<le> offset + ?n" "offset + ?n + sum_list (map f_Length files) = int (length content)" "int (length content) < 2 ^ 62"
    using Cons.prems n(1) by (simp_all add: add.assoc)
  moreover obtain fs' where fs': "save_files io base content spare (offset + ?n) files ?fs = Some (Inr (), fs')"
      "map (\<lambda>f. fs' (fst base, snd base @ f_Path f)) files = map Some (parts_of (drop (nat (offset + ?n)) content) (map f_Length files))"
      "\<And>p. p \<notin> (\<lambda>f. (fst base, snd base @ f_Path f)) ` set files \<Longrightarrow> fs' p = ?fs p"
    using Cons.IH [OF prems, of ?fs] by blast
  moreover have "fs' ?p = ?fs ?p" using Cons.prems(2) by (intro fs'(3)) auto
  moreover have "drop (nat (offset + ?n)) content = drop (nat ?n) (drop (nat offset) content)"
    using Cons.prems(4) n(1) by (simp add: nat_add_distrib add.commute)
  ultimately show ?case by auto
qed simp

text \<open>C35: Saving a download. When the elements of the file paths are plain names, the files have different paths and their lengths add up
  to the length of the data, then, if no operation of the file system fails, each file holds its own part of
  the data, the parts together are the data, and no other file is touched, in particular none outside the directory of the torrent. But the
  elements are not checked: a path that begins with \<open>..\<close> leads out of that directory.\<close>

theorem SaveFile_spec:
  assumes "\<And>p. io_mkdir io p" "\<And>p. io_write io p = None" "i_Files info \<noteq> []"
    and "list_all (\<lambda>f. list_all plain (f_Path f)) (i_Files info)" "distinct (map f_Path (i_Files info))"
    and "list_all (\<lambda>f. 0 \<le> f_Length f) (i_Files info)" "sum_list (map f_Length (i_Files info)) = int (length content)" "int (length content) < 2 ^ 62"
    and "base = join_path (dir_of downloadPath) [i_Name info]" "plain x" "snd base \<noteq> []" "last (snd base) \<noteq> dotdot"
  shows "(\<exists>fs' parts. SaveFile io info downloadPath content spare fs = Some (Inr (), fs')
      \<and> map (\<lambda>f. fs' (join_path base (f_Path f))) (i_Files info) = map Some parts \<and> concat parts = content
      \<and> map (int \<circ> length) parts = map f_Length (i_Files info)
      \<and> (\<forall>p. fs' p \<noteq> fs p \<longrightarrow> (\<exists>f \<in> set (i_Files info). p = (fst base, snd base @ f_Path f))))
    \<and> join_path base [dotdot, x] = (fst base, butlast (snd base) @ [x])"
proof (rule conjI)
  have nn: "list_all (\<lambda>n. 0 \<le> n) (map f_Length (i_Files info))" using assms(6) by (simp add: list_all_iff)
  obtain fs' where fs': "save_files io base content spare 0 (i_Files info) fs = Some (Inr (), fs')"
      "map (\<lambda>f. fs' (fst base, snd base @ f_Path f)) (i_Files info) = map Some (parts_of content (map f_Length (i_Files info)))"
      "\<And>p. p \<notin> (\<lambda>f. (fst base, snd base @ f_Path f)) ` set (i_Files info) \<Longrightarrow> fs' p = fs p"
    using save_files_parts [OF assms(1,2,4,5) nn, of 0 content base spare fs] assms(7,8) by auto
  let ?parts = "parts_of content (map f_Length (i_Files info))"
  have "map (\<lambda>f. fs' (join_path base (f_Path f))) (i_Files info) = map Some ?parts"
    using fs'(2) assms(4) by (simp add: join_plain list_all_iff cong: map_cong)
  moreover have "SaveFile io info downloadPath content spare fs = Some (Inr (), fs')"
    using fs'(1) assms(1,3,9) by (simp add: SaveFile_def IsSingleFile_def GetFiles_def)
  moreover have "concat ?parts = content" "map (int \<circ> length) ?parts = map f_Length (i_Files info)"
    using concat_parts [OF nn assms(7)] length_parts [OF nn assms(7)] by auto
  ultimately show "\<exists>fs' parts. SaveFile io info downloadPath content spare fs = Some (Inr (), fs')
      \<and> map (\<lambda>f. fs' (join_path base (f_Path f))) (i_Files info) = map Some parts \<and> concat parts = content
      \<and> map (int \<circ> length) parts = map f_Length (i_Files info)
      \<and> (\<forall>p. fs' p \<noteq> fs p \<longrightarrow> (\<exists>f \<in> set (i_Files info). p = (fst base, snd base @ f_Path f)))"
    using fs'(3) by blast
  have "split_slash dotdot = [dotdot]" "split_slash x = [x]" using assms(10) by (simp_all add: split_plain plain_def dotdot_def)
  then show "join_path base [dotdot, x] = (fst base, butlast (snd base) @ [x])"
    using assms(10-12) by (simp add: join_path_def clean_plain) (simp add: clean_step_def dotdot_def dot_def)
qed

theorem SaveFile_spec_witness:
  "\<exists>fs'. SaveFile \<lparr>io_mkdir = \<lambda>_. True, io_write = \<lambda>_. None\<rparr>
      \<lparr>i_Length = 3, i_Name = ascii ''t'', i_PieceLength = 4, i_Pieces = [], i_InfoHash = [],
       i_Files = [\<lparr>f_Length = 1, f_Path = [ascii ''a'']\<rparr>, \<lparr>f_Length = 2, f_Path = [ascii ''b'']\<rparr>]\<rparr> (ascii ''/d/out'') [1, 2, 3] [] Map.empty = Some (Inr (), fs')"
proof -
  let ?info = "\<lparr>i_Length = 3, i_Name = ascii ''t'', i_PieceLength = 4, i_Pieces = [], i_InfoHash = [],
       i_Files = [\<lparr>f_Length = 1, f_Path = [ascii ''a'']\<rparr>, \<lparr>f_Length = 2, f_Path = [ascii ''b'']\<rparr>]\<rparr>"
  have d: "dir_of (ascii ''/d/out'') = (True, [ascii ''d''])"
    by (simp add: dir_of_def clean_path_def ascii_def clean_step_def dot_def dotdot_def)
  have p: "plain (ascii ''t'')" "plain (ascii ''a'')" "plain (ascii ''b'')" by (simp_all add: plain_def dot_def dotdot_def, simp_all add: ascii_def)
  have b: "join_path (dir_of (ascii ''/d/out'')) [i_Name ?info] = (True, [ascii ''d'', ascii ''t''])"
    using join_plain [of "[ascii ''t'']" "(True, [ascii ''d''])"] p by (simp add: d)
  show ?thesis
    using SaveFile_spec [of "\<lparr>io_mkdir = \<lambda>_. True, io_write = \<lambda>_. None\<rparr>" ?info "[1, 2, 3]" "(True, [ascii ''d'', ascii ''t''])"
        "ascii ''/d/out''" "ascii ''a''" "[]" Map.empty] p b by (auto simp: dotdot_def ascii_def)
qed

section \<open>A link without peers\<close>

text \<open>A tracker that knows no peers for a magnet link makes the program panic.\<close>

lemma ConnectToMagnetPeer_no_peers:
  assumes "DeserializeMagnet xt tr = Some (Some magnet)" "NewMultiTracker new (mg_TrackerURLs magnet) = Done (Inr (t # ts))"
    and "ask (magnet_request (mg_InfoHash magnet)) t = Done (Inr resp, t')" "r_Peers resp = []"
  shows "ConnectToMagnetPeer xt tr new ask dial = Panics"
  using assms by (simp add: ConnectToMagnetPeer_def)

end
