(* ===== verification/DhtNode.thy ===== *)
theory DhtNode
  imports Lookup
begin

text \<open>
  The life of a DHT node: the options of \<open>internal/dht/config.go\<close>, and from \<open>internal/dht/dht.go\<close> how \<open>New\<close> opens a
  node, the loops of \<open>startMaintenance\<close>, the file of \<open>Save\<close> and \<open>Close\<close>. Durations are in nanoseconds.
\<close>

section \<open>Options\<close>

text \<open>The loggers are of any type.\<close>

record 'l config =
  dc_Port :: int
  dc_BootstrapNodes :: "bytes list"
  dc_Alpha :: int
  dc_K :: nat
  dc_PeerTTL :: int
  dc_Logger :: 'l
  dc_TableLogger :: 'l
  dc_RoutingTablePath :: bytes
  dc_ExternalIP :: addr
  dc_BEP42 :: bep42_mode
  dc_RateLimit :: int
  dc_RateLimitWin :: int
  dc_MetricsPort :: int

definition DefaultDhtConfig :: "'l \<Rightarrow> 'l \<Rightarrow> 'l config" where
  "DefaultDhtConfig logger discard =
     \<lparr>dc_Port = 6881,
      dc_BootstrapNodes = [ascii ''router.bittorrent.com:6881'', ascii ''dht.transmissionbt.com:6881'', ascii ''router.utorrent.com:6881''],
      dc_Alpha = 3, dc_K = K, dc_PeerTTL = 30 * 60 * second, dc_Logger = logger, dc_TableLogger = discard, dc_RoutingTablePath = [],
      dc_ExternalIP = NoAddr, dc_BEP42 = BEP42Off, dc_RateLimit = 50, dc_RateLimitWin = 60 * second, dc_MetricsPort = 0\<rparr>"

type_synonym 'l dht_option = "'l config \<Rightarrow> 'l config"

definition WithPort :: "int \<Rightarrow> 'l dht_option" where
  "WithPort port c = (if port \<ge> 0 then c\<lparr>dc_Port := port\<rparr> else c)"

definition WithBootstrapNodes :: "bytes list \<Rightarrow> 'l dht_option" where
  "WithBootstrapNodes nodes c = c\<lparr>dc_BootstrapNodes := nodes\<rparr>"

definition WithAlpha :: "int \<Rightarrow> 'l dht_option" where
  "WithAlpha alpha c = (if alpha > 0 then c\<lparr>dc_Alpha := alpha\<rparr> else c)"

definition WithLogger :: "'l \<Rightarrow> 'l dht_option" where
  "WithLogger l c = c\<lparr>dc_Logger := l\<rparr>"

definition WithRoutingTable :: "bytes \<Rightarrow> 'l dht_option" where
  "WithRoutingTable path c = c\<lparr>dc_RoutingTablePath := path\<rparr>"

definition WithBEP42 :: "bep42_mode \<Rightarrow> 'l dht_option" where
  "WithBEP42 mode c = c\<lparr>dc_BEP42 := mode\<rparr>"

definition WithMetricsPort :: "int \<Rightarrow> 'l dht_option" where
  "WithMetricsPort port c = c\<lparr>dc_MetricsPort := port\<rparr>"

definition WithRateLimit :: "int \<Rightarrow> int \<Rightarrow> 'l dht_option" where
  "WithRateLimit lim win c =
     (let c = c\<lparr>dc_RateLimit := lim\<rparr> in if win > 0 then c\<lparr>dc_RateLimitWin := win\<rparr> else c)"

definition WithExternalIP :: "addr \<Rightarrow> 'l dht_option" where
  "WithExternalIP ip c = c\<lparr>dc_ExternalIP := ip\<rparr>"

definition WithTableLogger :: "'l \<Rightarrow> 'l dht_option" where
  "WithTableLogger l c = c\<lparr>dc_TableLogger := l\<rparr>"

text \<open>What the node proper uses of the options.\<close>

definition node_config :: "'l config \<Rightarrow> dht_config" where
  "node_config c = \<lparr>c_ExternalIP = dc_ExternalIP c, c_PeerTTL = dc_PeerTTL c, c_BEP42 = dc_BEP42 c,
     c_RateLimit = dc_RateLimit c, c_RateLimitWin = dc_RateLimitWin c, c_metrics = (dc_MetricsPort c > 0)\<rparr>"

section \<open>Opening a node\<close>

text \<open>
  \<open>file\<close>: what \<open>os.ReadFile\<close> finds at the path of the routing table, which is read only when a path is set; a
  file that is missing or does not load is the same as none. \<open>listening\<close>: whether the socket can be opened. A port beyond 65535 is not a
  listening address.
\<close>

datatype new_error = BadListenAddress int | ListenFailed

definition read_state :: "int \<Rightarrow> bytes option \<Rightarrow> 'l config \<Rightarrow> saved_state option" where
  "read_state now file c =
     (if dc_RoutingTablePath c = [] then None
      else case file of
             None \<Rightarrow> None
           | Some data \<Rightarrow> (case loadRoutingTable now data of Inl e \<Rightarrow> None | Inr state \<Rightarrow> Some state))"

definition apply_options :: "'l dht_option list \<Rightarrow> 'l config \<Rightarrow> 'l config" where
  "apply_options opts c = fold (\<lambda>opt c. opt c) opts c"

record 'l running =
  rn_config :: "'l config"
  rn_dht :: dht
  rn_file :: "bytes option"
  rn_stopped :: bool

definition open_node ::
    "bytes \<Rightarrow> bytes option \<Rightarrow> bytes \<Rightarrow> int \<Rightarrow> bool \<Rightarrow> bytes option \<Rightarrow> 'l config \<Rightarrow> 'l dht_option list \<Rightarrow> new_error + 'l running" where
  "open_node rnd crnd secret now listening file defaults opts =
     (let config = apply_options opts defaults;
          d = New_dht rnd crnd secret (node_config config) (read_state now file config)
      in if dc_Port config > 65535 then Inl (BadListenAddress (dc_Port config))
         else if \<not> listening then Inl ListenFailed
         else Inr \<lparr>rn_config = config, rn_dht = d, rn_file = file, rn_stopped = False\<rparr>)"

section \<open>Maintenance\<close>

text \<open>The loops that are started, with the interval of each.\<close>

datatype loop = TokenLoop | PeerLoop | RefreshLoop | SaveLoop | LimiterLoop

definition startMaintenance :: "'l config \<Rightarrow> dht \<Rightarrow> (loop \<times> int) list" where
  "startMaintenance c d =
     [(TokenLoop, 5 * 60 * second), (PeerLoop, 5 * 60 * second), (RefreshLoop, refreshInterval)]
     @ (if dc_RoutingTablePath c \<noteq> [] then [(SaveLoop, 5 * 60 * second)] else [])
     @ (if d_limiter d \<noteq> None then [(LimiterLoop, dc_RateLimitWin c)] else [])"

text \<open>
  \<open>Save\<close> with its file: the data goes to a second file first, which is renamed, so that the file at the path is
  the old one or the new one. \<open>written\<close> and \<open>renamed\<close>: whether these two steps succeed.
\<close>

datatype save_table_error = SaveEncode enc_error | SaveWrite | SaveRename

definition save_table :: "bool \<Rightarrow> bool \<Rightarrow> dht \<Rightarrow> bytes option \<Rightarrow> ((save_table_error + unit) \<times> bytes option) option" where
  "save_table written renamed d file =
     (case Save d of
        None \<Rightarrow> None
      | Some (Inl e) \<Rightarrow> Some (Inl (SaveEncode e), file)
      | Some (Inr data) \<Rightarrow>
          Some (if \<not> written then (Inl SaveWrite, file)
                else if \<not> renamed then (Inl SaveRename, file)
                else (Inr (), Some data)))"

text \<open>One tick of a loop. \<open>None\<close> is a panic.\<close>

record tick_io =
  tk_now :: int
  tk_secret :: bytes
  tk_envs :: "nat \<Rightarrow> env"
  tk_rnd :: "nat \<Rightarrow> bytes"
  tk_alive :: "node \<Rightarrow> bool"
  tk_written :: bool
  tk_renamed :: bool

definition maintain :: "tick_io \<Rightarrow> loop \<Rightarrow> 'l running \<Rightarrow> 'l running option" where
  "maintain io loop n =
     (case loop of
        TokenLoop \<Rightarrow> Some (n\<lparr>rn_dht := (rn_dht n)\<lparr>d_tokens := Rotate (tk_secret io) (d_tokens (rn_dht n))\<rparr>\<rparr>)
      | PeerLoop \<Rightarrow> Some (n\<lparr>rn_dht := (rn_dht n)\<lparr>d_peers := fst (Expire (tk_now io) (d_peers (rn_dht n)))\<rparr>\<rparr>)
      | RefreshLoop \<Rightarrow> Some (n\<lparr>rn_dht := refreshTable (tk_envs io) (tk_rnd io) (tk_now io) (tk_alive io) (rn_dht n)\<rparr>)
      | SaveLoop \<Rightarrow> map_option (\<lambda>(r, file). n\<lparr>rn_file := file\<rparr>) (save_table (tk_written io) (tk_renamed io) (rn_dht n) (rn_file n))
      | LimiterLoop \<Rightarrow> Some (n\<lparr>rn_dht := (rn_dht n)\<lparr>d_limiter := map_option (\<lambda>rl. fst (Cleanup (tk_now io) rl)) (d_limiter (rn_dht n))\<rparr>\<rparr>))"

text \<open>\<open>Close\<close> closes the channel that stops the loops, so a second call panics.\<close>

definition Close :: "'l running \<Rightarrow> 'l running option" where
  "Close n = (if rn_stopped n then None else Some (n\<lparr>rn_stopped := True\<rparr>))"

text \<open>
  The node runs: the steps of its server and of the goroutines it spawned (\<^const>\<open>dht_step\<close>), the lookups the
  program asks for, and, until it is closed, the ticks of its loops, in any order.
\<close>

inductive node_run :: "'l running \<Rightarrow> 'l running \<Rightarrow> bool" for n0 :: "'l running" where
  opened: "node_run n0 n0"
| served: "node_run n0 n \<Longrightarrow> dht_step (rn_dht n) d \<Longrightarrow> node_run n0 (n\<lparr>rn_dht := d\<rparr>)"
| looked_up: "node_run n0 n \<Longrightarrow> env_ok e \<Longrightarrow> node_run n0 (n\<lparr>rn_dht := l_dht (fst (iterativeFindNode e t (rn_dht n)))\<rparr>)"
| ticked: "node_run n0 n \<Longrightarrow> \<not> rn_stopped n \<Longrightarrow> (loop, i) \<in> set (startMaintenance (rn_config n) (rn_dht n)) \<Longrightarrow> (\<And>b. env_ok (tk_envs io b))
    \<Longrightarrow> maintain io loop n = Some n' \<Longrightarrow> node_run n0 n'"
| closed: "node_run n0 n \<Longrightarrow> Close n = Some n' \<Longrightarrow> node_run n0 n'"

section \<open>The options keep the tickers legal\<close>

text \<open>A ticker with an interval that is not positive panics, and a lookup with no parallelism asks nobody.\<close>

definition config_ok :: "'l config \<Rightarrow> bool" where
  "config_ok c \<longleftrightarrow> 0 \<le> dc_Port c \<and> 0 < dc_Alpha c \<and> 0 < dc_RateLimitWin c \<and> valid_addr (dc_ExternalIP c)"

inductive made_option :: "'l dht_option \<Rightarrow> bool" where
  "made_option (WithPort port)"
| "made_option (WithBootstrapNodes nodes)"
| "made_option (WithAlpha alpha)"
| "made_option (WithLogger l)"
| "made_option (WithRoutingTable path)"
| "made_option (WithBEP42 mode)"
| "made_option (WithMetricsPort mport)"
| "made_option (WithRateLimit lim win)"
| "valid_addr ip \<Longrightarrow> made_option (WithExternalIP ip)"
| "made_option (WithTableLogger dl)"

lemma made_option_ok: "made_option opt \<Longrightarrow> config_ok c \<Longrightarrow> config_ok (opt c)"
  by (induction rule: made_option.induct)
    (simp_all add: config_ok_def WithPort_def WithBootstrapNodes_def WithAlpha_def WithLogger_def WithRoutingTable_def
      WithBEP42_def WithMetricsPort_def WithRateLimit_def WithExternalIP_def WithTableLogger_def Let_def)

lemma apply_options_ok:
  "list_all made_option opts \<Longrightarrow> config_ok c \<Longrightarrow> config_ok (apply_options opts c)"
  unfolding apply_options_def by (induction opts arbitrary: c) (simp_all add: made_option_ok)

lemma DefaultDhtConfig_ok: "config_ok (DefaultDhtConfig l dl)"
  by (simp add: config_ok_def DefaultDhtConfig_def second_def)

lemma tickers_legal: "config_ok c \<Longrightarrow> (loop, i) \<in> set (startMaintenance c d) \<Longrightarrow> 0 < i"
  by (auto simp: startMaintenance_def config_ok_def second_def refreshInterval_def split: if_splits)

section \<open>Every state of a running node\<close>

lemma query_node_votes [simp]: "d_ipVotes (query_node method now res n d) = d_ipVotes d"
proof -
  obtain f where "fst (sendQuery method res d) = counted f d" using sendQuery_counted by blast
  then show ?thesis by (cases "sendQuery method res d") (auto simp: query_node_def counted_def split: option.split)
qed

lemma query_all_votes [simp]: "d_ipVotes (query_all e method r ns d) = d_ipVotes d"
proof -
  have "d_ipVotes (fold (\<lambda>n. query_node method (e_now e r) (e_outcome e r n) n) xs d) = d_ipVotes d" for xs
    by (induction xs arbitrary: d) simp_all
  then show ?thesis by (simp add: query_all_def)
qed

lemma ask_votes [simp]: "d_ipVotes (l_dht (ask e method r ns l)) = d_ipVotes (l_dht l)"
  by (simp add: ask_def Let_def)

lemma find_rounds_votes [simp]: "d_ipVotes (l_dht (find_rounds e t k r prev l)) = d_ipVotes (l_dht l)"
  by (induction k arbitrary: r prev l) (auto simp: Let_def split: prod.split)

lemma iterativeFindNode_votes [simp]: "d_ipVotes (l_dht (fst (iterativeFindNode e t d))) = d_ipVotes d"
  by (simp add: iterativeFindNode_def Let_def start_lookup_def)

lemma sweep_votes [simp]: "d_ipVotes (sweepStaleNodes now alive d) = d_ipVotes d"
proof -
  have "d_ipVotes (fold (sweep_node now alive) ns d) = d_ipVotes d" for ns
    by (induction ns arbitrary: d) (simp_all add: sweep_node_def)
  then show ?thesis by (simp add: sweepStaleNodes_def)
qed

lemma refreshTable_votes [simp]: "d_ipVotes (refreshTable es rnd now alive d) = d_ipVotes d"
proof -
  have "d_ipVotes (fold (\<lambda>bucket d. case TargetForBucket (d_table d) bucket (rnd bucket) of
                Some target \<Rightarrow> l_dht (fst (iterativeFindNode (es bucket) target d)) | None \<Rightarrow> d) bs d) = d_ipVotes d" for bs
    by (induction bs arbitrary: d) (simp_all split: option.split)
  then show ?thesis by (simp add: refreshTable_def)
qed

lemma Bootstrap_votes:
  assumes "dht_ok d" "votes_ok d" "\<forall>m. set (iter m) = set m"
    and "\<forall>(a, res, rnd, now) \<in> set addrs. (\<forall>x. a = Some x \<longrightarrow> has4 x) \<and> (\<forall>b. rnd = Some b \<longrightarrow> length b = 20)"
  shows "votes_ok (Bootstrap iter e addrs d)"
  using Bootstrap_fold_ok [OF assms] by (simp add: Bootstrap_def Let_def votes_ok_def)

lemma token_rounds_votes [simp]: "d_ipVotes (l_dht (token_rounds e t k r l)) = d_ipVotes (l_dht l)"
  by (induction k arbitrary: r l) (auto simp: Let_def split: prod.split)

lemma announce_votes [simp]: "d_ipVotes (fold (\<lambda>(c, tok) d. fst (sendQuery method (res c) d)) ts d) = d_ipVotes d"
proof (induction ts arbitrary: d)
  case (Cons x ts)
  obtain c tok where x: "x = (c, tok)" by (cases x)
  obtain f where "fst (sendQuery method (res c) d) = counted f d" using sendQuery_counted by blast
  then show ?case by (simp add: x Cons counted_def)
qed simp

lemma Announce_votes: "Announce e res h port d = Inr (d', l, sent) \<Longrightarrow> d_ipVotes d' = d_ipVotes d"
  by (auto simp: Announce_def Let_def start_lookup_def split: if_splits)

lemma votes_eq: "d_ipVotes d' = d_ipVotes d \<Longrightarrow> votes_ok d' = votes_ok d"
  by (simp add: votes_ok_def)

lemma refresh_ok:
  assumes "dht_ok d" "votes_ok d" "\<And>b. env_ok (es b)"
  shows "dht_ok (refreshTable es rnd now alive d) \<and> votes_ok (refreshTable es rnd now alive d)"
  using assms(2) by (intro conjI refreshTable_ok assms(1,3)) (simp add: votes_ok_def)

lemma maintain_ok:
  assumes d: "dht_ok (rn_dht n)" "votes_ok (rn_dht n)" and e: "\<And>b. env_ok (tk_envs io b)"
  obtains n' where "maintain io loop n = Some n'" "dht_ok (rn_dht n')" "votes_ok (rn_dht n')" "rn_config n' = rn_config n"
    "rn_file n' = rn_file n \<or> rn_dht n' = rn_dht n \<and> (\<exists>data. Save (rn_dht n) = Some (Inr data) \<and> rn_file n' = Some data)"
proof -
  note found = that
  have st: thesis if "maintain io loop n = Some (n\<lparr>rn_dht := d\<rparr>)" "dht_step (rn_dht n) d" for d
    using step_ok [OF that(2) d] by (intro found [OF that(1)]) simp_all
  note M = maintain_def loop.case
  show thesis
  proof (cases loop)
    case TokenLoop
    then show ?thesis by (intro st [OF _ dht_step.rotate]) (simp only: M)
  next
    case PeerLoop
    then show ?thesis by (intro st [OF _ dht_step.expire]) (simp only: M)
  next
    case LimiterLoop
    then show ?thesis by (intro st [OF _ dht_step.cleanup]) (simp only: M)
  next
    case RefreshLoop
    then show ?thesis using found [of "n\<lparr>rn_dht := refreshTable (tk_envs io) (tk_rnd io) (tk_now io) (tk_alive io) (rn_dht n)\<rparr>"]
        refresh_ok [OF d e] by (simp only: M) simp
  next
    case SaveLoop
    obtain data where data: "Save (rn_dht n) = Some (Inr data)" using Save_load [OF d(1)] by metis
    then have m: "maintain io loop n = Some (n\<lparr>rn_file := if tk_written io \<and> tk_renamed io then Some data else rn_file n\<rparr>)"
      using SaveLoop by (simp add: M save_table_def)
    show ?thesis by (rule found [OF m]) (use d data in auto)
  qed
qed

lemma open_node_ok:
  assumes "length rnd = 20" "\<forall>b. crnd = Some b \<longrightarrow> length b = 20" "config_ok defaults" "list_all made_option opts"
    and "open_node rnd crnd secret now listening file defaults opts = Inr n"
  shows "dht_ok (rn_dht n) \<and> votes_ok (rn_dht n) \<and> config_ok (rn_config n) \<and> rn_file n = file \<and> dc_Port (rn_config n) \<le> 65535"
proof -
  let ?c = "apply_options opts defaults"
  have c: "config_ok ?c" by (rule apply_options_ok [OF assms(4,3)])
  have n: "n = \<lparr>rn_config = ?c, rn_dht = New_dht rnd crnd secret (node_config ?c) (read_state now file ?c), rn_file = file, rn_stopped = False\<rparr>"
      "dc_Port ?c \<le> 65535"
    using assms(5) by (auto simp: open_node_def Let_def split: if_splits)
  have "read_state now file ?c = None \<or> loadRoutingTable now (the file) = Inr (the (read_state now file ?c))"
    by (auto simp: read_state_def split: option.splits sum.splits)
  then have "dht_ok (rn_dht n) \<and> votes_ok (rn_dht n)" unfolding n using c
    by (simp, intro New_dht_ok [OF assms(1,2)]) (simp_all add: node_config_def config_ok_def)
  then show ?thesis using c n by simp
qed

lemma node_run_ok:
  assumes "node_run n0 n" "dht_ok (rn_dht n0)" "votes_ok (rn_dht n0)"
  shows "dht_ok (rn_dht n) \<and> votes_ok (rn_dht n) \<and> rn_config n = rn_config n0
    \<and> (rn_file n = rn_file n0 \<or> (\<exists>m data. node_run n0 m \<and> Save (rn_dht m) = Some (Inr data) \<and> rn_file n = Some data))"
  using assms(1)
proof induction
  case opened
  then show ?case using assms(2,3) by simp
next
  case (served n d)
  then show ?case using step_ok [OF served.hyps(2)] by simp
next
  case (looked_up n e t)
  then show ?case using iterativeFindNode_ok [OF looked_up.hyps(2)] votes_eq [OF iterativeFindNode_votes] by simp
next
  case (ticked n loop i io n')
  obtain n'' where "maintain io loop n = Some n''" "dht_ok (rn_dht n'')" "votes_ok (rn_dht n'')" "rn_config n'' = rn_config n"
      "rn_file n'' = rn_file n \<or> rn_dht n'' = rn_dht n \<and> (\<exists>data. Save (rn_dht n) = Some (Inr data) \<and> rn_file n'' = Some data)"
    using maintain_ok [of n io loop] ticked.IH ticked.hyps(4) by blast
  then show ?case using ticked.IH ticked.hyps(1,5) by auto
next
  case (closed n n')
  then show ?case by (auto simp: Close_def split: if_splits)
qed


definition sample_tick :: tick_io where
  "sample_tick = \<lparr>tk_now = 10, tk_secret = replicate 20 7, tk_envs = (\<lambda>_. plain_env (\<lambda>_ _. TimedOut)), tk_rnd = (\<lambda>_. replicate 20 1),
     tk_alive = (\<lambda>_. False), tk_written = True, tk_renamed = True\<rparr>"


end
