(* ===== verification/DhtServer.thy ===== *)
theory DhtServer
  imports DhtNode
begin

text \<open>
  The KRPC server of \<open>internal/dht/krpc/server.go\<close> joined to the node of \<open>internal/dht/dht.go\<close>: the read loop hands
  queries to \<open>handleQuery\<close>, whose replies leave through the same socket, while other goroutines send queries, cancel
  them and close the socket. What a read from the socket gives and whether a write succeeds are arguments.
\<close>

section \<open>The server\<close>

record krpc_server =
  sv_txns :: txn_manager
  sv_open :: bool
  sv_sent :: "(bytes \<times> addrport) list"

definition NewServer :: "bool \<Rightarrow> new_error + krpc_server" where
  "NewServer listening =
     (if listening then Inr \<lparr>sv_txns = NewTransactionManager, sv_open = True, sv_sent = []\<rparr> else Inl ListenFailed)"

datatype server_error = MarshalFailed enc_error | PacketNotWritten

definition server_reply :: "bool \<Rightarrow> message \<Rightarrow> addrport \<Rightarrow> krpc_server \<Rightarrow> (server_error + unit) \<times> krpc_server" where
  "server_reply written msg a s =
     (case Reply msg of
        Inl e \<Rightarrow> (Inl (MarshalFailed e), s)
      | Inr data \<Rightarrow>
          if sv_open s \<and> written then (Inr (), s\<lparr>sv_sent := sv_sent s @ [(data, a)]\<rparr>)
          else (Inl PacketNotWritten, s))"

definition server_send ::
    "bytes list \<Rightarrow> bool \<Rightarrow> message \<Rightarrow> addrport \<Rightarrow> krpc_server \<Rightarrow> ((bytes \<times> nat) option \<times> krpc_server) option" where
  "server_send rnds written msg a s =
     (case Send rnds (sv_open s \<and> written) (sv_txns s) msg of
        None \<Rightarrow> None
      | Some (tm, None) \<Rightarrow> Some (None, s\<lparr>sv_txns := tm\<rparr>)
      | Some (tm, Some (txnID, ch, data)) \<Rightarrow> Some (Some (txnID, ch), s\<lparr>sv_txns := tm, sv_sent := sv_sent s @ [(data, a)]\<rparr>))"

definition server_cancel :: "bytes \<Rightarrow> krpc_server \<Rightarrow> krpc_server option" where
  "server_cancel txnID s = map_option (\<lambda>tm. s\<lparr>sv_txns := tm\<rparr>) (Cancel (sv_txns s) txnID)"

definition server_close :: "krpc_server \<Rightarrow> krpc_server" where
  "server_close s = s\<lparr>sv_open := False\<rparr>"

section \<open>The read loop\<close>

text \<open>
  A read gives a datagram, of which only what fits in the buffer arrives, one whose source is not a UDP address, or an
  error, which ends the loop. The handler is any function of the server's user; \<open>'e\<close> is what it takes from outside
  while it runs. The second component of the loop's result is whether it still reads.
\<close>

definition buffer_size :: nat where "buffer_size = 1500"

datatype received = Datagram bytes addrport | OtherSource bytes | ReadError

definition serve_packet ::
    "('e \<Rightarrow> message \<Rightarrow> addrport \<Rightarrow> 'd \<times> krpc_server \<Rightarrow> ('d \<times> krpc_server) option)
      \<Rightarrow> 'e \<Rightarrow> bytes \<Rightarrow> addrport \<Rightarrow> 'd \<times> krpc_server \<Rightarrow> ('d \<times> krpc_server) option" where
  "serve_packet handler e data a st =
     (case st of (d, s) \<Rightarrow>
        (case receive (sv_txns s) (take buffer_size data) of
           None \<Rightarrow> None
         | Some (tm, None) \<Rightarrow> Some (d, s\<lparr>sv_txns := tm\<rparr>)
         | Some (tm, Some msg) \<Rightarrow> handler e msg a (d, s\<lparr>sv_txns := tm\<rparr>)))"

fun readLoop ::
    "('e \<Rightarrow> message \<Rightarrow> addrport \<Rightarrow> 'd \<times> krpc_server \<Rightarrow> ('d \<times> krpc_server) option)
      \<Rightarrow> ('e \<times> received) list \<Rightarrow> 'd \<times> krpc_server \<Rightarrow> (('d \<times> krpc_server) \<times> bool) option" where
  "readLoop handler [] st = Some (st, True)"
| "readLoop handler ((e, ReadError) # ps) st = Some (st, False)"
| "readLoop handler ((e, OtherSource data) # ps) st = readLoop handler ps st"
| "readLoop handler ((e, Datagram data a) # ps) st =
     (case serve_packet handler e data a st of None \<Rightarrow> None | Some st \<Rightarrow> readLoop handler ps st)"

section \<open>The node behind the server\<close>

text \<open>
  The effects of a query in their order; \<open>replaceIfDead\<close> runs in a goroutine of its own, which waits in the list. From outside
  come the clock and whether the reply can be written.
\<close>

fun perform :: "bool \<Rightarrow> effect list \<Rightarrow> (node \<times> node) list \<times> krpc_server \<Rightarrow> (node \<times> node) list \<times> krpc_server" where
  "perform written [] (g, s) = (g, s)"
| "perform written (SendReply m a # es) (g, s) = perform written es (g, snd (server_reply written m a s))"
| "perform written (ReplaceIfDead old new # es) (g, s) = perform written es (g @ [(old, new)], s)"

definition node_handler ::
    "int \<times> bool \<Rightarrow> message \<Rightarrow> addrport \<Rightarrow> (dht \<times> (node \<times> node) list) \<times> krpc_server \<Rightarrow> ((dht \<times> (node \<times> node) list) \<times> krpc_server) option" where
  "node_handler e msg a st =
     (case (e, st) of ((now, written), (d, g), s) \<Rightarrow>
        (case handleQuery now d msg a of
           None \<Rightarrow> None
         | Some (d, es) \<Rightarrow> (case perform written es (g, s) of (g, s) \<Rightarrow> Some ((d, g), s))))"

text \<open>Everything that happens to a node and its server, in any order.\<close>

inductive server_run ::
    "(dht \<times> (node \<times> node) list) \<times> krpc_server \<Rightarrow> (dht \<times> (node \<times> node) list) \<times> krpc_server \<Rightarrow> bool" for w0 where
  start: "server_run w0 w0"
| packet: "server_run w0 w \<Longrightarrow> has4 a \<Longrightarrow> serve_packet node_handler e data a w = Some w' \<Longrightarrow> server_run w0 w'"
| replaced: "server_run w0 ((d, g), s) \<Longrightarrow> (old, new) \<in> set g
    \<Longrightarrow> server_run w0 ((replaceIfDead now alive d old new, remove1 (old, new) g), s)"
| event: "server_run w0 ((d, g), s) \<Longrightarrow> dht_step d d' \<Longrightarrow> server_run w0 ((d', g), s)"
| looked_up: "server_run w0 ((d, g), s) \<Longrightarrow> env_ok e \<Longrightarrow> server_run w0 ((l_dht (fst (iterativeFindNode e t d)), g), s)"
| sent: "server_run w0 (n, s) \<Longrightarrow> server_send rnds written m b s = Some (r, s') \<Longrightarrow> server_run w0 (n, s')"
| cancelled: "server_run w0 (n, s) \<Longrightarrow> server_cancel t s = Some s' \<Longrightarrow> server_run w0 (n, s')"
| closed: "server_run w0 (n, s) \<Longrightarrow> server_run w0 (n, server_close s)"

section \<open>What a query leaves on the wire\<close>

lemma dispatch_effects:
  assumes "dispatch now d msg a = Some (d', es)"
  shows "es = [] \<or> (\<exists>m. es = [SendReply m a] \<and> (Type m = key ''r'' \<or> Type m = key ''e''))"
  using assms unfolding dispatch_def handlePing_def handleFindNode_def handleGetPeers_def handleAnnouncePeer_def
  by (auto simp: Let_def response_def bad_token_def split: if_splits option.splits sum.splits bool.splits)

lemma insert_sender_effects:
  "insert_sender now d i a c = (d', es) \<Longrightarrow> \<forall>e \<in> set es. \<exists>old new. e = ReplaceIfDead old new"
  by (auto simp: insert_sender_def Let_def split: if_splits prod.splits option.splits)

lemma handleQuery_effects:
  assumes "handleQuery now d msg a = Some (d', es)"
  obtains sp rs where "es = sp @ rs" "\<forall>e \<in> set sp. \<exists>old new. e = ReplaceIfDead old new"
    "rs = [] \<or> (\<exists>m. rs = [SendReply m a] \<and> (Type m = key ''r'' \<or> Type m = key ''e''))"
  using assms
proof (cases rule: handleQuery_cases)
  case dropped
  then show ?thesis using that [of "[]" "[]"] by simp
next
  case (handled d1 i d2 c go_on d3 spawned es')
  show ?thesis by (rule that [OF handled(7) insert_sender_effects [OF handled(5)] dispatch_effects [OF handled(6)]])
qed

lemma perform_append: "perform w (xs @ ys) x = perform w ys (perform w xs x)"
  by (induction w xs x rule: perform.induct) auto

lemma perform_spawns:
  "\<forall>e \<in> set sp. \<exists>old new. e = ReplaceIfDead old new \<Longrightarrow> snd (perform w sp (g, s)) = s"
  by (induction sp arbitrary: g) auto

lemma perform_goroutines:
  "set (fst (perform w es (g, s))) = set g \<union> {(old, new). ReplaceIfDead old new \<in> set es}"
  by (induction w es "(g, s)" arbitrary: g s rule: perform.induct) auto


section \<open>The invariant\<close>

definition goroutine_ok :: "node \<times> node \<Rightarrow> bool" where
  "goroutine_ok g \<longleftrightarrow> node_ok (snd g) \<and> has4 (Addr (snd g))"

definition served_ok :: "(dht \<times> (node \<times> node) list) \<times> krpc_server \<Rightarrow> bool" where
  "served_ok w \<longleftrightarrow> (case w of ((d, g), s) \<Rightarrow> dht_ok d \<and> votes_ok d \<and> list_all goroutine_ok g \<and> txn_reachable (sv_txns s))"

lemma received_tid:
  assumes "Unmarshal (take buffer_size data) = Inr q"
  shows "in_int64 (int (length (TransactionID q)))"
proof -
  have "length (take buffer_size data) \<le> 1500" by (simp add: buffer_size_def)
  then have "in_int64 (int (length (take buffer_size data)))" by (simp add: in_int64_def int64_min_def int64_max_def)
  from Unmarshal_wf [OF this assms] show ?thesis by (simp add: wf_message_def)
qed

text \<open>A packet that is not a query touches the table of transactions at most; one that is a query leaves it alone.\<close>

lemma receive_cases:
  assumes "txn_reachable tm"
  obtains (other) tm' where "receive tm data = Some (tm', None)" "txn_reachable tm'"
      "\<And>q. Unmarshal data = Inr q \<Longrightarrow> Type q \<noteq> key ''q''"
    | (query) q where "receive tm data = Some (tm, Some q)" "Unmarshal data = Inr q" "Type q = key ''q''"
proof (cases "Unmarshal data")
  case (Inl e)
  then show ?thesis using assms by (intro other) (auto simp: receive_def)
next
  case (Inr q)
  obtain tm' ok where c: "Complete tm (TransactionID q) q = Some (tm', ok)"
    using Complete_eq [OF txn_reachable_ok [OF assms], of "TransactionID q" q]
    by (cases "map_of (pending tm) (TransactionID q)") auto
  then have "txn_reachable tm'" using assms by (blast intro: txn_reachable.step txn_step.complete)
  then show ?thesis
    using Inr c assms other [of tm'] other [of tm] query [of q]
    by (cases "Type q = key ''r'' \<or> Type q = key ''e''"; cases "Type q = key ''q''") (auto simp: receive_def ascii_def)
qed

lemma reply_sent:
  assumes "sendable m"
  obtains b where "Unmarshal b = Inr (norm_message m)"
    "snd (server_reply written m a s) = (if sv_open s \<and> written then s\<lparr>sv_sent := sv_sent s @ [(b, a)]\<rparr> else s)"
  using assms by (elim Marshal_Unmarshal) (auto simp: server_reply_def Reply_def)

lemma norm_message_simps [simp]: "TransactionID (norm_message m) = TransactionID m" "Type (norm_message m) = Type m"
  by (simp_all add: norm_message_def)

definition answers :: "message \<Rightarrow> addrport \<Rightarrow> (bytes \<times> addrport) list \<Rightarrow> bool" where
  "answers q a out \<longleftrightarrow> out = [] \<or> (\<exists>b m. out = [(b, a)] \<and> Unmarshal b = Inr m \<and> TransactionID m = TransactionID q
     \<and> (Type m = key ''r'' \<or> Type m = key ''e''))"

lemma node_handler_ok:
  assumes "served_ok ((d, g), s)" "has4 a" "in_int64 (int (length (TransactionID q)))"
  obtains d' g' s' out where "node_handler e q a ((d, g), s) = Some ((d', g'), s')" "served_ok ((d', g'), s')" "d_id d' = d_id d"
    "s' = s\<lparr>sv_sent := sv_sent s @ out\<rparr>" "answers q a out"
proof -
  obtain now written where e: "e = (now, written)" by (cases e)
  have d: "dht_ok d" "votes_ok d" "list_all goroutine_ok g" "txn_reachable (sv_txns s)" using assms(1) by (auto simp: served_ok_def)
  obtain d' es where h: "handleQuery now d q a = Some (d', es)" and d': "dht_ok d'" "d_id d' = d_id d" and r: "list_all (reply_ok d q a) es"
    using handleQuery_good [OF d(1) assms(2,3)] unfolding good_def by blast
  obtain sp rs where es: "es = sp @ rs" and sp: "\<forall>e \<in> set sp. \<exists>old new. e = ReplaceIfDead old new"
    and rs: "rs = [] \<or> (\<exists>m. rs = [SendReply m a] \<and> (Type m = key ''r'' \<or> Type m = key ''e''))"
    by (rule handleQuery_effects [OF h])
  obtain g' s' where p: "perform written es (g, s) = (g', s')" by (cases "perform written es (g, s)")
  obtain g1 where p1: "perform written sp (g, s) = (g1, s)" using perform_spawns [OF sp, of written g s] by (metis prod.collapse)
  have s': "\<exists>out. s' = s\<lparr>sv_sent := sv_sent s @ out\<rparr> \<and> answers q a out"
  proof (cases "rs = []")
    case True
    then show ?thesis using p p1 by (intro exI [of _ "[]"]) (simp add: es answers_def)
  next
    case False
    then obtain m where m: "rs = [SendReply m a]" "Type m = key ''r'' \<or> Type m = key ''e''" using rs by blast
    with r have "sendable m" "TransactionID m = TransactionID q" by (auto simp: es reply_ok_def)
    moreover obtain b where "Unmarshal b = Inr (norm_message m)"
      "snd (server_reply written m a s) = (if sv_open s \<and> written then s\<lparr>sv_sent := sv_sent s @ [(b, a)]\<rparr> else s)"
      using reply_sent [OF calculation(1)] by blast
    ultimately show ?thesis using p p1 m
      by (intro exI [of _ "if sv_open s \<and> written then [(b, a)] else []"]) (auto simp: es perform_append answers_def)
  qed
  have g': "list_all goroutine_ok g'"
    using perform_goroutines [of written es g s] p r d(3) by (fastforce simp: list_all_iff reply_ok_def goroutine_ok_def)
  from s' obtain out where out: "s' = s\<lparr>sv_sent := sv_sent s @ out\<rparr>" "answers q a out" by blast
  show thesis
  proof (rule that [OF _ _ d'(2) out])
    show "node_handler e q a ((d, g), s) = Some ((d', g'), s')" by (simp add: node_handler_def e h p)
    show "served_ok ((d', g'), s')"
      using d' g' d handleQuery_votes [OF h] out(1) by (simp add: served_ok_def votes_ok_def)
  qed
qed

text \<open>One packet.\<close>

lemma serve_packet_ok:
  assumes "served_ok ((d, g), s)" "has4 a"
  obtains d' g' s' where "serve_packet node_handler e data a ((d, g), s) = Some ((d', g'), s')" "served_ok ((d', g'), s')" "d_id d' = d_id d"
    "(d', g', sv_sent s') = (d, g, sv_sent s) \<or> (\<exists>q out. Unmarshal (take buffer_size data) = Inr q \<and> Type q = key ''q''
       \<and> sv_txns s' = sv_txns s \<and> sv_sent s' = sv_sent s @ out \<and> answers q a out)"
proof -
  have t: "txn_reachable (sv_txns s)" using assms(1) by (simp add: served_ok_def)
  from t show thesis
  proof (cases rule: receive_cases [where data = "take buffer_size data"])
    case (other tm')
    show ?thesis by (rule that [of d g "s\<lparr>sv_txns := tm'\<rparr>"]) (use assms(1) other in \<open>simp_all add: serve_packet_def served_ok_def\<close>)
  next
    case (query q)
    have s: "s\<lparr>sv_txns := sv_txns s\<rparr> = s" by simp
    obtain d' g' s' out where h: "node_handler e q a ((d, g), s) = Some ((d', g'), s')" "served_ok ((d', g'), s')" "d_id d' = d_id d"
      "s' = s\<lparr>sv_sent := sv_sent s @ out\<rparr>" "answers q a out"
      by (rule node_handler_ok [OF assms received_tid [OF query(2)]])
    show ?thesis by (rule that [OF _ h(2,3)]) (use h query in \<open>auto simp: serve_packet_def s\<close>)
  qed
qed

lemma readLoop_total:
  assumes "served_ok w" "\<forall>e data a. (e, Datagram data a) \<in> set ps \<longrightarrow> has4 a"
  shows "\<exists>w' go_on. readLoop node_handler ps w = Some (w', go_on) \<and> served_ok w'"
  using assms
proof (induction "node_handler" ps w rule: readLoop.induct)
  case (4 e data a ps w)
  obtain d g s where w: "w = ((d, g), s)" by (metis prod.exhaust)
  have a: "has4 a" using 4(3) by (meson list.set_intros(1))
  obtain w' where "serve_packet node_handler e data a w = Some w'" "served_ok w'"
    using serve_packet_ok [OF 4(2) [unfolded w] a] w by metis
  then show ?case using 4 by auto
qed auto

lemma served_ok_remove: "list_all goroutine_ok g \<Longrightarrow> list_all goroutine_ok (remove1 x g)"
  by (auto simp: list_all_iff dest: notin_set_remove1 [rotated] in_set_remove1 [THEN iffD1, rotated] set_remove1_subset [THEN subsetD])

lemma server_run_ok: "server_run w0 w \<Longrightarrow> served_ok w0 \<Longrightarrow> served_ok w"
proof (induction rule: server_run.induct)
  case (packet w a e data w')
  obtain d g s where w: "w = ((d, g), s)" by (metis prod.exhaust)
  show ?case using serve_packet_ok [OF packet.IH [OF packet.prems, unfolded w] packet.hyps(2), of e data] packet.hyps(3) w by auto
next
  case (replaced d g s old new now alive)
  then have "dht_ok d" "votes_ok d" "goroutine_ok (old, new)" "list_all goroutine_ok g" "txn_reachable (sv_txns s)"
    by (auto simp: served_ok_def list_all_iff)
  then show ?case using step_ok [OF dht_step.replace [of new d now alive old]] served_ok_remove by (simp add: served_ok_def goroutine_ok_def)
next
  case (event d g s d')
  then show ?case using step_ok by (simp add: served_ok_def)
next
  case (looked_up d g s e t)
  then show ?case using iterativeFindNode_ok votes_eq [OF iterativeFindNode_votes] by (simp add: served_ok_def)
next
  case (sent n s rnds written m b r s')
  have "txn_reachable (sv_txns s)" using sent by (auto simp: served_ok_def)
  then have "txn_reachable (sv_txns s')" using sent.hyps(2)
    by (auto simp: server_send_def Send_def split: option.splits sum.splits if_splits prod.splits
        intro: txn_reachable.step [OF txn_reachable.step [OF _ txn_step.add] txn_step.cancel] txn_reachable.step [OF _ txn_step.add])
  then show ?case using sent.IH [OF sent.prems] by (auto simp: served_ok_def)
next
  case (cancelled n s t s')
  then show ?case by (auto simp: served_ok_def server_cancel_def intro: txn_reachable.step [OF _ txn_step.cancel])
next
  case (closed n s)
  then show ?case by (auto simp: served_ok_def server_close_def)
qed


section \<open>Properties\<close>

lemma response_delivered:
  assumes "served_ok ((d, g), s)" "Unmarshal (take buffer_size data) = Inr m" "Type m = key ''r'' \<or> Type m = key ''e''"
    and "map_of (pending (sv_txns s)) (TransactionID m) = Some ch"
  obtains s' where "serve_packet node_handler e data a ((d, g), s) = Some ((d, g), s')" "delivered (sv_txns s') ch = Some m"
    "sv_sent s' = sv_sent s"
proof -
  have ok: "txn_ok (sv_txns s)" using assms(1) txn_reachable_ok by (simp add: served_ok_def)
  show thesis
    by (rule that [of "s\<lparr>sv_txns := (sv_txns s)\<lparr>chans := (chans (sv_txns s))[ch := \<lparr>buffered = Some m, closed = True\<rparr>],
            pending := dict_del (TransactionID m) (pending (sv_txns s))\<rparr>\<rparr>"])
      (use assms(2-4) txn_ok_pending [OF ok assms(4)] in
        \<open>auto simp: serve_packet_def receive_def Complete_eq [OF ok] delivered_def\<close>)
qed


definition ping_packet :: bytes where
  "ping_packet = (case Marshal sample_query of Inr b \<Rightarrow> b)"


end
