(* ===== verification/Commands.thy ===== *)
theory Commands
  imports Downloader DhtNode Seeder
begin

text \<open>
  The commands of \<open>cmd/bittorrent\<close> (\<open>command.go\<close>, \<open>main.go\<close>) and the daemon of \<open>cmd/dhtd\<close>: how the parts are put
  together. Arguments are the words after the program's name; the files, the trackers, the DHT's socket and the scheduling
  of the goroutines are arguments of the commands.
\<close>

section \<open>Info hashes on the command line\<close>

text \<open>The white space \<open>strings.TrimSpace\<close> takes off: the encodings of the space characters of Unicode.\<close>

definition space_chars :: "bytes list" where
  "space_chars = [[0x09], [0x0A], [0x0B], [0x0C], [0x0D], [0x20], [0xC2, 0x85], [0xC2, 0xA0], [0xE1, 0x9A, 0x80],
     [0xE2, 0x80, 0xA8], [0xE2, 0x80, 0xA9], [0xE2, 0x80, 0xAF], [0xE2, 0x81, 0x9F], [0xE3, 0x80, 0x80]]
     @ map (\<lambda>k. [0xE2, 0x80, 0x80 + of_nat k]) [0..<11]"

function trim_front :: "bytes list \<Rightarrow> bytes \<Rightarrow> bytes" where
  "trim_front cs s =
     (case find (\<lambda>c. c \<noteq> [] \<and> take (length c) s = c) cs of
        None \<Rightarrow> s
      | Some c \<Rightarrow> trim_front cs (drop (length c) s))"
  by pat_completeness auto

termination
proof (relation "measure (length \<circ> snd)")
  fix cs s c assume "find (\<lambda>c. c \<noteq> [] \<and> take (length c) s = c) cs = Some (c :: bytes)"
  then have "c \<noteq> []" "take (length c) s = c" by (auto simp: find_Some_iff)
  then show "((cs, drop (length c) s), (cs, s)) \<in> measure (length \<circ> snd)" by (cases s; cases c) auto
qed simp

declare trim_front.simps [simp del]

definition TrimSpace :: "bytes \<Rightarrow> bytes" where
  "TrimSpace s = rev (trim_front (map rev space_chars) (rev (trim_front space_chars s)))"

text \<open>\<open>strings.Split\<close> at a comma.\<close>

fun split_comma :: "bytes \<Rightarrow> bytes list" where
  "split_comma [] = [[]]"
| "split_comma (b # bs) =
     (if b = 0x2C then [] # split_comma bs
      else case split_comma bs of [] \<Rightarrow> [[b]] | p # ps \<Rightarrow> (b # p) # ps)"

datatype hash_error = InvalidHex bytes | WrongLength bytes nat

fun parse_hashes :: "bytes list \<Rightarrow> bytes list \<Rightarrow> hash_error + bytes list" where
  "parse_hashes [] hashes = Inr hashes"
| "parse_hashes (p # parts) hashes =
     (let p = TrimSpace p
      in if p = [] then parse_hashes parts hashes
         else case hex_decode p of
                None \<Rightarrow> Inl (InvalidHex p)
              | Some b \<Rightarrow> if length b \<noteq> 20 then Inl (WrongLength p (length b)) else parse_hashes parts (hashes @ [b]))"

definition parseInfoHashes :: "bytes \<Rightarrow> hash_error + bytes list" where
  "parseInfoHashes s = parse_hashes (split_comma s) []"

section \<open>The DHT of a download\<close>

text \<open>
  What a node is started with: its random bytes, the clock, the socket, the file at its path, the default options, and
  the answers to its bootstrap queries.
\<close>

record 'l dht_io =
  io_rnd :: bytes
  io_crnd :: "bytes option"
  io_secret :: bytes
  io_now :: int
  io_listening :: bool
  io_file :: "bytes option"
  io_defaults :: "'l config"
  io_iter :: "(addr, int) dict \<Rightarrow> (addr \<times> int) list"
  io_env :: env
  io_bootstrap :: "(addrport option \<times> Lookup.outcome \<times> bytes option \<times> int) list"

definition open_with :: "'l dht_io \<Rightarrow> 'l dht_option list \<Rightarrow> new_error + 'l running" where
  "open_with io opts = open_node (io_rnd io) (io_crnd io) (io_secret io) (io_now io) (io_listening io) (io_file io) (io_defaults io) opts"

definition bootstrapped :: "'l dht_io \<Rightarrow> 'l running \<Rightarrow> 'l running" where
  "bootstrapped io n = n\<lparr>rn_dht := Bootstrap (io_iter io) (io_env io) (io_bootstrap io) (rn_dht n)\<rparr>"

text \<open>\<open>Bootstrap\<close> has no error, so \<open>startDHT\<close> fails only where \<open>New\<close> does.\<close>

definition startDHT :: "'l dht_io \<Rightarrow> bytes \<Rightarrow> 'l running option" where
  "startDHT io dhtStatePath =
     (case open_with io [WithRoutingTable dhtStatePath] of Inl e \<Rightarrow> None | Inr n \<Rightarrow> Some (bootstrapped io n))"

text \<open>\<open>str\<close> is \<open>AddrPort.String\<close>, the key of the addresses seen.\<close>

fun add_peers :: "(addrport \<Rightarrow> string) \<Rightarrow> addrport list \<Rightarrow> string list \<Rightarrow> addrport list \<Rightarrow> addrport list" where
  "add_peers str [] seen existing = existing"
| "add_peers str (a # addrs) seen existing =
     (if str a \<in> set seen then add_peers str addrs seen existing
      else add_peers str addrs (str a # seen) (existing @ [a]))"

definition dhtPeers :: "(addrport \<Rightarrow> string) \<Rightarrow> env \<Rightarrow> bytes \<Rightarrow> addrport list \<Rightarrow> dht \<Rightarrow> dht \<times> addrport list" where
  "dhtPeers str e infoHash existing d =
     (case GetPeers e infoHash d of
        Inl err \<Rightarrow> (d, existing)
      | Inr (l, addrs) \<Rightarrow> (l_dht l, add_peers str addrs (map str existing) existing))"

definition dhtAnnounce :: "env \<Rightarrow> (node \<Rightarrow> Lookup.outcome) \<Rightarrow> bytes \<Rightarrow> int \<Rightarrow> dht \<Rightarrow> dht \<times> (addrport \<times> message) list" where
  "dhtAnnounce e res infoHash port d =
     (case Announce e res infoHash port d of Inl err \<Rightarrow> (d, []) | Inr (d, l, sent) \<Rightarrow> (d, sent))"

section \<open>Downloading\<close>

text \<open>
  \<open>w_schedule\<close> is what the goroutines of the download make of the swarm until its results end: the swarm
  then, or nothing when the time runs out first. \<open>w_progress\<close> is what the updates of the download leave of the trackers,
  \<open>w_progress\<close> and \<open>w_ask\<close> share the trackers' state.
\<close>

record ('t, 'l) world =
  w_read :: "bytes \<Rightarrow> bytes option"
  w_new :: "bytes \<Rightarrow> (tracker_error + 't) run"
  w_ask :: "announce_request \<Rightarrow> 't \<Rightarrow> ((tracker_error + announce_response) \<times> 't) run"
  w_progress :: "'t list \<Rightarrow> 't list"
  w_peerID :: "bytes option"
  w_rnd :: nat
  w_str :: "addrport \<Rightarrow> string"
  w_dht :: "'l dht_io"
  w_dhtStatePath :: bytes
  w_lookup :: env
  w_storageDir :: bytes
  w_made :: bool
  w_stored :: files
  w_rest :: bytes
  w_schedule :: "swarm \<Rightarrow> swarm option"
  w_save :: save_io
  w_spare :: bytes
  w_files :: "path \<Rightarrow> bytes option"

datatype download_error = DownloadTimeout | PiecesFailed "nat list"

definition Download :: "('t, 'l) world \<Rightarrow> 't list download_config \<Rightarrow> torrent_info \<Rightarrow> addrport list \<Rightarrow> (download_error + bytes) option" where
  "Download w cfg info peers =
     map_option (\<lambda>s. case w_schedule w s of
          None \<Rightarrow> Inl DownloadTimeout
        | Some s \<Rightarrow> (case collectResults (sh_pm (sw_shared s)) of Inl missing \<Rightarrow> Inl (PiecesFailed missing) | Inr content \<Rightarrow> Inr content))
       (start_download cfg (w_made w) (w_stored w) (w_rest w) info (map (\<lambda>a. (w_str w a, a)) peers))"

datatype command_error = ReadFailed | BadTorrent meta_error | BadTrackers tracker_error | NoRandom | AnnounceFailed tracker_error
  | DownloadFailed download_error | SaveFailed save_error | BadMetadata metadata_error
  | UsageSeed | StoreUnusable store_error | PiecesMissing nat nat | BadHashes hash_error | NodeFailed new_error | BadExternalIP

definition DownloadFile ::
    "('t, 'l) world \<Rightarrow> torrent_info \<Rightarrow> addrport list \<Rightarrow> int \<Rightarrow> bytes \<Rightarrow> ('t list download_config \<Rightarrow> 't list download_config) list
      \<Rightarrow> ((command_error + unit) \<times> (path \<Rightarrow> bytes option)) option" where
  "DownloadFile w info peers maxWorkers downloadPath opts =
     (case Download w (fold (\<lambda>opt c. opt c) (WithMaxWorkers maxWorkers # opts) (DefaultDownloadConfig (w_rnd w))) info peers of
        None \<Rightarrow> None
      | Some (Inl e) \<Rightarrow> Some (Inl (DownloadFailed e), w_files w)
      | Some (Inr content) \<Rightarrow>
          map_option (\<lambda>(r, fs). (case r of Inl e \<Rightarrow> Inl (SaveFailed e) | Inr _ \<Rightarrow> Inr (), fs))
            (SaveFile (w_save w) info downloadPath content (w_spare w) (w_files w)))"

text \<open>How a command ends: its error, the announces it made itself, and the files it leaves.\<close>

record session =
  se_error :: "command_error option"
  se_requests :: "announce_request list"
  se_files :: "path \<Rightarrow> bytes option"

definition run_bind :: "'a run \<Rightarrow> ('a \<Rightarrow> 'b run) \<Rightarrow> 'b run" where
  "run_bind m f = (case m of Waiting \<Rightarrow> Waiting | Panics \<Rightarrow> Panics | Done x \<Rightarrow> f x)"

definition failed :: "('t, 'l) world \<Rightarrow> command_error \<Rightarrow> announce_request list \<Rightarrow> session run" where
  "failed w e reqs = Done \<lparr>se_error = Some e, se_requests = reqs, se_files = w_files w\<rparr>"

text \<open>The peers: those of the tracker, and after them new ones that the DHT knows.\<close>

definition session_peers :: "('t, 'l) world \<Rightarrow> bytes \<Rightarrow> addrport list \<Rightarrow> addrport list" where
  "session_peers w infoHash peers =
     (case startDHT (w_dht w) (w_dhtStatePath w) of
        None \<Rightarrow> peers
      | Some n \<Rightarrow> snd (dhtPeers (w_str w) (w_lookup w) infoHash peers (rn_dht n)))"

text \<open>From the first announce to the last, the same code in both commands.\<close>

definition announce_and_download ::
    "('t, 'l) world \<Rightarrow> torrent_info \<Rightarrow> bytes \<Rightarrow> 't list \<Rightarrow> announce_request \<Rightarrow> bytes \<Rightarrow> session run" where
  "announce_and_download w info infoHash trackers req downloadPath =
     run_bind (try_trackers (w_ask w req) trackers None) (\<lambda>(r, trackers).
       case r of
         Inl e \<Rightarrow> failed w (AnnounceFailed e) [req]
       | Inr resp \<Rightarrow>
           (case DownloadFile w info (session_peers w infoHash (r_Peers resp)) 50 downloadPath
                   [WithTracker trackers req, WithAnnounceInterval (r_Interval resp), WithStorageDir (w_storageDir w)] of
              None \<Rightarrow> Panics
            | Some (Inl e, fs) \<Rightarrow> Done \<lparr>se_error = Some e, se_requests = [req], se_files = fs\<rparr>
            | Some (Inr _, fs) \<Rightarrow>
                (let stopped = req\<lparr>a_Event := EventStopped, a_Left := 0\<rparr>
                 in run_bind (try_trackers (w_ask w stopped) (w_progress w trackers) None)
                      (\<lambda>_. Done \<lparr>se_error = None, se_requests = [req, stopped], se_files = fs\<rparr>))))"

definition started_request :: "torrent_info \<Rightarrow> bytes \<Rightarrow> bytes \<Rightarrow> announce_request" where
  "started_request info infoHash peerID =
     \<lparr>a_InfoHash = infoHash, a_PeerID = peerID, a_IP = 0, a_Port = 6881, a_Uploaded = 0, a_Downloaded = 0,
      a_Left = word_of_int (i_Length info), a_Event = EventStarted\<rparr>"

definition handleDownload :: "('t, 'l) world \<Rightarrow> bytes list \<Rightarrow> session run" where
  "handleDownload w args =
     (if length args < 4 then Panics
      else case w_read w (args ! 3) of
             None \<Rightarrow> failed w ReadFailed []
           | Some contents \<Rightarrow>
               (case DeserializeTorrent contents of
                  None \<Rightarrow> Panics
                | Some (Inl e) \<Rightarrow> failed w (BadTorrent e) []
                | Some (Inr t) \<Rightarrow>
                    (if PieceHashes (w_rest w) (t_Info t) = None then Panics
                     else run_bind (NewMultiTracker (w_new w) (TrackerURLs t)) (\<lambda>r.
                       case r of
                         Inl e \<Rightarrow> failed w (BadTrackers e) []
                       | Inr trackers \<Rightarrow>
                           (case w_peerID w of
                              None \<Rightarrow> failed w NoRandom []
                            | Some peerID \<Rightarrow>
                                announce_and_download w (t_Info t) (i_InfoHash (t_Info t)) trackers
                                  (started_request (t_Info t) (i_InfoHash (t_Info t)) peerID) (args ! 2))))))"

text \<open>
  A magnet download. \<open>xt\<close>, \<open>tr\<close>: the query values of the link; \<open>dial\<close> connects to a peer. When no peer could
  be connected, closing its connection panics.
\<close>

definition handleMagnetDownload ::
    "('t, 'l) world \<Rightarrow> (bytes \<Rightarrow> bytes list \<times> bytes list) \<Rightarrow> (addrport \<Rightarrow> conn option) \<Rightarrow> int \<Rightarrow> bytes list \<Rightarrow> session run" where
  "handleMagnetDownload w link dial maxAlloc args =
     (if length args < 4 then Panics
      else run_bind (ConnectToMagnetPeer (fst (link (args ! 3))) (snd (link (args ! 3))) (w_new w) (w_ask w) dial) (\<lambda>r.
        case r of
          Inl e \<Rightarrow> Panics
        | Inr (p, magnet) \<Rightarrow>
            (case DownloadMetadata maxAlloc magnet p of
               None \<Rightarrow> Panics
             | Some (Inl e, p) \<Rightarrow> failed w (BadMetadata e) []
             | Some (Inr metadata, p) \<Rightarrow>
                 (let info = metadata\<lparr>i_InfoHash := mg_InfoHash magnet\<rparr>
                  in run_bind (NewMultiTracker (w_new w) (mg_TrackerURLs magnet)) (\<lambda>r.
                       case r of
                         Inl e \<Rightarrow> failed w (BadTrackers e) []
                       | Inr trackers \<Rightarrow>
                           announce_and_download w info (mg_InfoHash magnet) trackers
                             (started_request info (mg_InfoHash magnet) (replicate 20 0)) (args ! 2))))))"

section \<open>Seeding\<close>

text \<open>
  The part before the network: the store is opened, every piece must be in it, and the seeder serves from a piece
  manager on it. The other result is the announces made: one when it starts, one when it stops.
\<close>

definition seed_setup :: "('t, 'l) world \<Rightarrow> torrent_info \<Rightarrow> (command_error + piece_manager \<times> seeder) option" where
  "seed_setup w info =
     (case PieceHashes (w_rest w) info of
        None \<Rightarrow> None
      | Some pieceHashes \<Rightarrow>
          (let numPieces = length pieceHashes
           in case NewDiskStore (w_made w) (w_stored w) numPieces (i_PieceLength info) (i_Length info) of
                Inl e \<Rightarrow> Some (Inl (StoreUnusable e))
              | Inr store \<Rightarrow>
                  (let missing = length (filter Not (DiskCompleted store))
                   in if missing > 0 then Some (Inl (PiecesMissing missing numPieces))
                      else (let pm = NewPieceManager (piece_infos info pieceHashes) 0 (Some store)
                            in Some (Inr (pm, New_seeder (i_InfoHash info) numPieces (GetBlock pm) (PMCompletedBitfield pm) DefaultSeederConfig))))))"

definition completed_request :: "torrent_info \<Rightarrow> int \<Rightarrow> announce_request" where
  "completed_request info port = no_request\<lparr>a_InfoHash := i_InfoHash info, a_Port := word_of_int port, a_Event := EventCompleted\<rparr>"

definition handleSeed :: "('t, 'l) world \<Rightarrow> int \<Rightarrow> bytes list \<Rightarrow> (command_error + (piece_manager \<times> seeder) \<times> announce_request list) run" where
  "handleSeed w port args =
     (if length args < 4 then Done (Inl UsageSeed)
      else case w_read w (args ! 3) of
             None \<Rightarrow> Done (Inl ReadFailed)
           | Some contents \<Rightarrow>
               (case DeserializeTorrent contents of
                  None \<Rightarrow> Panics
                | Some (Inl e) \<Rightarrow> Done (Inl (BadTorrent e))
                | Some (Inr t) \<Rightarrow>
                    (case seed_setup w (t_Info t) of
                       None \<Rightarrow> Panics
                     | Some (Inl e) \<Rightarrow> Done (Inl e)
                     | Some (Inr seeding) \<Rightarrow>
                         run_bind (NewMultiTracker (w_new w) (TrackerURLs t)) (\<lambda>r.
                           case r of
                             Inl e \<Rightarrow> Done (Inr (seeding, []))
                           | Inr trackers \<Rightarrow>
                               (let req = completed_request (t_Info t) port; stopped = req\<lparr>a_Event := EventStopped\<rparr>
                                in run_bind (try_trackers (w_ask w req) trackers None) (\<lambda>(_, trackers).
                                     run_bind (try_trackers (w_ask w stopped) trackers None) (\<lambda>_. Done (Inr (seeding, [req, stopped])))))))))"

section \<open>The DHT command and the daemon\<close>

text \<open>The flags, as the flag package of the standard library reads them.\<close>

record dht_flags =
  fl_port :: int
  fl_state :: bytes
  fl_infohash :: bytes
  fl_ratelimit :: int
  fl_metrics_port :: int
  fl_bep42 :: bytes
  fl_external_ip :: bytes

definition bep42_flag :: "bool \<Rightarrow> bytes \<Rightarrow> bep42_mode" where
  "bep42_flag daemon s =
     (if s = ascii ''log'' then BEP42Log else if s = ascii ''enforce'' then BEP42Enforce
      else if daemon \<and> s = ascii ''table'' then BEP42TableOnly else BEP42Off)"

definition dht_options :: "bool \<Rightarrow> 'l \<Rightarrow> dht_flags \<Rightarrow> 'l dht_option list" where
  "dht_options daemon logger fl =
     [WithPort (fl_port fl), WithLogger logger, WithRoutingTable (fl_state fl), WithRateLimit (fl_ratelimit fl) (60 * second),
      WithMetricsPort (fl_metrics_port fl), WithBEP42 (bep42_flag daemon (fl_bep42 fl))]"

text \<open>
  One round of announces, each with its own answers; then the node runs until it is told to stop, saves its table
  and closes. \<open>later\<close> is the running node then.
\<close>

fun announce_all :: "(bytes \<Rightarrow> env) \<Rightarrow> (bytes \<Rightarrow> node \<Rightarrow> Lookup.outcome) \<Rightarrow> int \<Rightarrow> bytes list \<Rightarrow> dht \<Rightarrow> dht \<times> (addrport \<times> message) list" where
  "announce_all e res port [] d = (d, [])"
| "announce_all e res port (ih # infoHashes) d =
     (let (d, sent) = dhtAnnounce (e ih) (res ih) ih port d; (d, more) = announce_all e res port infoHashes d
      in (d, sent @ more))"

definition run_node ::
    "'l dht_io \<Rightarrow> (bytes \<Rightarrow> env) \<Rightarrow> (bytes \<Rightarrow> node \<Rightarrow> Lookup.outcome) \<Rightarrow> ('l running \<Rightarrow> 'l running) \<Rightarrow> bool \<Rightarrow> bool \<Rightarrow> int \<Rightarrow> bytes list \<Rightarrow> 'l dht_option list
      \<Rightarrow> (command_error + 'l running \<times> (addrport \<times> message) list) option" where
  "run_node io e res later written renamed port infoHashes opts =
     (case open_with io opts of
        Inl err \<Rightarrow> Some (Inl (NodeFailed err))
      | Inr n \<Rightarrow>
          (let n = bootstrapped io n;
               (d, sent) = announce_all e res port infoHashes (rn_dht n);
               n = later (n\<lparr>rn_dht := d\<rparr>)
           in case save_table written renamed (rn_dht n) (rn_file n) of
                None \<Rightarrow> None
              | Some (r, file) \<Rightarrow> map_option (\<lambda>n. Inr (n, sent)) (Close (n\<lparr>rn_file := file\<rparr>))))"

definition flag_hashes :: "dht_flags \<Rightarrow> hash_error + bytes list" where
  "flag_hashes fl = (if fl_infohash fl = [] then Inr [] else parseInfoHashes (fl_infohash fl))"

definition handleDHT ::
    "'l dht_io \<Rightarrow> (bytes \<Rightarrow> env) \<Rightarrow> (bytes \<Rightarrow> node \<Rightarrow> Lookup.outcome) \<Rightarrow> ('l running \<Rightarrow> 'l running) \<Rightarrow> bool \<Rightarrow> bool \<Rightarrow> 'l \<Rightarrow> dht_flags
      \<Rightarrow> (command_error + 'l running \<times> (addrport \<times> message) list) option" where
  "handleDHT io e res later written renamed logger fl =
     (case flag_hashes fl of
        Inl err \<Rightarrow> Some (Inl (BadHashes err))
      | Inr infoHashes \<Rightarrow> run_node io e res later written renamed (fl_port fl) infoHashes (dht_options False logger fl))"

text \<open>The daemon has two more options; \<open>parse\<close> is \<open>netip.ParseAddr\<close>, \<open>tableLogger\<close> the logger for the table if asked for.\<close>

definition dhtd ::
    "'l dht_io \<Rightarrow> (bytes \<Rightarrow> env) \<Rightarrow> (bytes \<Rightarrow> node \<Rightarrow> Lookup.outcome) \<Rightarrow> ('l running \<Rightarrow> 'l running) \<Rightarrow> bool \<Rightarrow> bool \<Rightarrow> (bytes \<Rightarrow> addr option) \<Rightarrow> 'l \<Rightarrow> 'l option \<Rightarrow> dht_flags
      \<Rightarrow> (command_error + 'l running \<times> (addrport \<times> message) list) option" where
  "dhtd io e res later written renamed parse logger tableLogger fl =
     (case flag_hashes fl of
        Inl err \<Rightarrow> Some (Inl (BadHashes err))
      | Inr infoHashes \<Rightarrow>
          (case (if fl_external_ip fl = [] then Some [] else map_option (\<lambda>ip. [WithExternalIP ip]) (parse (fl_external_ip fl))) of
             None \<Rightarrow> Some (Inl BadExternalIP)
           | Some ext \<Rightarrow>
               run_node io e res later written renamed (fl_port fl) infoHashes
                 (dht_options True logger fl @ ext @ (case tableLogger of None \<Rightarrow> [] | Some l \<Rightarrow> [WithTableLogger l]))))"

text \<open>\<open>runCommand\<close>: which handler runs; an unknown command does nothing and is no error.\<close>

datatype command = DownloadCommand | MagnetCommand | SeedCommand | DHTCommand | NoCommand

definition runCommand :: "bytes \<Rightarrow> command" where
  "runCommand c =
     (if c = ascii ''download'' then DownloadCommand else if c = ascii ''magnet_download'' then MagnetCommand
      else if c = ascii ''seed'' then SeedCommand else if c = ascii ''dht'' then DHTCommand else NoCommand)"

section \<open>Reading info hashes\<close>

lemma trim_front_stop: "\<forall>c \<in> set cs. c \<noteq> [] \<longrightarrow> hd c \<noteq> b \<Longrightarrow> trim_front cs (b # s) = b # s"
proof -
  assume a: "\<forall>c \<in> set cs. c \<noteq> [] \<longrightarrow> hd c \<noteq> b"
  have "\<not> (c \<noteq> [] \<and> take (length c) (b # s) = c)" if "c \<in> set cs" for c
    using a that by (cases c) auto
  then have "find (\<lambda>c. c \<noteq> [] \<and> take (length c) (b # s) = c) cs = None" by (auto simp: find_None_iff)
  then show ?thesis by (simp add: trim_front.simps)
qed

lemma trim_front_one:
  assumes "[b] \<in> set cs" "\<forall>c \<in> set cs. c \<noteq> [] \<longrightarrow> hd c = b \<longrightarrow> c = [b]"
  shows "trim_front cs (b # s) = trim_front cs s"
proof -
  let ?P = "\<lambda>c. c \<noteq> [] \<and> take (length c) (b # s) = c"
  have "find ?P cs \<noteq> None" using assms(1) by (auto simp: find_None_iff)
  then obtain c where c: "find ?P cs = Some c" by auto
  then have "c \<in> set cs" "c \<noteq> []" "take (length c) (b # s) = c" by (auto simp: find_Some_iff)
  moreover from this(2,3) have "hd c = b" by (cases c) simp_all
  ultimately have "c = [b]" using assms(2) by blast
  with c show ?thesis by (subst trim_front.simps) simp
qed

definition ascii_spaces :: "bytes" where
  "ascii_spaces = [0x09, 0x0A, 0x0B, 0x0C, 0x0D, 0x20]"

lemma space_table:
  "list_all (\<lambda>b. [b] \<in> set space_chars \<and> list_all (\<lambda>c. c = [] \<or> hd c \<noteq> b \<or> c = [b]) space_chars
      \<and> list_all (\<lambda>c. c = [] \<or> hd c \<noteq> b \<or> c = [b]) (map rev space_chars)) ascii_spaces"
  "list_all (\<lambda>n. list_all (\<lambda>c. c = [] \<or> hd c \<noteq> hex_char n) space_chars
      \<and> list_all (\<lambda>c. c = [] \<or> hd c \<noteq> hex_char n) (map rev space_chars) \<and> hex_char n \<noteq> 0x2C) (map of_nat [0..<16])"
  by code_simp+

lemma trim_spaces:
  "set l \<subseteq> set ascii_spaces \<Longrightarrow> trim_front space_chars (l @ s) = trim_front space_chars s"
  "set l \<subseteq> set ascii_spaces \<Longrightarrow> trim_front (map rev space_chars) (l @ s) = trim_front (map rev space_chars) s"
proof -
  have b: "[b] \<in> set space_chars" "\<forall>c \<in> set space_chars. c \<noteq> [] \<longrightarrow> hd c = b \<longrightarrow> c = [b]"
      "[b] \<in> set (map rev space_chars)" "\<forall>c \<in> set (map rev space_chars). c \<noteq> [] \<longrightarrow> hd c = b \<longrightarrow> c = [b]" if "b \<in> set ascii_spaces" for b
  proof -
    from space_table(1) that have t: "[b] \<in> set space_chars" "list_all (\<lambda>c. c = [] \<or> hd c \<noteq> b \<or> c = [b]) space_chars"
        "list_all (\<lambda>c. c = [] \<or> hd c \<noteq> b \<or> c = [b]) (map rev space_chars)" by (auto simp only: list_all_iff)
    show "[b] \<in> set space_chars" by (rule t(1))
    show "\<forall>c \<in> set space_chars. c \<noteq> [] \<longrightarrow> hd c = b \<longrightarrow> c = [b]" "\<forall>c \<in> set (map rev space_chars). c \<noteq> [] \<longrightarrow> hd c = b \<longrightarrow> c = [b]"
      using t(2,3) unfolding list_all_iff by blast+
    show "[b] \<in> set (map rev space_chars)" using t(1) by force
  qed
  show "trim_front space_chars (l @ s) = trim_front space_chars s" if "set l \<subseteq> set ascii_spaces"
    using that by (induction l) (simp_all add: trim_front_one b)
  show "trim_front (map rev space_chars) (l @ s) = trim_front (map rev space_chars) s" if "set l \<subseteq> set ascii_spaces"
    using that by (induction l) (simp_all add: trim_front_one b)
qed

definition is_hex :: "byte \<Rightarrow> bool" where
  "is_hex b \<longleftrightarrow> (\<exists>n < 16. b = hex_char n)"

lemma hex_encode_chars: "list_all is_hex (hex_encode bs)"
  by (auto simp: hex_encode_def list_all_iff is_hex_def intro: nibbles(1,2))

lemma is_hex_facts:
  assumes "is_hex b"
  shows "\<forall>c \<in> set space_chars. c \<noteq> [] \<longrightarrow> hd c \<noteq> b" "\<forall>c \<in> set (map rev space_chars). c \<noteq> [] \<longrightarrow> hd c \<noteq> b" "b \<noteq> 0x2C"
proof -
  from assms obtain n where n: "n < 16" "b = hex_char n" by (auto simp: is_hex_def)
  from nibble_table [OF space_table(2) n(1)]
  have "list_all (\<lambda>c. c = [] \<or> hd c \<noteq> b) space_chars" "list_all (\<lambda>c. c = [] \<or> hd c \<noteq> b) (map rev space_chars)" "b \<noteq> 0x2C"
    unfolding n(2) by blast+
  then show "\<forall>c \<in> set space_chars. c \<noteq> [] \<longrightarrow> hd c \<noteq> b" "\<forall>c \<in> set (map rev space_chars). c \<noteq> [] \<longrightarrow> hd c \<noteq> b" "b \<noteq> 0x2C"
    unfolding list_all_iff by blast+
qed

lemma TrimSpace_hex:
  assumes "set l \<subseteq> set ascii_spaces" "set r \<subseteq> set ascii_spaces" "list_all is_hex h" "h \<noteq> []"
  shows "TrimSpace (l @ h @ r) = h"
proof -
  obtain b h' where h: "h = b # h'" using assms(4) by (cases h) auto
  have f: "trim_front space_chars (l @ h @ r) = h @ r"
    using assms(3) by (simp add: trim_spaces(1) [OF assms(1)] h trim_front_stop is_hex_facts(1))
  obtain c g where g: "rev h = c # g" using assms(4) by (cases "rev h") auto
  have "is_hex c" using assms(3) g by (metis list.set_intros(1) list_all_iff set_rev)
  then have "trim_front (map rev space_chars) (rev h) = rev h"
    unfolding g by (intro trim_front_stop is_hex_facts(2))
  moreover have "set (rev r) \<subseteq> set ascii_spaces" using assms(2) by simp
  ultimately have "trim_front (map rev space_chars) (rev r @ rev h) = rev h"
    by (simp only: trim_spaces(2))
  then show ?thesis by (simp add: TrimSpace_def f)
qed

fun join_comma :: "bytes list \<Rightarrow> bytes" where
  "join_comma [] = []"
| "join_comma [p] = p"
| "join_comma (p # ps) = p @ 0x2C # join_comma ps"

lemma split_comma_cons: "0x2C \<notin> set p \<Longrightarrow> split_comma (p @ 0x2C # s) = p # split_comma s"
  by (induction p) auto

lemma split_comma_single: "0x2C \<notin> set p \<Longrightarrow> split_comma p = [p]"
  by (induction p) auto

lemma split_join: "ps \<noteq> [] \<Longrightarrow> \<forall>p \<in> set ps. 0x2C \<notin> set p \<Longrightarrow> split_comma (join_comma ps) = ps"
  by (induction ps rule: join_comma.induct) (simp_all add: split_comma_cons split_comma_single)

lemma parse_hashes_lengths: "parse_hashes ps hs = Inr rs \<Longrightarrow> list_all (\<lambda>h. length h = 20) hs \<Longrightarrow> list_all (\<lambda>h. length h = 20) rs"
  by (induction ps hs rule: parse_hashes.induct) (auto simp: Let_def split: if_splits option.splits)

text \<open>The info hashes of the command line. A list of hashes in hexadecimal, with spaces around them and commas between, is read
  as those hashes; whatever the string, the hashes read have 20 bytes, and a part of another length is refused.\<close>

theorem parseInfoHashes_spec:
  assumes "hs \<noteq> []" "list_all (\<lambda>(l, h, r). set l \<subseteq> set ascii_spaces \<and> set r \<subseteq> set ascii_spaces \<and> length h = 20) hs" "h \<noteq> []" "length h \<noteq> 20"
  shows "parseInfoHashes (join_comma (map (\<lambda>(l, h, r). l @ hex_encode h @ r) hs)) = Inr (map (\<lambda>(l, h, r). h) hs)
    \<and> (parseInfoHashes s = Inr rs \<longrightarrow> list_all (\<lambda>h. length h = 20) rs)
    \<and> parseInfoHashes (hex_encode h) = Inl (WrongLength (hex_encode h) (length h))"
proof -
  have comma: "0x2C \<notin> set (hex_encode h)" for h
    using hex_encode_chars [of h] is_hex_facts(3) by (auto simp: list_all_iff)
  have sp: "0x2C \<notin> set ascii_spaces" by (simp add: ascii_spaces_def)
  have ne: "hex_encode x \<noteq> []" if "x \<noteq> []" for x using that by (cases x) (simp_all add: hex_encode_def)
  have part: "TrimSpace (l @ hex_encode x @ r) = hex_encode x" if "set l \<subseteq> set ascii_spaces" "set r \<subseteq> set ascii_spaces" "x \<noteq> []" for l x r
    using TrimSpace_hex [OF that(1,2) hex_encode_chars ne [OF that(3)]] .
  have "parse_hashes (map (\<lambda>(l, h, r). l @ hex_encode h @ r) hs) acc = Inr (acc @ map (\<lambda>(l, h, r). h) hs)" for acc
    using assms(2)
  proof (induction hs arbitrary: acc)
    case (Cons x hs)
    obtain l y r where x: "x = (l, y, r)" by (cases x)
    with Cons.prems have y: "y \<noteq> []" "length y = 20" "set l \<subseteq> set ascii_spaces" "set r \<subseteq> set ascii_spaces" by auto
    with Cons show ?case by (simp add: x part ne hex_roundtrip)
  qed simp
  moreover have "\<forall>p \<in> set (map (\<lambda>(l, h, r). l @ hex_encode h @ r) hs). 0x2C \<notin> set p"
    using assms(2) comma sp by (auto simp: list_all_iff)
  ultimately have "parseInfoHashes (join_comma (map (\<lambda>(l, h, r). l @ hex_encode h @ r) hs)) = Inr (map (\<lambda>(l, h, r). h) hs)"
    using assms(1) by (simp add: parseInfoHashes_def split_join)
  moreover have "parseInfoHashes s = Inr rs \<longrightarrow> list_all (\<lambda>h. length h = 20) rs"
    using parse_hashes_lengths [of _ "[]"] by (simp add: parseInfoHashes_def)
  moreover have "parseInfoHashes (hex_encode h) = Inl (WrongLength (hex_encode h) (length h))"
    using part [of "[]" "[]" h] assms(3,4) by (simp add: parseInfoHashes_def split_comma_single [OF comma] ne hex_roundtrip)
  ultimately show ?thesis by blast
qed

theorem parseInfoHashes_spec_witness:
  "parseInfoHashes (join_comma [hex_encode (replicate 20 1), [0x20] @ hex_encode (replicate 20 2) @ [0x0A]]) = Inr [replicate 20 1, replicate 20 2]
     \<and> parseInfoHashes (hex_encode [1]) = Inl (WrongLength (hex_encode [1]) 1)"
  using parseInfoHashes_spec [of "[([], replicate 20 1, []), ([0x20], replicate 20 2, [0x0A])]" "[1]" "[]" "[]"]
  by (simp add: ascii_spaces_def)

section \<open>The peers of a session\<close>

lemma add_peers_spec:
  assumes "set seen = str ` set existing"
  shows "\<exists>new. add_peers str addrs seen existing = existing @ new \<and> distinct (map str new) \<and> set new \<subseteq> set addrs
    \<and> str ` set new = str ` set addrs - str ` set existing"
  using assms
proof (induction addrs arbitrary: seen existing)
  case (Cons a addrs)
  show ?case
  proof (cases "str a \<in> set seen")
    case True
    with Cons.IH [OF Cons.prems] Cons.prems show ?thesis by fastforce
  next
    case False
    have "set (str a # seen) = str ` set (existing @ [a])" using Cons.prems by simp
    from Cons.IH [OF this] obtain new where n: "add_peers str addrs (str a # seen) (existing @ [a]) = (existing @ [a]) @ new"
        "distinct (map str new)" "set new \<subseteq> set addrs" "str ` set new = str ` set addrs - str ` set (existing @ [a])" by blast
    then have "str a \<notin> str ` set new" "str a \<notin> str ` set existing" using False Cons.prems by auto
    with n False show ?thesis by (intro exI [of _ "a # new"]) auto
  qed
qed simp

lemma session_peers_spec:
  "\<exists>new. session_peers w infoHash peers = peers @ new \<and> distinct (map (w_str w) new) \<and> w_str w ` set new \<inter> w_str w ` set peers = {}"
proof (cases "startDHT (w_dht w) (w_dhtStatePath w)")
  case (Some n)
  show ?thesis
  proof (cases "GetPeers (w_lookup w) infoHash (rn_dht n)")
    case (Inr r)
    then obtain l addrs where r: "GetPeers (w_lookup w) infoHash (rn_dht n) = Inr (l, addrs)" by (cases r) auto
    from add_peers_spec [of "map (w_str w) peers" "w_str w" peers addrs]
    obtain new where "add_peers (w_str w) addrs (map (w_str w) peers) peers = peers @ new" "distinct (map (w_str w) new)"
        "w_str w ` set new = w_str w ` set addrs - w_str w ` set peers" by auto
    then show ?thesis by (intro exI [of _ new]) (auto simp: session_peers_def Some dhtPeers_def r)
  qed (simp add: session_peers_def Some dhtPeers_def)
qed (simp add: session_peers_def)

section \<open>What a session leaves\<close>

lemma run_bind_Done: "run_bind m f = Done y \<longleftrightarrow> (\<exists>x. m = Done x \<and> f x = Done y)"
  by (cases m) (simp_all add: run_bind_def)

lemma Results_all:
  assumes "pm_reachable g pieces pm" "\<forall>i < length pieces. Results pm ! i \<noteq> None"
  shows "IsFinished pm"
proof -
  have ok: "pm_ok g pm" "pm_total pm = length pieces" "length (pm_states pm) = length pieces"
    using reachable_ok [OF assms(1)] by (auto simp: pm_ok_def pm_counts_def)
  have l: "length (pm_data pm) = length pieces" using ok by (simp add: pm_ok_def pm_counts_def)
  have "pm_states pm ! i = PieceCompleted" if i: "i < length pieces" for i
  proof (rule ccontr)
    assume a: "pm_states pm ! i \<noteq> PieceCompleted"
    then have "pm_data pm ! i = None" using no_leftovers [OF assms(1)] i by (simp add: no_leftover_def ok)
    then have "Results pm ! i = None" using a i l by (simp add: Results_def split: option.split)
    with assms(2) i show False by blast
  qed
  then have "count_list (pm_states pm) PieceCompleted = length (pm_states pm)" unfolding count_list_all using ok(3) by simp
  then show ?thesis using ok by (simp add: IsFinished_def pm_ok_def pm_counts_def)
qed

lemma collected_hashes:
  assumes "swarm_reachable pieces infoHash s" "\<And>i. i < length pieces \<Longrightarrow> pi_Index (pieces ! i) = i"
    and "collectResults (sh_pm (sw_shared s)) = Inr content"
  shows "\<exists>ps. content = concat ps \<and> map HashPiece ps = map pi_Hash pieces"
proof -
  let ?pm = "sh_pm (sw_shared s)"
  have r: "pm_reachable (hashed pieces) pieces ?pm" using swarm_reachable_ok [OF assms(1,2)] by (simp add: swarm_ok_def)
  have ok: "pm_ok (hashed pieces) ?pm" "pm_total ?pm = length pieces" using reachable_ok [OF r] by (auto simp: pm_ok_def pm_counts_def)
  have "validatePieces (Results ?pm) = []" using assms(3) by (auto simp: collectResults_def Let_def split: if_splits)
  then have "\<forall>i < length pieces. Results ?pm ! i \<noteq> None"
    using length_Results [OF ok(1)] ok(2) by (simp add: validatePieces_def filter_empty_conv)
  from download_hashes [OF assms(1,2) Results_all [OF r this]] assms(3) show ?thesis by auto
qed

lemma piece_infos_facts:
  "map pi_Hash (piece_infos info hs) = hs" "length (piece_infos info hs) = length hs"
  "i < length hs \<Longrightarrow> pi_Index (piece_infos info hs ! i) = i"
  by (simp_all add: piece_infos_def Let_def o_def map_nth)

text \<open>The store on disk is only trusted, not hashed again: that is a hypothesis on it.\<close>

definition store_good :: "('t, 'l) world \<Rightarrow> torrent_info \<Rightarrow> bytes list \<Rightarrow> bool" where
  "store_good w info hs \<longleftrightarrow> (\<forall>plen ds. NewDiskStore (w_made w) (w_stored w) (length hs) plen (i_Length info) = Inr ds
     \<longrightarrow> disk_ok (hashed (piece_infos info hs)) ds)"

lemma NewDiskStore_pieces: "NewDiskStore made fs n plen tlen = Inr ds \<Longrightarrow> ds_numPieces ds = n"
  by (auto simp: NewDiskStore_def loadBitfield_def Let_def split: if_splits option.splits)

lemma start_download_reachable:
  assumes "start_download cfg (w_made w) (w_stored w) (w_rest w) info peers = Some s" "PieceHashes (w_rest w) info = Some hs" "store_good w info hs"
  shows "swarm_reachable (piece_infos info hs) (i_InfoHash info) s"
proof -
  let ?store = "open_store cfg (w_made w) (w_stored w) (length hs) info"
  have s: "s = start_swarm (min (MaxWorkers cfg) (int (length peers))) (NewPieceManager (piece_infos info hs) (min (MaxWorkers cfg) (int (length peers))) ?store)
      (i_InfoHash info) peers" using assms(1,2) by (simp add: start_download_def Let_def)
  show ?thesis
  proof (cases ?store)
    case None
    show ?thesis unfolding s None by (rule swarm_reachable.fresh)
  next
    case (Some ds)
    then obtain plen where n: "NewDiskStore (w_made w) (w_stored w) (length hs) plen (i_Length info) = Inr ds"
      by (auto simp: open_store_def split: if_splits sum.splits)
    then have "disk_ok (hashed (piece_infos info hs)) ds" using assms(3) by (auto simp: store_good_def)
    moreover have "ds_numPieces ds = length (piece_infos info hs)" using NewDiskStore_pieces [OF n] by (simp add: piece_infos_facts)
    ultimately show ?thesis unfolding s Some by (rule swarm_reachable.resumed)
  qed
qed

lemma Download_content:
  assumes "Download w cfg info peers = Some (Inr content)" "PieceHashes (w_rest w) info = Some hs" "store_good w info hs"
    and "\<And>s s'. swarm_reachable (piece_infos info hs) (i_InfoHash info) s \<Longrightarrow> w_schedule w s = Some s'
      \<Longrightarrow> swarm_reachable (piece_infos info hs) (i_InfoHash info) s'"
  shows "\<exists>ps. content = concat ps \<and> map HashPiece ps = hs"
proof -
  obtain s s' where s: "start_download cfg (w_made w) (w_stored w) (w_rest w) info (map (\<lambda>a. (w_str w a, a)) peers) = Some s"
      "w_schedule w s = Some s'" "collectResults (sh_pm (sw_shared s')) = Inr content"
  proof -
    obtain s where s: "start_download cfg (w_made w) (w_stored w) (w_rest w) info (map (\<lambda>a. (w_str w a, a)) peers) = Some s"
      using assms(1) by (auto simp: Download_def)
    with assms(1) obtain s' where s': "w_schedule w s = Some s'" by (cases "w_schedule w s") (auto simp: Download_def)
    with assms(1) s have "collectResults (sh_pm (sw_shared s')) = Inr content"
      by (cases "collectResults (sh_pm (sw_shared s'))") (auto simp: Download_def)
    with s s' that show thesis by blast
  qed
  from assms(4) [OF start_download_reachable [OF s(1) assms(2,3)] s(2)]
  have r: "swarm_reachable (piece_infos info hs) (i_InfoHash info) s'" .
  have "\<And>i. i < length (piece_infos info hs) \<Longrightarrow> pi_Index (piece_infos info hs ! i) = i" by (simp add: piece_infos_facts)
  from collected_hashes [OF r this s(3)] show ?thesis by (simp add: piece_infos_facts)
qed

lemma DownloadFile_cases:
  assumes "DownloadFile w info peers n path opts = Some (res, fs)"
  obtains (failed) e where "res = Inl (DownloadFailed e)" "fs = w_files w"
  | (unsaved) e where "res = Inl (SaveFailed e)"
  | (saved) content where "res = Inr ()" "Download w (fold (\<lambda>opt c. opt c) (WithMaxWorkers n # opts) (DefaultDownloadConfig (w_rnd w))) info peers = Some (Inr content)"
      "SaveFile (w_save w) info path content (w_spare w) (w_files w) = Some (Inr (), fs)"
proof (cases "Download w (fold (\<lambda>opt c. opt c) (WithMaxWorkers n # opts) (DefaultDownloadConfig (w_rnd w))) info peers")
  case None
  then show ?thesis using assms unfolding DownloadFile_def by (simp only: option.case option.distinct)
next
  case (Some d)
  show ?thesis
  proof (cases d)
    case (Inl e)
    then show ?thesis using assms Some by (intro failed [of e]) (simp_all add: DownloadFile_def)
  next
    case (Inr content)
    then obtain r where r: "SaveFile (w_save w) info path content (w_spare w) (w_files w) = Some (r, fs)"
        "res = (case r of Inl e \<Rightarrow> Inl (SaveFailed e) | Inr _ \<Rightarrow> Inr ())"
      using assms Some by (cases "SaveFile (w_save w) info path content (w_spare w) (w_files w)") (auto simp: DownloadFile_def)
    then show ?thesis using unsaved saved [of content] Some Inr by (cases r) simp_all
  qed
qed


text \<open>A session in which the one piece is already on disk, and the tracker knows nobody.\<close>

definition one_piece :: torrent_info where
  "one_piece = \<lparr>i_Length = 3, i_Name = ascii ''a'', i_PieceLength = 4, i_Pieces = sha1 [1, 2, 3], i_InfoHash = replicate 20 9, i_Files = []\<rparr>"

definition one_store :: disk_store where
  "one_store = \<lparr>ds_numPieces = 1, ds_pieceLen = 4, ds_totalLen = 3, ds_bitfield = [True],
     ds_files = (\<lambda>f. if f = BitfieldFile then Some [1] else if f = PieceFile 0 then Some [1, 2, 3] else None)\<rparr>"

definition one_world :: "(unit, unit) world" where
  "one_world = \<lparr>w_read = (\<lambda>_. None), w_new = (\<lambda>_. Done (Inr ())),
     w_ask = (\<lambda>req tr. Done (Inr \<lparr>r_Interval = 1800 * Second, r_Peers = []\<rparr>, tr)), w_progress = (\<lambda>trs. trs),
     w_peerID = Some (replicate 20 1), w_rnd = 0, w_str = (\<lambda>a. []),
     w_dht = \<lparr>io_rnd = [], io_crnd = None, io_secret = [], io_now = 0, io_listening = False, io_file = None, io_defaults = DefaultDhtConfig () (),
       io_iter = (\<lambda>m. m), io_env = plain_env (\<lambda>_ _. TimedOut), io_bootstrap = []\<rparr>,
     w_dhtStatePath = ascii ''s'', w_lookup = plain_env (\<lambda>_ _. TimedOut), w_storageDir = ascii ''d'', w_made = True, w_stored = ds_files one_store,
     w_rest = [], w_schedule = Some, w_save = \<lparr>io_mkdir = (\<lambda>_. True), io_write = (\<lambda>_. None)\<rparr>, w_spare = [], w_files = Map.empty\<rparr>"

lemma one_world_sel:
  "w_ask one_world = (\<lambda>req tr. Done (Inr \<lparr>r_Interval = 1800 * Second, r_Peers = []\<rparr>, tr))" "w_progress one_world = (\<lambda>trs. trs)" "w_rnd one_world = 0"
  "w_storageDir one_world = ascii ''d''" "w_made one_world" "w_stored one_world = ds_files one_store" "w_rest one_world = []"
  "w_schedule one_world = Some" "io_mkdir (w_save one_world) = (\<lambda>_. True)" "io_write (w_save one_world) = (\<lambda>_. None)" "w_files one_world = Map.empty"
  "IsSingleFile one_piece"
  by (simp_all add: one_world_def one_piece_def IsSingleFile_def)

lemma one_hashes: "PieceHashes (w_rest one_world) one_piece = Some [sha1 [1, 2, 3]]"
  by (simp add: PieceHashes_def one_world_def one_piece_def piece_hashes_spec)

lemma one_open: "NewDiskStore True (ds_files one_store) (Suc 0) plen tlen = Inr (one_store\<lparr>ds_pieceLen := plen, ds_totalLen := tlen\<rparr>)"
  by (simp add: NewDiskStore_def loadBitfield_def one_store_def)

lemma one_store_good: "store_good one_world one_piece [sha1 [1, 2, 3]]"
proof -
  have "disk_ok (hashed (piece_infos one_piece [sha1 [1, 2, 3]])) (one_store\<lparr>ds_pieceLen := plen, ds_totalLen := tlen\<rparr>)" for plen tlen
    by (simp add: one_store_def disk_ok_def hashed_def piece_infos_def HashPiece_def)
  then show ?thesis by (auto simp: store_good_def one_open one_world_def)
qed

lemma one_collected:
  assumes "pieces = piece_infos one_piece [sha1 [1, 2, 3]]"
  shows "collectResults (NewPieceManager pieces k (Some (one_store\<lparr>ds_pieceLen := plen, ds_totalLen := tlen\<rparr>))) = Inr [1, 2, 3]"
proof -
  have "length pieces = 1" by (simp add: assms piece_infos_facts)
  then show ?thesis
    by (simp add: collectResults_def validatePieces_def Results_def NewPieceManager_def DiskCompleted_def one_store_def ReadPiece_def)
qed


section \<open>Starting to seed\<close>

lemma DiskCompleted_length: "length (ds_bitfield ds) = ds_numPieces ds \<Longrightarrow> DiskCompleted ds = ds_bitfield ds"
  by (simp add: DiskCompleted_def)


lemma one_world_open: "NewDiskStore (w_made one_world) (w_stored one_world) (length [sha1 [1, 2, 3]]) (i_PieceLength one_piece) (i_Length one_piece)
    = Inr (one_store\<lparr>ds_pieceLen := i_PieceLength one_piece, ds_totalLen := i_Length one_piece\<rparr>)"
  by (simp add: one_world_sel one_open)


section \<open>The DHT command and the daemon\<close>

lemma dhtAnnounce_ok:
  assumes "env_ok e" "dht_ok d" "votes_ok d" "dhtAnnounce e res h port d = (d', sent)"
  shows "dht_ok d' \<and> votes_ok d' \<and> length sent \<le> K
    \<and> (\<forall>(a, m) \<in> set sent. map_of (Args m) (key ''info_hash'') = Some (BString h) \<and> map_of (Args m) (key ''port'') = Some (BInt port))"
proof (cases "Announce e res h port d")
  case (Inr x)
  obtain d'' l s where x: "x = (d'', l, s)" by (cases x)
  with Inr assms(4) have a: "Announce e res h port d = Inr (d', l, sent)" by (simp add: dhtAnnounce_def)
  have "votes_ok d'" using Announce_votes [OF a] assms(3) by (simp add: votes_ok_def)
  moreover have "map_of (Args (announce_query x h port tok)) (key ''info_hash'') = Some (BString h)"
      "map_of (Args (announce_query x h port tok)) (key ''port'') = Some (BInt port)" for x tok
    by (simp_all add: announce_query_def query_def)
  ultimately show ?thesis using Announce_spec [OF assms(1,2) a] by fastforce
qed (use assms in \<open>simp add: dhtAnnounce_def\<close>)

lemma announce_all_ok:
  assumes "\<And>h. env_ok (e h)" "dht_ok d" "votes_ok d" "announce_all e res port hashes d = (d', sent)"
  shows "dht_ok d' \<and> votes_ok d' \<and> length sent \<le> K * length hashes
    \<and> (\<forall>(a, m) \<in> set sent. (\<exists>h \<in> set hashes. map_of (Args m) (key ''info_hash'') = Some (BString h)) \<and> map_of (Args m) (key ''port'') = Some (BInt port))"
  using assms(2-4)
proof (induction hashes arbitrary: d sent)
  case (Cons h hashes)
  obtain d1 s1 where a: "dhtAnnounce (e h) (res h) h port d = (d1, s1)" by fastforce
  obtain d2 s2 where b: "announce_all e res port hashes d1 = (d2, s2)" by fastforce
  have r: "d' = d2" "sent = s1 @ s2" using Cons.prems(3) a b by simp_all
  note A = dhtAnnounce_ok [OF assms(1) Cons.prems(1,2) a]
  note B = Cons.IH [OF _ _ b [folded r(1)]]
  show ?case using A B unfolding r(2) by (fastforce simp: r(1))
qed simp

lemma dht_options_made: "list_all made_option (dht_options daemon logger fl)"
  by (simp add: dht_options_def made_option.intros)

text \<open>What the node may assume of what is outside.\<close>

definition dht_io_ok :: "'l dht_io \<Rightarrow> bool" where
  "dht_io_ok io \<longleftrightarrow> length (io_rnd io) = 20 \<and> (\<forall>b. io_crnd io = Some b \<longrightarrow> length b = 20) \<and> config_ok (io_defaults io) \<and> env_ok (io_env io)
     \<and> (\<forall>m. set (io_iter io m) = set m)
     \<and> (\<forall>(a, res, rnd, now) \<in> set (io_bootstrap io). (\<forall>x. a = Some x \<longrightarrow> has4 x) \<and> (\<forall>b. rnd = Some b \<longrightarrow> length b = 20))"

lemma bootstrapped_ok:
  assumes "dht_io_ok io" "list_all made_option opts" "open_with io opts = Inr n"
  shows "dht_ok (rn_dht (bootstrapped io n)) \<and> votes_ok (rn_dht (bootstrapped io n)) \<and> rn_stopped (bootstrapped io n) = False"
proof -
  have io: "length (io_rnd io) = 20" "\<forall>b. io_crnd io = Some b \<longrightarrow> length b = 20" "config_ok (io_defaults io)" "env_ok (io_env io)"
      "\<forall>m. set (io_iter io m) = set m"
      "\<forall>(a, res, rnd, now) \<in> set (io_bootstrap io). (\<forall>x. a = Some x \<longrightarrow> has4 x) \<and> (\<forall>b. rnd = Some b \<longrightarrow> length b = 20)"
    using assms(1) unfolding dht_io_ok_def by blast+
  have o: "dht_ok (rn_dht n)" "votes_ok (rn_dht n)"
    using open_node_ok [OF io(1-3) assms(2) assms(3) [unfolded open_with_def]] by blast+
  have "rn_stopped n = False" using assms(3) by (auto simp: open_with_def open_node_def Let_def split: if_splits)
  then show ?thesis using Bootstrap_ok [OF io(4) o io(5,6)] Bootstrap_votes [OF o io(5,6)] by (simp add: bootstrapped_def)
qed

lemma run_node_ok:
  assumes "dht_io_ok io" "list_all made_option opts" "\<And>h. env_ok (e h)"
    and "\<And>n. node_run n (later n) \<and> rn_stopped (later n) = rn_stopped n"
  obtains (refused) err where "run_node io e res later written renamed port hashes opts = Some (Inl (NodeFailed err))"
  | (ran) n sent where "run_node io e res later written renamed port hashes opts = Some (Inr (n, sent))" "dht_ok (rn_dht n)" "rn_stopped n"
      "length sent \<le> K * length hashes"
      "\<forall>(a, m) \<in> set sent. (\<exists>h \<in> set hashes. map_of (Args m) (key ''info_hash'') = Some (BString h)) \<and> map_of (Args m) (key ''port'') = Some (BInt port)"
      "written \<Longrightarrow> renamed \<Longrightarrow> \<exists>data state. rn_file n = Some data \<and> loadRoutingTable now data = Inr state
         \<and> s_id state = d_id (rn_dht n) \<and> s_nodes state = map (node_wire now) (Snapshot (d_table (rn_dht n)))"
proof (cases "open_with io opts")
  case (Inl err)
  then show ?thesis using refused by (simp add: run_node_def)
next
  case (Inr n0)
  let ?n = "bootstrapped io n0"
  note b = bootstrapped_ok [OF assms(1,2) Inr]
  obtain d sent where a: "announce_all e res port hashes (rn_dht ?n) = (d, sent)" by fastforce
  note A = announce_all_ok [OF assms(3) conjunct1 [OF b] conjunct1 [OF conjunct2 [OF b]] a]
  let ?m = "?n\<lparr>rn_dht := d\<rparr>" and ?l = "later (?n\<lparr>rn_dht := d\<rparr>)"
  have l: "dht_ok (rn_dht ?l)" "rn_stopped ?l = False"
    using node_run_ok [of ?m ?l] assms(4) [of ?m] A b by auto
  obtain data where s: "Save (rn_dht ?l) = Some (Inr data)" "loadRoutingTable now data = Inr \<lparr>s_id = d_id (rn_dht ?l),
      s_nodes = map (node_wire now) (Snapshot (d_table (rn_dht ?l))),
      s_externalIP = (if IsValid (d_externalIP (rn_dht ?l)) then IPv4 (the (As4 (d_externalIP (rn_dht ?l)))) else NoAddr)\<rparr>"
    by (rule Save_load [OF l(1)])
  let ?file = "if written \<and> renamed then Some data else rn_file ?l"
  have sv: "\<exists>r. save_table written renamed (rn_dht ?l) (rn_file ?l) = Some (r, ?file)" using s(1) by (simp add: save_table_def)
  let ?r = "?l\<lparr>rn_file := ?file, rn_stopped := True\<rparr>"
  have "run_node io e res later written renamed port hashes opts = Some (Inr (?r, sent))"
    using sv l(2) by (auto simp: run_node_def Inr Let_def a Close_def)
  then show ?thesis using A l s(2) by (intro ran [of ?r sent]) simp_all
qed


definition sample_io :: "unit dht_io" where
  "sample_io = \<lparr>io_rnd = replicate 20 3, io_crnd = None, io_secret = replicate 20 5, io_now = 0, io_listening = True, io_file = None,
     io_defaults = DefaultDhtConfig () (), io_iter = (\<lambda>m. m), io_env = plain_env (\<lambda>_ _. TimedOut), io_bootstrap = []\<rparr>"

definition sample_flags :: dht_flags where
  "sample_flags = \<lparr>fl_port = 6881, fl_state = ascii ''s'', fl_infohash = [], fl_ratelimit = 50, fl_metrics_port = 0, fl_bep42 = ascii ''table'',
     fl_external_ip = []\<rparr>"


end
