(* ===== verification/MetricsText.thy ===== *)
theory MetricsText
  imports Metrics GoLib Bencode
begin

text \<open>
  The metrics endpoint, \<open>internal/dht/metrics/handler.go\<close>: the text exposition of the counters, gauges and of the
  lookup histogram. Numbers of type \<open>float64\<close> and their formatting \<open>formatFloat\<close> (\<open>strconv.FormatFloat\<close>) are arguments.
\<close>

section \<open>The lines\<close>

text \<open>A line is a comment or a sample: a name with its labels, and a value. \<open>%q\<close> only meets plain letters and digits here.\<close>

datatype metric_line = Comment string | Sample bytes bytes

definition quoted :: "bytes \<Rightarrow> bytes" where
  "quoted s = [0x22] @ s @ [0x22]"

definition render_line :: "metric_line \<Rightarrow> bytes" where
  "render_line l = (case l of Comment s \<Rightarrow> ascii s | Sample n v \<Rightarrow> n @ [0x20] @ v) @ [0x0A]"

text \<open>What the endpoint reads: the gauges are functions that may be missing.\<close>

record 'f endpoint =
  en_metrics :: metrics
  en_tableSize :: "int option"
  en_peersStored :: "int option"
  en_rateLimitedIPs :: "int option"
  en_bootstrap :: 'f
  en_lookup :: "'f histogram"

definition gauge :: "int option \<Rightarrow> int" where
  "gauge g = (case g of None \<Rightarrow> 0 | Some n \<Rightarrow> n)"

definition query_lines :: "metrics \<Rightarrow> nat \<Rightarrow> metric_line list" where
  "query_lines m i =
     (let name = MethodName (int i); label = (\<lambda>dir. ascii ''dht_queries_total{method='' @ quoted name @ ascii '',direction='' @ quoted (ascii dir) @ ascii ''}'')
      in [Sample (label ''inbound'') (itoa (QueriesInbound m ! i)), Sample (label ''outbound'') (itoa (QueriesOutbound m ! i))])"

definition labelled :: "string \<Rightarrow> string \<Rightarrow> string \<Rightarrow> int \<Rightarrow> metric_line" where
  "labelled name label v n = Sample (ascii name @ ascii ''{'' @ ascii label @ ascii ''='' @ quoted (ascii v) @ ascii ''}'') (itoa n)"

definition counter_lines :: "metrics \<Rightarrow> metric_line list" where
  "counter_lines m =
     [Comment ''# HELP dht_queries_total Total DHT queries by method and direction.'', Comment ''# TYPE dht_queries_total counter'']
     @ concat (map (query_lines m) [0..<4])
     @ [Comment ''# HELP dht_responses_total Outgoing query response outcomes.'', Comment ''# TYPE dht_responses_total counter'',
        labelled ''dht_responses_total'' ''status'' ''success'' (ResponseSuccess m),
        labelled ''dht_responses_total'' ''status'' ''timeout'' (ResponseTimeout m),
        labelled ''dht_responses_total'' ''status'' ''ctx_canceled'' (ResponseCanceled m),
        Comment ''# HELP dht_token_validations_total Announce peer token validation results.'', Comment ''# TYPE dht_token_validations_total counter'',
        labelled ''dht_token_validations_total'' ''result'' ''success'' (TokenSuccess m),
        labelled ''dht_token_validations_total'' ''result'' ''failure'' (TokenFailure m),
        Comment ''# HELP dht_anomalies_total Security anomaly events by type.'', Comment ''# TYPE dht_anomalies_total counter'',
        labelled ''dht_anomalies_total'' ''type'' ''bep42_non_compliant'' (BEP42NonCompliant m),
        labelled ''dht_anomalies_total'' ''type'' ''rate_limited'' (RateLimited m),
        Comment ''# HELP dht_rate_limited_total Total queries dropped by rate limiter.'', Comment ''# TYPE dht_rate_limited_total counter'',
        Sample (ascii ''dht_rate_limited_total'') (itoa (RateLimited m))]"

definition gauge_lines :: "('f \<Rightarrow> bytes) \<Rightarrow> 'f endpoint \<Rightarrow> metric_line list" where
  "gauge_lines formatFloat en =
     [Comment ''# HELP dht_routing_table_size Current number of nodes in the routing table.'', Comment ''# TYPE dht_routing_table_size gauge'',
      Sample (ascii ''dht_routing_table_size'') (itoa (gauge (en_tableSize en))),
      Comment ''# HELP dht_peers_stored Current number of stored peer entries.'', Comment ''# TYPE dht_peers_stored gauge'',
      Sample (ascii ''dht_peers_stored'') (itoa (gauge (en_peersStored en))),
      Comment ''# HELP dht_rate_limited_ips Current number of IPs tracked by the rate limiter.'', Comment ''# TYPE dht_rate_limited_ips gauge'',
      Sample (ascii ''dht_rate_limited_ips'') (itoa (gauge (en_rateLimitedIPs en))),
      Comment ''# HELP dht_bootstrap_duration_seconds Duration of the most recent bootstrap in seconds.'',
      Comment ''# TYPE dht_bootstrap_duration_seconds gauge'',
      Sample (ascii ''dht_bootstrap_duration_seconds'') (formatFloat (en_bootstrap en))]"

definition bucket_name :: "bytes \<Rightarrow> bytes" where
  "bucket_name le = ascii ''dht_lookup_duration_seconds_bucket{le='' @ quoted le @ ascii ''}''"

text \<open>The loop indexes the cumulative counts; there is one more of them than bounds.\<close>

definition histogram_lines :: "('f \<Rightarrow> bytes) \<Rightarrow> 'f histogram \<Rightarrow> metric_line list" where
  "histogram_lines formatFloat h =
     (let cumCounts = CumulativeCounts h; bs = bounds h
      in [Comment ''# HELP dht_lookup_duration_seconds Distribution of iterative lookup durations.'',
          Comment ''# TYPE dht_lookup_duration_seconds histogram'']
         @ map (\<lambda>i. Sample (bucket_name (formatFloat (bs ! i))) (itoa (cumCounts ! i))) [0..<length bs]
         @ [Sample (bucket_name (ascii ''+Inf'')) (itoa (cumCounts ! length bs)),
            Sample (ascii ''dht_lookup_duration_seconds_sum'') (formatFloat (histogram.sum h)),
            Sample (ascii ''dht_lookup_duration_seconds_count'') (itoa (count h))])"

definition writeMetrics :: "('f \<Rightarrow> bytes) \<Rightarrow> 'f endpoint \<Rightarrow> bytes" where
  "writeMetrics formatFloat en =
     concat (map render_line (counter_lines (en_metrics en) @ gauge_lines formatFloat en @ histogram_lines formatFloat (en_lookup en)))"

section \<open>What the text says\<close>

text \<open>The text of the histogram after the observations \<open>vs\<close>: each bucket has the number of values at most its bound, the last one and the
  count have the number of all values.\<close>

theorem histogram_text:
  assumes "sorted bs" "int (length vs) < 2 ^ 63"
  shows "histogram_lines formatFloat (observed bs vs) =
     [Comment ''# HELP dht_lookup_duration_seconds Distribution of iterative lookup durations.'',
      Comment ''# TYPE dht_lookup_duration_seconds histogram'']
     @ map (\<lambda>b. Sample (bucket_name (formatFloat b)) (itoa (int (length (filter (\<lambda>v. v \<le> b) vs))))) bs
     @ [Sample (bucket_name (ascii ''+Inf'')) (itoa (int (length vs))),
        Sample (ascii ''dht_lookup_duration_seconds_sum'') (formatFloat (histogram.sum (observed bs vs))),
        Sample (ascii ''dht_lookup_duration_seconds_count'') (itoa (int (length vs)))]"
proof -
  have b: "bounds (observed bs vs) = bs" using hist_inv_observed [OF assms(2), of bs] by (simp add: hist_inv_def)
  have c: "CumulativeCounts (observed bs vs) ! i = int (length (filter (\<lambda>v. v \<le> bs ! i) vs))" if "i < length bs" for i
    using histogram_cumulative [OF assms, of i] that by simp
  have "map (\<lambda>i. Sample (bucket_name (formatFloat (bs ! i))) (itoa (CumulativeCounts (observed bs vs) ! i))) [0..<length bs]
      = map (\<lambda>b. Sample (bucket_name (formatFloat b)) (itoa (int (length (filter (\<lambda>v. v \<le> b) vs))))) bs"
    by (intro nth_equalityI) (simp_all add: c)
  then show ?thesis using histogram_cumulative [OF assms, of 0] by (simp add: histogram_lines_def Let_def b)
qed

theorem histogram_text_witness:
  "\<exists>ls. histogram_lines itoa_nat (observed [1, 5 :: nat] [0, 1, 3, 9]) = ls
     @ [Sample (ascii ''dht_lookup_duration_seconds_count'') (itoa 4)]"
  using histogram_text [of "[1, 5 :: nat]" "[0, 1, 3, 9]" itoa_nat] by simp

end
