(* ===== verification/MetainfoText.thy ===== *)
theory MetainfoText
  imports Commands
begin

text \<open>
  The texts \<open>internal/metainfo\<close> makes for display: hashes in hexadecimal (\<open>info.go\<close>) and the summary of a torrent
  (\<open>torrent.go\<close>). The verbs \<open>%s\<close>, \<open>%d\<close> and \<open>%x\<close> are the bytes of a string, a decimal number and two hexadecimal
  digits for each byte. \<open>rest\<close> is what follows the pieces string in memory, as for \<^const>\<open>PieceHashes\<close>.
\<close>

abbreviation newline :: byte where "newline \<equiv> 0x0A"

definition GetHexInfoHash :: "torrent_info \<Rightarrow> bytes" where
  "GetHexInfoHash i = hex_encode (getInfoHash i)"

definition HexPieceHashes :: "bytes \<Rightarrow> torrent_info \<Rightarrow> bytes list option" where
  "HexPieceHashes rest i = map_option (map hex_encode) (PieceHashes rest i)"

definition GetPieceHashesStr :: "bytes \<Rightarrow> torrent_info \<Rightarrow> bytes option" where
  "GetPieceHashesStr rest i =
     map_option (\<lambda>pieceHashes. TrimSpace (concat (map (\<lambda>h. h @ [newline]) pieceHashes))) (HexPieceHashes rest i)"

text \<open>\<open>strings.Join\<close>.\<close>

fun join_with :: "bytes \<Rightarrow> bytes list \<Rightarrow> bytes" where
  "join_with sep [] = []"
| "join_with sep [p] = p"
| "join_with sep (p # ps) = p @ sep @ join_with sep ps"

fun file_lines :: "nat \<Rightarrow> file_info list \<Rightarrow> bytes" where
  "file_lines i [] = []"
| "file_lines i (f # fs) =
     ascii ''  File '' @ itoa (int i + 1) @ ascii '': '' @ join_with (ascii ''/'') (f_Path f) @ ascii '' ('' @ itoa (f_Length f)
       @ ascii '' bytes)'' @ [newline] @ file_lines (Suc i) fs"

definition files_text :: "torrent_info \<Rightarrow> bytes" where
  "files_text i =
     (if IsSingleFile i then ascii ''Single File: '' @ i_Name i @ ascii '' ('' @ itoa (i_Length i) @ ascii '' bytes)''
      else ascii ''Multi-File: '' @ i_Name i @ ascii '' (root directory)'' @ [newline] @ file_lines 0 (i_Files i))"

definition torrent_text :: "bytes \<Rightarrow> torrent_file \<Rightarrow> bytes option" where
  "torrent_text rest t =
     map_option (\<lambda>hashes.
         ascii ''Tracker URL: '' @ t_Announce t @ [newline] @ ascii ''Length: '' @ itoa (i_Length (t_Info t)) @ [newline]
         @ ascii ''Info Hash: '' @ hex_encode (getInfoHash (t_Info t)) @ [newline]
         @ ascii ''Piece Length: '' @ itoa (i_PieceLength (t_Info t)) @ [newline]
         @ TrimSpace (files_text (t_Info t)) @ [newline] @ ascii ''Piece Hashes:'' @ [newline] @ hashes)
       (GetPieceHashesStr rest (t_Info t))"

section \<open>What the texts say\<close>

lemma TrimSpace_last_newline:
  assumes "is_hex b" "is_hex c"
  shows "TrimSpace (b # xs @ [c, newline]) = b # xs @ [c]" "TrimSpace (b # [newline]) = [b]"
proof -
  have n: "set [newline] \<subseteq> set ascii_spaces" by (simp add: ascii_spaces_def)
  have f: "trim_front space_chars (b # ys) = b # ys" for ys by (rule trim_front_stop [OF is_hex_facts(1) [OF assms(1)]])
  have r: "trim_front (map rev space_chars) (newline # d # ys) = d # ys" if "is_hex d" for d ys
    using trim_spaces(2) [OF n, of "d # ys"] trim_front_stop [OF is_hex_facts(2) [OF that], of ys] by simp
  show "TrimSpace (b # xs @ [c, newline]) = b # xs @ [c]" by (simp add: TrimSpace_def f r [OF assms(2)])
  show "TrimSpace (b # [newline]) = [b]" by (simp add: TrimSpace_def f r [OF assms(1)])
qed

lemma lines_join: "hs \<noteq> [] \<Longrightarrow> concat (map (\<lambda>h. h @ [newline]) hs) = join_with [newline] hs @ [newline]"
  by (induction "[newline]" hs rule: join_with.induct) auto

lemma join_hex:
  assumes "hs \<noteq> []" "\<forall>h \<in> set hs. h \<noteq> [] \<and> list_all is_hex h"
  shows "join_with sep hs \<noteq> [] \<and> is_hex (hd (join_with sep hs)) \<and> is_hex (last (join_with sep hs))"
  using assms
proof (induction sep hs rule: join_with.induct)
  case (2 sep p)
  then show ?case using hd_in_set [of p] last_in_set [of p] by (auto simp: list_all_iff)
next
  case (3 sep p q ps)
  then have "join_with sep (q # ps) \<noteq> [] \<and> is_hex (last (join_with sep (q # ps)))" by simp
  then show ?case using "3.prems" by (cases p) auto
qed simp

text \<open>The hashes are shown one a line, in 40 lower-case digits that read back as the pieces string, whenever its length is a multiple of 20; the
  text of a torrent is made exactly when \<^const>\<open>PieceHashes\<close> does not panic.\<close>

theorem piece_hashes_text:
  assumes "length (i_Pieces i) mod 20 = 0"
  shows "\<exists>hs. HexPieceHashes rest i = Some hs \<and> list_all (\<lambda>h. length h = 40 \<and> list_all is_hex h) hs
    \<and> map_option concat (those (map hex_decode hs)) = Some (i_Pieces i)
    \<and> GetPieceHashesStr rest i = Some (join_with [newline] hs)"
proof -
  obtain bs where bs: "PieceHashes rest i = Some bs" "concat bs = i_Pieces i" "list_all (\<lambda>h. length h = 20) bs"
    using PieceHashes_whole [OF assms] by blast
  let ?hs = "map hex_encode bs"
  have size: "length (hex_encode b) = 2 * length b" for b by (induction b) (simp_all add: hex_encode_def)
  have digits: "list_all (\<lambda>h. length h = 40 \<and> list_all is_hex h) ?hs"
    using bs(3) hex_encode_chars by (simp add: list_all_iff size)
  have "those (map hex_decode (map hex_encode cs)) = Some cs" for cs by (induction cs) (simp_all add: hex_roundtrip)
  then have rd: "map_option concat (those (map hex_decode ?hs)) = Some (i_Pieces i)" using bs(2) by simp
  have "TrimSpace (concat (map (\<lambda>h. h @ [newline]) ?hs)) = join_with [newline] ?hs"
  proof (cases "?hs = []")
    case True
    have "find (\<lambda>c. c \<noteq> [] \<and> take (length c) [] = c) cs = None" for cs :: "bytes list" by (auto simp: find_None_iff)
    then have "trim_front cs [] = []" for cs by (subst trim_front.simps) simp
    then show ?thesis using True by (simp add: TrimSpace_def)
  next
    case False
    let ?j = "join_with [newline] ?hs"
    have "\<forall>h \<in> set ?hs. h \<noteq> [] \<and> list_all is_hex h" using digits by (auto simp: list_all_iff)
    note j = join_hex [OF False this, of "[newline]"]
    have "TrimSpace (?j @ [newline]) = ?j"
    proof (cases "length ?j = 1")
      case True
      then obtain b where "?j = [b]" by (auto simp: length_Suc_conv)
      then show ?thesis using j TrimSpace_last_newline(2) [of b] by simp
    next
      case False
      then obtain b xs c where "?j = b # xs @ [c]" using j
        by (metis One_nat_def append_Nil append_butlast_last_id length_Cons list.exhaust list.size(3))
      then show ?thesis using j TrimSpace_last_newline(1) [of b c xs] by simp
    qed
    then show ?thesis using lines_join [OF False] by simp
  qed
  then have "GetPieceHashesStr rest i = Some (join_with [newline] ?hs)" by (simp add: GetPieceHashesStr_def HexPieceHashes_def bs(1))
  then show ?thesis using digits rd bs(1) by (intro exI [of _ ?hs]) (simp add: HexPieceHashes_def)
qed

theorem piece_hashes_text_witness:
  "GetPieceHashesStr (w_rest one_world) one_piece = Some (hex_encode (sha1 [1, 2, 3]))"
proof -
  have "length (i_Pieces one_piece) mod 20 = 0" by (simp add: one_piece_def)
  from piece_hashes_text [OF this, of "w_rest one_world"] show ?thesis by (auto simp: HexPieceHashes_def one_hashes)
qed

theorem torrent_text_total: "torrent_text rest t = None \<longleftrightarrow> PieceHashes rest (t_Info t) = None"
  by (simp add: torrent_text_def GetPieceHashesStr_def HexPieceHashes_def)

end
