(* ===== verification/SeederRun.thy ===== *)
theory SeederRun
  imports Seeder
begin

text \<open>
  The seeder as a process: its options (\<open>seeder/config.go\<close>), the loop of the choker (\<open>choker.go\<close>), the port and the
  shutdown of \<open>Run\<close> (\<open>seeder.go\<close>).
\<close>

section \<open>Options\<close>

definition WithListenPort :: "int \<Rightarrow> seeder_config \<Rightarrow> seeder_config" where
  "WithListenPort port c = c\<lparr>ListenPort := port\<rparr>"

definition WithMaxPeers :: "int \<Rightarrow> seeder_config \<Rightarrow> seeder_config" where
  "WithMaxPeers n c = c\<lparr>MaxPeers := n\<rparr>"

definition WithUnchokeSlots :: "int \<Rightarrow> seeder_config \<Rightarrow> seeder_config" where
  "WithUnchokeSlots n c = c\<lparr>UnchokeSlots := n\<rparr>"

definition WithUnchokeInterval :: "int \<Rightarrow> seeder_config \<Rightarrow> seeder_config" where
  "WithUnchokeInterval d c = c\<lparr>UnchokeInterval := d\<rparr>"

section \<open>The choker's loop\<close>

text \<open>
  \<open>NewChoker\<close> and \<open>Run\<close>: a ticker, which panics for an interval that is not positive; a round at once, and one for each
  wake-up until the context is done. Between the rounds other steps of the seeder are taken: \<open>between\<close> is what they make of it.
\<close>

record choker =
  ck_slots :: int
  ck_interval :: int

definition NewChoker :: "seeder_config \<Rightarrow> choker" where
  "NewChoker cfg = \<lparr>ck_slots = UnchokeSlots cfg, ck_interval = UnchokeInterval cfg\<rparr>"

fun choker_loop :: "((addrport list \<Rightarrow> addrport list) \<times> (seeder \<Rightarrow> seeder)) list \<Rightarrow> seeder \<Rightarrow> seeder option" where
  "choker_loop [] s = Some s"
| "choker_loop ((shuffle, between) # rounds) s = Option.bind (tick shuffle (between s)) (choker_loop rounds)"

definition choker_run :: "choker \<Rightarrow> (addrport list \<Rightarrow> addrport list) \<Rightarrow> ((addrport list \<Rightarrow> addrport list) \<times> (seeder \<Rightarrow> seeder)) list \<Rightarrow> seeder \<Rightarrow> seeder option" where
  "choker_run ck shuffle rounds s =
     (if ck_interval ck \<le> 0 then None else choker_loop ((shuffle, \<lambda>s. s) # rounds) s)"

section \<open>Port and shutdown\<close>

text \<open>\<open>ListenPort\<close>: that of the listener, if there is one. \<open>getPeers\<close>: the map in the order of an iteration.\<close>

definition listen_port :: "int option \<Rightarrow> seeder \<Rightarrow> int" where
  "listen_port listener s = (case listener of None \<Rightarrow> ListenPort (sd_config s) | Some port \<Rightarrow> port)"

definition getPeers :: "((addrport \<times> seed_peer) list \<Rightarrow> (addrport \<times> seed_peer) list) \<Rightarrow> seeder \<Rightarrow> seed_peer list" where
  "getPeers order s = map snd (order (sd_peers s))"

text \<open>The end of \<open>Run\<close>: every connection is closed and every peer removed, also those the loop does not reach first.\<close>

definition shutdown_order :: "((addrport \<times> seed_peer) list \<Rightarrow> (addrport \<times> seed_peer) list) \<Rightarrow> seeder \<Rightarrow> seeder" where
  "shutdown_order order s = fold (\<lambda>(addr, sp) s. removePeer addr s) (order (sd_peers s)) s"

section \<open>What the loops keep\<close>

lemma choker_loop_reachable:
  assumes "seeder_reachable s0 s" "choker_loop rounds s = Some s'"
    and "\<forall>(shuffle, between) \<in> set rounds. (\<forall>l. mset (shuffle l) = mset l) \<and> (\<forall>s. seeder_reachable s0 s \<longrightarrow> seeder_reachable s0 (between s))"
  shows "seeder_reachable s0 s'"
  using assms
proof (induction rounds arbitrary: s)
  case (Cons x rounds)
  obtain shuffle between where x: "x = (shuffle, between)" by (cases x)
  with Cons.prems obtain s1 where t: "tick shuffle (between s) = Some s1" "choker_loop rounds s1 = Some s'" by (auto simp: bind_eq_Some_conv)
  have "seeder_reachable s0 (between s)" "fair_event (Ticks shuffle)" using Cons.prems x by (auto simp: fair_event_def)
  then have "seeder_reachable s0 s1" using seeder_reachable.move [of s0 "between s" "Ticks shuffle" s1] t(1) by simp
  then show ?case using Cons.IH t(2) Cons.prems(3) by simp
qed simp

text \<open>A choker that runs beside the rest of the seeder only leads to states the seeder reaches, so what holds in all of them holds for it; and a
  shutdown leaves no peer connected.\<close>

lemma choker_run_reachable:
  assumes "seeder_reachable s0 s" "choker_run ck shuffle rounds s = Some s'" "\<And>l. mset (shuffle l) = mset l"
    and "\<forall>(shuffle, between) \<in> set rounds. (\<forall>l. mset (shuffle l) = mset l) \<and> (\<forall>s. seeder_reachable s0 s \<longrightarrow> seeder_reachable s0 (between s))"
  shows "seeder_reachable s0 s'"
  using assms by (intro choker_loop_reachable [OF assms(1), of "(shuffle, \<lambda>s. s) # rounds"]) (auto simp: choker_run_def split: if_splits)

lemma shutdown_fold: "sd_peers (fold (\<lambda>(addr, sp) s. removePeer addr s) es s) = filter (\<lambda>e. fst e \<notin> fst ` set es) (sd_peers s)"
  by (induction es arbitrary: s) (simp_all add: removePeer_def dict_del_def case_prod_unfold conj_commute)

lemma shutdown_empty:
  assumes "\<And>l. set (order l) = set l"
  shows "sd_peers (shutdown_order order s) = []"
  by (auto simp: shutdown_order_def shutdown_fold assms filter_empty_conv)

end
